(* ===== verification/Prelude.thy ===== *)
theory Prelude
  imports Main "HOL-Library.Word" "HOL-Library.List_Lexorder" "HOL-Library.Product_Lexorder"
    "HOL-Library.Code_Target_Numeral"
begin

unbundle bit_operations_syntax

text \<open>
  Shared ground of the development: byte strings and their big-endian reading, the fault values a
  Go call can end in, and generic facts on lists, maps and words that several components use.

  Errors are values.  A Go function with an \<open>error\<close> result returns \<open>goerr + 'a\<close>; one that can
  also panic (a nil dereference, an index out of range, an explicit \<open>panic\<close>) returns
  \<open>fault + 'a\<close>, where \<open>Err\<close> is an ordinary error and \<open>Panic\<close> ends the goroutine.
\<close>

named_theorems bytes_simps \<open>equations on byte strings and their numeric reading\<close>
named_theorems net_simps \<open>equations on addresses and networks\<close>

section \<open>Fault values\<close>

type_synonym byte = "8 word"

datatype gopanic = NilDereference | SliceBounds | InvalidAddress | InvalidFamily int | AlreadyRegistered string | Panicf string

text \<open>The errors of package wgipam and of the code it calls; each carries the values its message
  prints.  \<open>IPUnavailable\<close>, \<open>InvalidRequest\<close>, \<open>UnsupportedProtocol\<close> and \<open>OtherWGError\<close> are the errors
  of the wg-dynamic protocol, \<open>StoreFailure\<close> is an I/O or decoding failure of a storage backend.\<close>

datatype goerr =
    ParseError string
  | SubnetCannotContain string string
  | NoSuchSubnet string
  | NoSubnets
  | InvalidSubnet goerr
  | NotASubnet
  | StartNotContained
  | EndNotContained
  | EndBeforeStart
  | ReservedNotContained
  | InvalidPosition
  | PositionOutOfRange
  | WrongFamily
  | FreeFailed goerr "goerr option"
  | IPUnavailable
  | InvalidRequest
  | UnsupportedProtocol
  | OtherWGError int string
  | StoreFailure

datatype fault = Err goerr | Panic gopanic

abbreviation lift_err :: "goerr + 'a \<Rightarrow> fault + 'a" where
  "lift_err r \<equiv> (case r of Inl e \<Rightarrow> Inl (Err e) | Inr x \<Rightarrow> Inr x)"

section \<open>Byte strings read as big-endian numbers\<close>

fun be_nat :: "byte list \<Rightarrow> nat" where
  "be_nat [] = 0"
| "be_nat (b # bs) = unat b * 256 ^ length bs + be_nat bs"

fun be_bytes :: "nat \<Rightarrow> nat \<Rightarrow> byte list" where
  "be_bytes 0 n = []"
| "be_bytes (Suc k) n = be_bytes k (n div 256) @ [word_of_nat n]"

lemma length_be_bytes [simp, bytes_simps]: "length (be_bytes k n) = k"
  by (induction k arbitrary: n) auto

lemma be_nat_append [bytes_simps]: "be_nat (xs @ ys) = be_nat xs * 256 ^ length ys + be_nat ys"
  by (induction xs) (auto simp: algebra_simps power_add)

lemma unat_byte_less: "unat (b :: byte) < 256"
  using unsigned_less [of b, where ?'a = nat] by simp

lemma be_nat_less [bytes_simps]: "be_nat bs < 256 ^ length bs"
proof (induction bs)
  case (Cons b bs)
  have "unat b * 256 ^ length bs + be_nat bs < unat b * 256 ^ length bs + 256 ^ length bs"
    using Cons.IH by simp
  also have "\<dots> = (unat b + 1) * 256 ^ length bs" by simp
  also have "\<dots> \<le> 256 * 256 ^ length bs"
    using unat_byte_less [of b] by (intro mult_right_mono) auto
  finally show ?case by simp
qed simp

lemma be_nat_be_bytes [bytes_simps]: "be_nat (be_bytes k n) = n mod 256 ^ k"
proof (induction k arbitrary: n)
  case (Suc k)
  have "n mod 256 ^ Suc k = 256 * (n div 256 mod 256 ^ k) + n mod 256"
    by (simp add: mod_mult2_eq)
  with Suc show ?case
    by (simp add: be_nat_append unat_of_nat take_bit_eq_mod)
qed simp

lemma be_bytes_be_nat [bytes_simps]: "be_bytes (length bs) (be_nat bs) = bs"
proof (induction bs rule: rev_induct)
  case (snoc b bs)
  have "be_nat (bs @ [b]) div 256 = be_nat bs"
    using unat_byte_less [of b] by (simp add: be_nat_append)
  moreover have "(word_of_nat (be_nat (bs @ [b])) :: byte) = b"
    by (subst of_nat_eq) (auto simp: be_nat_append intro!: exI [of _ "be_nat bs"])
  ultimately show ?case using snoc by simp
qed simp

lemma be_nat_inj: "length xs = length ys \<Longrightarrow> be_nat xs = be_nat ys \<longleftrightarrow> xs = ys"
  by (metis be_bytes_be_nat)

end
