(* ===== verification/Net_IP.thy ===== *)
theory Net_IP
  imports Prelude
begin

text \<open>
  Go's \<open>net.IP\<close>, \<open>net.IPMask\<close> and \<open>net.IPNet\<close>, as the code uses them: addresses and masks are byte
  slices of any length (4 or 16 when valid), a nil slice is the empty list, and every operation
  follows the one of package \<open>net\<close> byte by byte.  The second half relates the byte view to
  numbers: an address is its 128-bit value, and a network is a range of such values.
\<close>

section \<open>Addresses and masks\<close>

type_synonym ip = "byte list"
type_synonym ipmask = "byte list"

record ipnet =
  IP :: ip
  Mask :: ipmask

definition v4InV6Prefix :: "byte list" where
  "v4InV6Prefix = [0, 0, 0, 0, 0, 0, 0, 0, 0, 0, 0xff, 0xff]"

definition IPv4zero :: ip where
  "IPv4zero = v4InV6Prefix @ [0, 0, 0, 0]"

definition IPv6zero :: ip where
  "IPv6zero = replicate 16 0"

definition to4 :: "ip \<Rightarrow> ip option" where
  "to4 ip =
     (if length ip = 4 then Some ip
      else if length ip = 16 \<and> take 12 ip = v4InV6Prefix then Some (drop 12 ip)
      else None)"

definition to16 :: "ip \<Rightarrow> ip option" where
  "to16 ip =
     (if length ip = 4 then Some (v4InV6Prefix @ ip)
      else if length ip = 16 then Some ip
      else None)"

definition ip_equal :: "ip \<Rightarrow> ip \<Rightarrow> bool" where
  "ip_equal ip x =
     (if length ip = length x then ip = x
      else if length ip = 4 \<and> length x = 16 then take 12 x = v4InV6Prefix \<and> ip = drop 12 x
      else if length ip = 16 \<and> length x = 4 then take 12 ip = v4InV6Prefix \<and> drop 12 ip = x
      else False)"

definition bytes_and :: "byte list \<Rightarrow> byte list \<Rightarrow> byte list" where
  "bytes_and xs ys = map2 (\<lambda>x y. x AND y) xs ys"

text \<open>\<open>IP.Mask\<close>; the nil result of a length mismatch is the empty list.\<close>

definition ip_mask :: "ip \<Rightarrow> ipmask \<Rightarrow> ip" where
  "ip_mask ip mask0 =
     (let m = (if length mask0 = 16 \<and> length ip = 4 \<and> take 12 mask0 = replicate 12 0xff
               then drop 12 mask0 else mask0);
          a = (if length m = 4 \<and> length ip = 16 \<and> take 12 ip = v4InV6Prefix
               then drop 12 ip else ip)
      in if length a \<noteq> length m then [] else bytes_and a m)"

fun cidr_bytes :: "nat \<Rightarrow> nat \<Rightarrow> byte list" where
  "cidr_bytes 0 n = []"
| "cidr_bytes (Suc l) n =
     (if 8 \<le> n then 0xff # cidr_bytes l (n - 8)
      else NOT (drop_bit n 0xff) # cidr_bytes l 0)"

definition CIDRMask :: "nat \<Rightarrow> nat \<Rightarrow> ipmask" where
  "CIDRMask ones bits =
     (if bits \<noteq> 32 \<and> bits \<noteq> 128 then []
      else if bits < ones then []
      else cidr_bytes (bits div 8) ones)"

text \<open>\<open>simpleMaskLength\<close>: the number of leading ones, \<open>None\<close> for Go's -1 (not of the form ones
  then zeros).\<close>

fun byte_ones :: "nat \<Rightarrow> byte \<Rightarrow> nat" where
  "byte_ones 0 v = 0"
| "byte_ones (Suc k) v = (if bit v 7 then Suc (byte_ones k (push_bit 1 v)) else 0)"

fun simpleMaskLength :: "ipmask \<Rightarrow> nat option" where
  "simpleMaskLength [] = Some 0"
| "simpleMaskLength (v # m) =
     (if v = 0xff then map_option (\<lambda>n. 8 + n) (simpleMaskLength m)
      else let n = byte_ones 8 v in
        if push_bit n v \<noteq> 0 then None
        else if list_all (\<lambda>b. b = 0) m then Some n else None)"

text \<open>The ones count of \<open>IPMask.Size\<close>, which is 0 for a mask that is not of the simple form.\<close>

definition mask_ones :: "ipmask \<Rightarrow> nat" where
  "mask_ones m = (case simpleMaskLength m of None \<Rightarrow> 0 | Some n \<Rightarrow> n)"

section \<open>Networks\<close>

definition networkNumberAndMask :: "ipnet \<Rightarrow> (ip \<times> ipmask) option" where
  "networkNumberAndMask n =
     (let ipo = (case to4 (IP n) of
                   Some ip \<Rightarrow> Some ip
                 | None \<Rightarrow> if length (IP n) \<noteq> 16 then None else Some (IP n))
      in case ipo of
           None \<Rightarrow> None
         | Some ip \<Rightarrow>
             if length (Mask n) = 4 then (if length ip \<noteq> 4 then None else Some (ip, Mask n))
             else if length (Mask n) = 16 then
               Some (ip, if length ip = 4 then drop 12 (Mask n) else Mask n)
             else None)"

text \<open>\<open>IPNet.Contains\<close>.  When the network is malformed its number is nil, and only an address
  of length 0 passes the length test.\<close>

definition contains :: "ipnet \<Rightarrow> ip \<Rightarrow> bool" where
  "contains n ip =
     (let nm = (case networkNumberAndMask n of None \<Rightarrow> ([], []) | Some x \<Rightarrow> x);
          x = (case to4 ip of Some y \<Rightarrow> y | None \<Rightarrow> ip)
      in if length x \<noteq> length (fst nm) then False
         else bytes_and (fst nm) (snd nm) = bytes_and x (snd nm))"

section \<open>The numeric view\<close>

lemma length_bytes_and [simp, bytes_simps]: "length (bytes_and xs ys) = min (length xs) (length ys)"
  by (simp add: bytes_and_def)

lemma length_cidr_bytes [simp, bytes_simps]: "length (cidr_bytes l n) = l"
  by (induction l arbitrary: n) auto

lemma length_v4InV6Prefix [simp, bytes_simps]: "length v4InV6Prefix = 12"
  by (simp add: v4InV6Prefix_def)

lemma bytes_and_Cons [simp]: "bytes_and (x # xs) (y # ys) = (x AND y) # bytes_and xs ys"
  by (simp add: bytes_and_def)

lemma bytes_and_Nil [simp]: "bytes_and [] ys = []" "bytes_and xs [] = []"
  by (simp_all add: bytes_and_def)

lemma byte_ones_mask: "(0xff :: byte) = mask 8"
  by (simp add: mask_eq_exp_minus_1)

lemma byte_and_ones [simp]: "(b :: byte) AND 0xff = b"
  unfolding byte_ones_mask by (simp add: bit_eq_iff bit_simps)

lemma byte_and_high:
  assumes "n < 8"
  shows "unat ((b :: byte) AND NOT (drop_bit n 0xff)) = unat b div 2 ^ (8 - n) * 2 ^ (8 - n)"
proof -
  have m: "drop_bit n (0xff :: byte) = mask (8 - n)"
    unfolding byte_ones_mask using assms by (auto simp: bit_eq_iff bit_simps)
  have h: "b AND NOT (mask (8 - n)) = push_bit (8 - n) (drop_bit (8 - n) b)"
    by (auto simp: bit_eq_iff bit_simps)
  have "unat b div 2 ^ (8 - n) * 2 ^ (8 - n) \<le> unat b" by simp
  also have "\<dots> < 256" by (rule unat_byte_less)
  finally show ?thesis unfolding m h unsigned_push_bit_eq unsigned_drop_bit_eq
    by (simp add: push_bit_eq_mult drop_bit_eq_div take_bit_eq_mod unat_byte_less)
qed

lemma be_nat_bytes_and_cidr [bytes_simps]:
  assumes "length xs = l" "n \<le> 8 * l"
  shows "be_nat (bytes_and xs (cidr_bytes l n)) = be_nat xs div 2 ^ (8 * l - n) * 2 ^ (8 * l - n)"
  using assms
proof (induction l n arbitrary: xs rule: cidr_bytes.induct)
  case (1 n)
  then show ?case by simp
next
  case (2 l n)
  then obtain b bs where xs: "xs = b # bs" and len: "length bs = l" by (cases xs) auto
  have p256: "(256 :: nat) ^ l = 2 ^ (8 * l)" by (simp add: power_mult)
  show ?case
  proof (cases "8 \<le> n")
    case True
    let ?H = "2 ^ (8 * l - (n - 8)) :: nat"
    have H: "8 * Suc l - n = 8 * l - (n - 8)" using True by simp
    have IH: "be_nat (bytes_and bs (cidr_bytes l (n - 8))) = be_nat bs div ?H * ?H"
      using "2.IH"(1) [OF True len] "2.prems"(2) by simp
    have "?H dvd 256 ^ l" unfolding p256 by (simp add: le_imp_power_dvd)
    then obtain q where q: "256 ^ l = ?H * q" by (rule dvdE)
    have "(unat b * (?H * q) + be_nat bs) div ?H = (be_nat bs + ?H * (unat b * q)) div ?H"
      by (simp only: ac_simps)
    also have "\<dots> = unat b * q + be_nat bs div ?H"
      by (subst div_mult_self2) simp_all
    finally have "(unat b * 256 ^ l + be_nat bs) div ?H * ?H = unat b * 256 ^ l + be_nat bs div ?H * ?H"
      unfolding q by (simp add: algebra_simps)
    with True IH show ?thesis unfolding H by (simp add: xs len)
  next
    case False
    let ?K = "2 ^ (8 - n) :: nat"
    have H: "(2 :: nat) ^ (8 * Suc l - n) = 256 ^ l * ?K"
      unfolding p256 using False by (simp flip: power_add)
    have "be_nat (bytes_and bs (cidr_bytes l 0)) = be_nat bs div 2 ^ (8 * l) * 2 ^ (8 * l)"
      using "2.IH"(2) [OF False len] by simp
    then have z: "be_nat (bytes_and bs (cidr_bytes l 0)) = 0"
      using be_nat_less [of bs] by (simp add: len flip: p256)
    have "(unat b * 256 ^ l + be_nat bs) div (256 ^ l * ?K) = unat b div ?K"
      using be_nat_less [of bs] by (simp add: div_mult2_eq len)
    with False z show ?thesis
      unfolding H by (simp add: xs len byte_and_high)
  qed
qed

lemma bytes_and_cidr_eq_iff:
  assumes "length xs = l" "length ys = l" "n \<le> 8 * l"
  shows "bytes_and xs (cidr_bytes l n) = bytes_and ys (cidr_bytes l n) \<longleftrightarrow>
    be_nat xs div 2 ^ (8 * l - n) = be_nat ys div 2 ^ (8 * l - n)"
proof -
  have "bytes_and xs (cidr_bytes l n) = bytes_and ys (cidr_bytes l n) \<longleftrightarrow>
      be_nat (bytes_and xs (cidr_bytes l n)) = be_nat (bytes_and ys (cidr_bytes l n))"
    using assms by (simp add: be_nat_inj)
  then show ?thesis using assms by (simp add: be_nat_bytes_and_cidr)
qed

subsection \<open>Mask lengths\<close>

lemma byte_partial_mask:
  assumes "n < 8"
  shows "NOT (drop_bit n 0xff) \<noteq> (0xff :: byte)"
    "byte_ones 8 (NOT (drop_bit n 0xff)) = n"
    "push_bit n (NOT (drop_bit n 0xff) :: byte) = 0"
proof -
  have "list_all (\<lambda>n. NOT (drop_bit n 0xff) \<noteq> (0xff :: byte) \<and> byte_ones 8 (NOT (drop_bit n 0xff)) = n \<and>
      push_bit n (NOT (drop_bit n 0xff) :: byte) = 0) [0, 1, 2, 3, 4, 5, 6, 7]"
    by code_simp
  moreover have "n \<in> set [0, 1, 2, 3, 4, 5, 6, 7]" using assms by auto
  ultimately show "NOT (drop_bit n 0xff) \<noteq> (0xff :: byte)"
    "byte_ones 8 (NOT (drop_bit n 0xff)) = n"
    "push_bit n (NOT (drop_bit n 0xff) :: byte) = 0"
    unfolding list_all_iff by blast+
qed

lemma cidr_bytes_0: "cidr_bytes l 0 = replicate l 0"
  by (induction l) simp_all

lemma simpleMaskLength_cidr: "n \<le> 8 * l \<Longrightarrow> simpleMaskLength (cidr_bytes l n) = Some n"
proof (induction l n rule: cidr_bytes.induct)
  case (2 l n)
  show ?case
  proof (cases "8 \<le> n")
    case True
    with 2 show ?thesis by simp
  next
    case False
    then show ?thesis
      by (simp add: Let_def byte_partial_mask cidr_bytes_0 list_all_iff)
  qed
qed simp

lemma mask_ones_cidr [net_simps]: "n \<le> 8 * l \<Longrightarrow> mask_ones (cidr_bytes l n) = n"
  by (simp add: mask_ones_def simpleMaskLength_cidr)

lemma CIDRMask_32: "l \<le> 32 \<Longrightarrow> CIDRMask l 32 = cidr_bytes 4 l"
  and CIDRMask_128: "l \<le> 128 \<Longrightarrow> CIDRMask l 128 = cidr_bytes 16 l"
  by (simp_all add: CIDRMask_def)

subsection \<open>Values of addresses, ranges of networks\<close>

definition valid_ip :: "ip \<Rightarrow> bool" where
  "valid_ip ip \<longleftrightarrow> length ip = 4 \<or> length ip = 16"

definition is4 :: "ip \<Rightarrow> bool" where
  "is4 ip \<longleftrightarrow> to4 ip \<noteq> None"

definition ipval :: "ip \<Rightarrow> nat" where
  "ipval ip = (case to16 ip of None \<Rightarrow> 0 | Some x \<Rightarrow> be_nat x)"

definition mapped_base :: nat where
  "mapped_base = 0xffff * 2 ^ 32"

text \<open>A network with a mask of the canonical form for its family, as \<open>net.ParseCIDR\<close> and the
  configuration produce; its host part is the last \<open>host_bits\<close> bits.\<close>

definition addr_bits :: "ip \<Rightarrow> nat" where
  "addr_bits ip = (if is4 ip then 32 else 128)"

definition net_ok :: "ipnet \<Rightarrow> bool" where
  "net_ok n \<longleftrightarrow> valid_ip (IP n) \<and> mask_ones (Mask n) \<le> addr_bits (IP n) \<and>
     Mask n = CIDRMask (mask_ones (Mask n)) (addr_bits (IP n))"

definition host_bits :: "ipnet \<Rightarrow> nat" where
  "host_bits n = addr_bits (IP n) - mask_ones (Mask n)"

definition net_base :: "ipnet \<Rightarrow> nat" where
  "net_base n = ipval (IP n) div 2 ^ host_bits n * 2 ^ host_bits n"

definition net_last :: "ipnet \<Rightarrow> nat" where
  "net_last n = net_base n + (2 ^ host_bits n - 1)"

text \<open>The address of a network, with no bit of the host part set.\<close>

definition base_net :: "ipnet \<Rightarrow> bool" where
  "base_net n \<longleftrightarrow> net_ok n \<and> ipval (IP n) = net_base n"

lemma be_nat_prefix: "be_nat (v4InV6Prefix @ xs) = 0xffff * 256 ^ length xs + be_nat xs"
proof -
  have u: "unat (0xff :: byte) = 255" by simp
  show ?thesis
    by (simp add: v4InV6Prefix_def be_nat_append u del: unat_numeral unsigned_numeral)
qed

lemma to4_cases [case_names v4 mapped v6 bad]:
  obtains "length ip = 4" "to4 ip = Some ip" "to16 ip = Some (v4InV6Prefix @ ip)"
  | x where "length x = 4" "ip = v4InV6Prefix @ x" "to4 ip = Some x" "to16 ip = Some ip"
  | "length ip = 16" "take 12 ip \<noteq> v4InV6Prefix" "to4 ip = None" "to16 ip = Some ip"
  | "\<not> valid_ip ip" "to4 ip = None" "to16 ip = None"
proof -
  consider "length ip = 4" | "length ip = 16" "take 12 ip = v4InV6Prefix"
    | "length ip = 16" "take 12 ip \<noteq> v4InV6Prefix" | "\<not> valid_ip ip"
    by (auto simp: valid_ip_def)
  then show thesis
  proof cases
    case 2
    then have "ip = v4InV6Prefix @ drop 12 ip" by (metis append_take_drop_id)
    moreover have "length (drop 12 ip) = 4" using 2 by simp
    moreover have "to4 ip = Some (drop 12 ip)" "to16 ip = Some ip"
      using 2 by (simp_all add: to4_def to16_def)
    ultimately show ?thesis using that(2) by blast
  qed (use that in \<open>auto simp: to4_def to16_def valid_ip_def\<close>)
qed

lemma to4_Some_ipval: "to4 ip = Some x \<Longrightarrow> length x = 4 \<and> ipval ip = mapped_base + be_nat x"
  by (cases ip rule: to4_cases) (auto simp: ipval_def be_nat_prefix mapped_base_def)

lemma ipval_less: "ipval ip < 2 ^ 128"
proof -
  have "be_nat x < 2 ^ 128" if "length x = 16" for x
    using be_nat_less [of x] that by simp
  then show ?thesis by (cases ip rule: to4_cases) (auto simp: ipval_def)
qed

lemma ip_equal_iff:
  "valid_ip ip \<Longrightarrow> valid_ip x \<Longrightarrow> ip_equal ip x \<longleftrightarrow> ipval ip = ipval x"
proof -
  have inj: "be_nat a = be_nat b \<longleftrightarrow> a = b" if "length a = 16" "length b = 16" for a b
    using that by (simp add: be_nat_inj)
  have split12: "take 12 b = p \<and> drop 12 b = q \<longleftrightarrow> b = p @ q" if "length p = 12" "length b = 16" for b p q :: ip
    using that by (metis append_eq_conv_conj append_take_drop_id)
  assume "valid_ip ip" "valid_ip x"
  then consider "length ip = 4" "length x = 4" | "length ip = 4" "length x = 16"
    | "length ip = 16" "length x = 4" | "length ip = 16" "length x = 16"
    by (auto simp: valid_ip_def)
  then show ?thesis
    by cases (auto simp: ip_equal_def ipval_def to16_def inj, (metis split12 length_v4InV6Prefix)+)
qed

subsection \<open>What a network contains\<close>

lemma is4_simps [net_simps]:
  "to4 ip = Some x \<Longrightarrow> is4 ip" "to4 ip = None \<Longrightarrow> \<not> is4 ip"
  by (simp_all add: is4_def)

lemma host_bits_le: "host_bits n \<le> addr_bits (IP n)"
  by (simp add: host_bits_def)

lemma net_ok_number:
  assumes "net_ok n"
  shows "\<exists>x l. networkNumberAndMask n = Some (x, cidr_bytes (length x) l) \<and>
    length x = (if is4 (IP n) then 4 else 16) \<and> 8 * length x - l = host_bits n \<and> l \<le> 8 * length x \<and>
    ipval (IP n) = (if is4 (IP n) then mapped_base else 0) + be_nat x"
proof -
  let ?l = "mask_ones (Mask n)"
  have v: "valid_ip (IP n)" and le: "?l \<le> addr_bits (IP n)"
    and m: "Mask n = CIDRMask ?l (addr_bits (IP n))"
    using assms by (auto simp: net_ok_def)
  show ?thesis
  proof (cases "to4 (IP n)")
    case (Some x)
    then have "ipval (IP n) = mapped_base + be_nat x" "length x = 4" "is4 (IP n)"
      using to4_Some_ipval by (auto simp: is4_def)
    moreover have "Mask n = cidr_bytes 4 ?l" "?l \<le> 32"
      using m le calculation(3) CIDRMask_32 [of ?l] by (auto simp: addr_bits_def)
    moreover have "length (Mask n) = 4"
      using calculation(4) by (metis length_cidr_bytes)
    moreover have "networkNumberAndMask n = Some (x, Mask n)"
      using Some calculation by (simp add: networkNumberAndMask_def)
    ultimately show ?thesis
      by (intro exI [of _ x] exI [of _ ?l]) (simp add: host_bits_def addr_bits_def)
  next
    case None
    then have "\<not> is4 (IP n)" "length (IP n) = 16" "ipval (IP n) = be_nat (IP n)"
      using v by (cases "IP n" rule: to4_cases; simp add: is4_def ipval_def valid_ip_def)+
    moreover have "Mask n = cidr_bytes 16 ?l" "?l \<le> 128"
      using m le calculation(1) CIDRMask_128 [of ?l] by (auto simp: addr_bits_def)
    moreover have "length (Mask n) = 16"
      using calculation(4) by (metis length_cidr_bytes)
    moreover have "networkNumberAndMask n = Some (IP n, Mask n)"
      using None calculation by (simp add: networkNumberAndMask_def)
    ultimately show ?thesis
      by (intro exI [of _ "IP n"] exI [of _ ?l]) (simp add: host_bits_def addr_bits_def)
  qed
qed

lemma mapped_base_dvd: "h \<le> 32 \<Longrightarrow> (2 :: nat) ^ h dvd mapped_base"
  unfolding mapped_base_def by (metis dvd_mult le_imp_power_dvd)

text \<open>The bytes \<open>Contains\<close> compares: the 4-byte form of an IPv4 address, the address itself
  otherwise.\<close>

definition contains_form :: "ip \<Rightarrow> ip" where
  "contains_form ip = (case to4 ip of Some y \<Rightarrow> y | None \<Rightarrow> ip)"

lemma contains_form:
  assumes "valid_ip ip"
  shows "length (contains_form ip) = (if is4 ip then 4 else 16)"
    and "ipval ip = (if is4 ip then mapped_base else 0) + be_nat (contains_form ip)"
proof -
  have "length (contains_form ip) = (if is4 ip then 4 else 16) \<and>
    ipval ip = (if is4 ip then mapped_base else 0) + be_nat (contains_form ip)"
  proof (cases "to4 ip")
    case (Some y)
    then show ?thesis using to4_Some_ipval [of ip y] by (simp add: contains_form_def is4_def)
  next
    case None
    with assms show ?thesis
      by (cases ip rule: to4_cases) (simp_all add: contains_form_def is4_def ipval_def)
  qed
  then show "length (contains_form ip) = (if is4 ip then 4 else 16)"
    and "ipval ip = (if is4 ip then mapped_base else 0) + be_nat (contains_form ip)"
    by blast+
qed

lemma mapped_base_div:
  "h \<le> 32 \<Longrightarrow> (mapped_base + a) div 2 ^ h = mapped_base div 2 ^ h + a div 2 ^ h"
  using mapped_base_dvd [of h] by (rule div_plus_div_distrib_dvd_left)

lemma contains_div:
  assumes "net_ok n" "valid_ip ip"
  shows "contains n ip \<longleftrightarrow> is4 ip = is4 (IP n) \<and>
    ipval ip div 2 ^ host_bits n = ipval (IP n) div 2 ^ host_bits n"
proof -
  let ?y = "contains_form ip"
  obtain x l where x: "networkNumberAndMask n = Some (x, cidr_bytes (length x) l)"
    "length x = (if is4 (IP n) then 4 else 16)" "8 * length x - l = host_bits n" "l \<le> 8 * length x"
    "ipval (IP n) = (if is4 (IP n) then mapped_base else 0) + be_nat x"
    using net_ok_number [OF assms(1)] by blast
  have y: "length ?y = (if is4 ip then 4 else 16)"
    "ipval ip = (if is4 ip then mapped_base else 0) + be_nat ?y"
    using contains_form [OF assms(2)] by blast+
  have "contains n ip \<longleftrightarrow> length ?y = length x \<and>
      bytes_and x (cidr_bytes (length x) l) = bytes_and ?y (cidr_bytes (length x) l)"
    by (simp add: contains_def x(1) contains_form_def Let_def)
  also have "\<dots> \<longleftrightarrow> length ?y = length x \<and> be_nat x div 2 ^ host_bits n = be_nat ?y div 2 ^ host_bits n"
    using bytes_and_cidr_eq_iff [of x "length x" ?y l] x(3,4) by auto
  also have "\<dots> \<longleftrightarrow> is4 ip = is4 (IP n) \<and> ipval ip div 2 ^ host_bits n = ipval (IP n) div 2 ^ host_bits n"
  proof (cases "is4 ip = is4 (IP n)")
    case True
    have "host_bits n \<le> 32" if "is4 (IP n)"
      using host_bits_le [of n] that by (simp add: addr_bits_def)
    then show ?thesis using True x(2,5) y mapped_base_div [of "host_bits n"] by (auto simp: eq_commute)
  next
    case False
    then show ?thesis using x(2) y(1) by auto
  qed
  finally show ?thesis .
qed

lemma div_eq_iff_range:
  assumes "0 < (d :: nat)"
  shows "a div d = b div d \<longleftrightarrow> b div d * d \<le> a \<and> a \<le> b div d * d + (d - 1)"
proof
  assume "a div d = b div d"
  then have "a = b div d * d + a mod d" by (metis div_mult_mod_eq)
  moreover have "a mod d \<le> d - 1" using assms by (simp add: less_Suc_eq_le [symmetric])
  ultimately show "b div d * d \<le> a \<and> a \<le> b div d * d + (d - 1)" by linarith
next
  assume h: "b div d * d \<le> a \<and> a \<le> b div d * d + (d - 1)"
  then obtain r where r: "a = b div d * d + r" "r < d"
    using assms by (metis add_le_cancel_left le_Suc_ex le_imp_less_Suc Suc_pred' )
  then show "a div d = b div d" by simp
qed

text \<open>\<open>IPNet.Contains\<close> is membership of the family and of the range of values.\<close>

lemma contains_range:
  assumes "net_ok n" "valid_ip ip"
  shows "contains n ip \<longleftrightarrow> is4 ip = is4 (IP n) \<and> net_base n \<le> ipval ip \<and> ipval ip \<le> net_last n"
  using contains_div [OF assms] div_eq_iff_range [of "2 ^ host_bits n" "ipval ip" "ipval (IP n)"]
  by (simp add: net_base_def net_last_def)

lemma contains_not_valid: "net_ok n \<Longrightarrow> contains n ip \<Longrightarrow> valid_ip ip"
proof -
  assume n: "net_ok n" and c: "contains n ip"
  obtain x l where x: "networkNumberAndMask n = Some (x, cidr_bytes (length x) l)"
    "length x = (if is4 (IP n) then 4 else 16)"
    using net_ok_number [OF n] by blast
  with c show "valid_ip ip"
    by (cases ip rule: to4_cases) (auto simp: contains_def Let_def valid_ip_def split: if_splits)
qed

lemma net_base_le_last: "net_base n \<le> net_last n"
  unfolding net_last_def by (rule le_add1)

end
