(* ===== verification/Net_Text.thy ===== *)
theory Net_Text
  imports Net_IP
begin

text \<open>
  The text forms of addresses and networks (\<open>IP.String\<close>, \<open>IPNet.String\<close>) and their parsers
  (\<open>net.ParseIP\<close>, \<open>net.ParseCIDR\<close>), as package \<open>net\<close> of Go 1.13 (the version of go.mod) has them.
  The stores use these strings as keys, so the round trip proved here is what makes a key stand
  for one address.
\<close>

section \<open>Printing\<close>

definition digit_char :: "nat \<Rightarrow> char" where
  "digit_char d = (if d < 10 then char_of (48 + d) else char_of (87 + d))"

text \<open>\<open>uitoa\<close> and \<open>appendHex\<close>: digits without leading zeros, one digit for 0.\<close>

function digits :: "nat \<Rightarrow> nat \<Rightarrow> string" where
  "digits b n = (if b < 2 \<or> n < b then [digit_char n] else digits b (n div b) @ [digit_char (n mod b)])"
  by pat_completeness auto
termination by (relation "measure snd") auto

declare digits.simps [simp del]

fun group_list :: "byte list \<Rightarrow> nat list" where
  "group_list (a # b # bs) = (unat a * 256 + unat b) # group_list bs"
| "group_list bs = []"

definition zero_run :: "nat list \<Rightarrow> nat" where
  "zero_run gs = length (takeWhile (\<lambda>g. g = 0) gs)"

definition run_length :: "(nat \<times> nat) option \<Rightarrow> nat" where
  "run_length best = (case best of None \<Rightarrow> 0 | Some (e0, e1) \<Rightarrow> e1 - e0)"

text \<open>The longest run of zero groups, the first of that length: the scan of \<open>IP.String\<close> from
  group \<open>i\<close> on.\<close>

function best_run :: "nat list \<Rightarrow> nat \<Rightarrow> (nat \<times> nat) option \<Rightarrow> (nat \<times> nat) option" where
  "best_run [] i best = best"
| "best_run (g # gs) i best =
     (let z = zero_run (g # gs)
      in if 0 < z \<and> run_length best < z
         then best_run (drop z gs) (i + z + 1) (Some (i, i + z))
         else best_run gs (i + 1) best)"
  by pat_completeness auto
termination by (relation "measure (\<lambda>(gs, i, best). length gs)") auto

fun join_groups :: "nat list \<Rightarrow> string" where
  "join_groups [] = []"
| "join_groups [g] = digits 16 g"
| "join_groups (g # gs) = digits 16 g @ CHR '':'' # join_groups gs"

definition v6_String :: "ip \<Rightarrow> string" where
  "v6_String ip =
     (let gs = group_list ip; run = best_run gs 0 None
      in case run of
           Some (e0, e1) \<Rightarrow>
             if e1 - e0 \<le> 1 then join_groups gs
             else join_groups (take e0 gs) @ CHR '':'' # CHR '':'' # join_groups (drop e1 gs)
         | None \<Rightarrow> join_groups gs)"

definition v4_String :: "ip \<Rightarrow> string" where
  "v4_String p = digits 10 (unat (p ! 0)) @ CHR ''.'' # digits 10 (unat (p ! 1)) @ CHR ''.'' #
     digits 10 (unat (p ! 2)) @ CHR ''.'' # digits 10 (unat (p ! 3))"

definition hexString :: "byte list \<Rightarrow> string" where
  "hexString bs = concat (map (\<lambda>b. [digit_char (unat b div 16), digit_char (unat b mod 16)]) bs)"

definition ip_String :: "ip \<Rightarrow> string" where
  "ip_String ip =
     (if ip = [] then ''<nil>''
      else case to4 ip of
        Some p4 \<Rightarrow> v4_String p4
      | None \<Rightarrow> if length ip \<noteq> 16 then CHR ''?'' # hexString ip else v6_String ip)"

definition mask_String :: "ipmask \<Rightarrow> string" where
  "mask_String m = (if m = [] then ''<nil>'' else hexString m)"

definition ipnet_String :: "ipnet \<Rightarrow> string" where
  "ipnet_String n =
     (case networkNumberAndMask n of
        None \<Rightarrow> ''<nil>''
      | Some (nn, m) \<Rightarrow>
          (case simpleMaskLength m of
             None \<Rightarrow> ip_String nn @ CHR ''/'' # mask_String m
           | Some l \<Rightarrow> ip_String nn @ CHR ''/'' # digits 10 l))"

section \<open>Parsing\<close>

definition big :: nat where
  "big = 0xFFFFFF"

definition dec_val :: "char \<Rightarrow> nat option" where
  "dec_val c = (let v = of_char c :: nat in if 48 \<le> v \<and> v \<le> 57 then Some (v - 48) else None)"

definition hex_val :: "char \<Rightarrow> nat option" where
  "hex_val c =
     (let v = of_char c :: nat
      in if 48 \<le> v \<and> v \<le> 57 then Some (v - 48)
         else if 97 \<le> v \<and> v \<le> 102 then Some (v - 97 + 10)
         else if 65 \<le> v \<and> v \<le> 70 then Some (v - 65 + 10)
         else None)"

text \<open>The loop of \<open>dtoi\<close> and \<open>xtoi\<close>: the value and the rest of the string, \<open>None\<close> when not ok
  (no digit at all, or a value that reaches \<open>big\<close>).\<close>

fun num_loop :: "nat \<Rightarrow> (char \<Rightarrow> nat option) \<Rightarrow> nat \<Rightarrow> bool \<Rightarrow> string \<Rightarrow> (nat \<times> string) option" where
  "num_loop b dv n seen [] = (if seen then Some (n, []) else None)"
| "num_loop b dv n seen (c # cs) =
     (case dv c of
        None \<Rightarrow> if seen then Some (n, c # cs) else None
      | Some d \<Rightarrow> if big \<le> n * b + d then None else num_loop b dv (n * b + d) True cs)"

definition dtoi :: "string \<Rightarrow> (nat \<times> string) option" where
  "dtoi s = num_loop 10 dec_val 0 False s"

definition xtoi :: "string \<Rightarrow> (nat \<times> string) option" where
  "xtoi s = num_loop 16 hex_val 0 False s"

fun v4_loop :: "nat \<Rightarrow> bool \<Rightarrow> byte list \<Rightarrow> string \<Rightarrow> byte list option" where
  "v4_loop 0 first acc s = (if s = [] then Some acc else None)"
| "v4_loop (Suc k) first acc [] = None"
| "v4_loop (Suc k) first acc (c # cs) =
     (if \<not> first \<and> c \<noteq> CHR ''.'' then None
      else case dtoi (if first then c # cs else cs) of
             None \<Rightarrow> None
           | Some (n, rest) \<Rightarrow>
               if 0xFF < n then None else v4_loop k False (acc @ [word_of_nat n]) rest)"

lemma v4_loop_code [code]:
  "v4_loop k first acc s =
     (if k = 0 then (if s = [] then Some acc else None)
      else case s of
             [] \<Rightarrow> None
           | c # cs \<Rightarrow>
               if \<not> first \<and> c \<noteq> CHR ''.'' then None
               else case dtoi (if first then c # cs else cs) of
                      None \<Rightarrow> None
                    | Some (n, rest) \<Rightarrow>
                        if 0xFF < n then None else v4_loop (k - 1) False (acc @ [word_of_nat n]) rest)"
  by (cases k; cases s) (auto split: option.splits)

definition parseIPv4 :: "string \<Rightarrow> ip option" where
  "parseIPv4 s = map_option (\<lambda>p. v4InV6Prefix @ p) (v4_loop 4 True [] s)"

text \<open>The loop of \<open>parseIPv6\<close> with \<open>k\<close> groups left: the bytes so far, the place of the ellipsis, and
  the unread text.\<close>

fun v6_loop :: "nat \<Rightarrow> byte list \<Rightarrow> nat option \<Rightarrow> string \<Rightarrow> (byte list \<times> nat option \<times> string) option" where
  "v6_loop 0 acc ell s = Some (acc, ell, s)"
| "v6_loop (Suc k) acc ell s =
     (case xtoi s of
        None \<Rightarrow> None
      | Some (n, r) \<Rightarrow>
          if 0xFFFF < n then None
          else if r \<noteq> [] \<and> hd r = CHR ''.'' then
            (if ell = None \<and> length acc \<noteq> 12 then None
             else if 16 < length acc + 4 then None
             else map_option (\<lambda>ip4. (acc @ drop 12 ip4, ell, [])) (parseIPv4 s))
          else let acc' = acc @ [word_of_nat (n div 256), word_of_nat n]
               in case r of
                    [] \<Rightarrow> Some (acc', ell, [])
                  | [c] \<Rightarrow> None
                  | c # d # r' \<Rightarrow>
                      if c \<noteq> CHR '':'' then None
                      else if d = CHR '':'' then
                        (if ell \<noteq> None then None
                         else if r' = [] then Some (acc', Some (length acc'), [])
                         else v6_loop k acc' (Some (length acc')) r')
                      else v6_loop k acc' ell (d # r'))"

definition v6_finish :: "byte list \<Rightarrow> nat option \<Rightarrow> string \<Rightarrow> ip option" where
  "v6_finish acc ell s =
     (if s \<noteq> [] then None
      else if length acc < 16 then
        map_option (\<lambda>e. take e acc @ replicate (16 - length acc) 0 @ drop e acc) ell
      else if ell \<noteq> None then None
      else Some acc)"

definition parseIPv6 :: "string \<Rightarrow> ip option" where
  "parseIPv6 s =
     (if 2 \<le> length s \<and> take 2 s = [CHR '':'', CHR '':''] then
        (if drop 2 s = [] then Some (replicate 16 0)
         else case v6_loop 8 [] (Some 0) (drop 2 s) of
                None \<Rightarrow> None | Some (acc, ell, r) \<Rightarrow> v6_finish acc ell r)
      else case v6_loop 8 [] None s of
             None \<Rightarrow> None | Some (acc, ell, r) \<Rightarrow> v6_finish acc ell r)"

fun ParseIP_scan :: "string \<Rightarrow> string \<Rightarrow> ip option" where
  "ParseIP_scan s [] = None"
| "ParseIP_scan s (c # cs) =
     (if c = CHR ''.'' then parseIPv4 s
      else if c = CHR '':'' then parseIPv6 s
      else ParseIP_scan s cs)"

definition ParseIP :: "string \<Rightarrow> ip option" where
  "ParseIP s = ParseIP_scan s s"

definition ParseCIDR :: "string \<Rightarrow> goerr + (ip \<times> ipnet)" where
  "ParseCIDR s =
     (if CHR ''/'' \<notin> set s then Inl (ParseError s)
      else let addr = takeWhile (\<lambda>c. c \<noteq> CHR ''/'') s;
               msk = tl (dropWhile (\<lambda>c. c \<noteq> CHR ''/'') s);
               (iplen, ipo) = (case parseIPv4 addr of
                                 Some ip \<Rightarrow> (4, Some ip)
                               | None \<Rightarrow> (16, parseIPv6 addr))
           in case (ipo, dtoi msk) of
                (Some ip, Some (n, r)) \<Rightarrow>
                  if r \<noteq> [] \<or> 8 * iplen < n then Inl (ParseError s)
                  else let m = CIDRMask n (8 * iplen)
                       in Inr (ip, \<lparr>IP = ip_mask ip m, Mask = m\<rparr>)
              | _ \<Rightarrow> Inl (ParseError s))"

section \<open>The parsers read back what the printers write\<close>

subsection \<open>Digits\<close>

lemma of_char_digit_char:
  "d < 16 \<Longrightarrow> (of_char (digit_char d) :: nat) = (if d < 10 then 48 + d else 87 + d)"
  by (simp add: digit_char_def)

lemma hex_val_digit [simp]: "d < 16 \<Longrightarrow> hex_val (digit_char d) = Some d"
  by (simp add: hex_val_def of_char_digit_char Let_def)

lemma dec_val_digit [simp]: "d < 10 \<Longrightarrow> dec_val (digit_char d) = Some d"
  by (simp add: dec_val_def of_char_digit_char Let_def)

lemma val_separators [simp]:
  "dec_val CHR ''.'' = None" "dec_val CHR ''/'' = None" "dec_val CHR '':'' = None"
  "hex_val CHR ''.'' = None" "hex_val CHR ''/'' = None" "hex_val CHR '':'' = None"
  by (simp_all add: dec_val_def hex_val_def Let_def)

lemma digits_not_Nil [simp]: "digits b n \<noteq> []"
  by (subst digits.simps) simp

lemma num_loop_digits:
  assumes "\<And>d. d < b \<Longrightarrow> dv (digit_char d) = Some d" "2 \<le> b" "m < big"
  shows "num_loop b dv 0 seen (digits b m @ rest) = num_loop b dv m True rest"
  using assms(3)
proof (induction m arbitrary: rest rule: less_induct)
  case (less m)
  show ?case
  proof (cases "m < b")
    case True
    with less.prems assms show ?thesis by (subst digits.simps) simp
  next
    case False
    have "m div b < m" using assms(2) False by simp
    moreover have "m mod b < b" using assms(2) by simp
    moreover have "m div b < big" using less.prems by (meson div_le_dividend le_less_trans)
    moreover have "m div b * b + m mod b = m" by simp
    ultimately show ?thesis
      using False less.prems assms(2) less.IH [of "m div b" "digit_char (m mod b) # rest"] assms(1) [of "m mod b"]
      by (subst digits.simps) simp
  qed
qed

definition stops :: "(char \<Rightarrow> nat option) \<Rightarrow> string \<Rightarrow> bool" where
  "stops dv rest \<longleftrightarrow> (case rest of [] \<Rightarrow> True | c # _ \<Rightarrow> dv c = None)"

lemma stops_simps [simp]: "stops dv []" "stops dv (c # cs) \<longleftrightarrow> dv c = None"
  by (simp_all add: stops_def)

lemma num_loop_stops: "stops dv rest \<Longrightarrow> num_loop b dv n True rest = Some (n, rest)"
  by (cases rest) simp_all

lemma dtoi_digits: "m < big \<Longrightarrow> stops dec_val rest \<Longrightarrow> dtoi (digits 10 m @ rest) = Some (m, rest)"
  unfolding dtoi_def by (subst num_loop_digits) (simp_all add: num_loop_stops)

lemma xtoi_digits: "m < big \<Longrightarrow> stops hex_val rest \<Longrightarrow> xtoi (digits 16 m @ rest) = Some (m, rest)"
  unfolding xtoi_def by (subst num_loop_digits) (simp_all add: num_loop_stops)

lemmas dtoi_digits_end = dtoi_digits [where rest = "[]", simplified]
lemmas xtoi_digits_end = xtoi_digits [where rest = "[]", simplified]

lemma set_digits:
  assumes "2 \<le> b" "b \<le> 16"
  shows "set (digits b n) \<subseteq> digit_char ` {..<16}"
proof (induction n rule: less_induct)
  case (less n)
  show ?case
  proof (cases "n < b")
    case True
    with assms show ?thesis by (subst digits.simps) auto
  next
    case False
    then have "n div b < n" "n mod b < b" using assms by simp_all
    then have "n mod b < 16" using assms by linarith
    with less.IH [OF \<open>n div b < n\<close>] False assms show ?thesis by (subst digits.simps) auto
  qed
qed

lemma separator_not_digit: "hex_val c = None \<Longrightarrow> c \<notin> digit_char ` {..<16}"
  by (auto simp: hex_val_digit)

lemma digits_no_separator:
  assumes "2 \<le> b" "b \<le> 16"
  shows "CHR ''.'' \<notin> set (digits b n)" "CHR ''/'' \<notin> set (digits b n)" "CHR '':'' \<notin> set (digits b n)"
  using set_digits [OF assms, of n] separator_not_digit val_separators by (meson subsetD)+

lemma hd_digits_not_colon: "2 \<le> b \<Longrightarrow> b \<le> 16 \<Longrightarrow> hd (digits b n) \<noteq> CHR '':''"
  using digits_no_separator(3) [of b n] by (metis digits_not_Nil hd_in_set)

subsection \<open>IPv4\<close>

lemma v4_loop_first:
  assumes "b < 256" "stops dec_val rest"
  shows "v4_loop (Suc k) True acc (digits 10 b @ rest) = v4_loop k False (acc @ [word_of_nat b]) rest"
proof -
  have d: "dtoi (digits 10 b @ rest) = Some (b, rest)"
    using assms by (intro dtoi_digits) (simp_all add: big_def)
  obtain c cs where "digits 10 b @ rest = c # cs"
    by (cases "digits 10 b @ rest") auto
  with d assms(1) show ?thesis by simp
qed

lemma v4_loop_next:
  assumes "b < 256" "stops dec_val rest"
  shows "v4_loop (Suc k) False acc (CHR ''.'' # digits 10 b @ rest) =
    v4_loop k False (acc @ [word_of_nat b]) rest"
proof -
  have d: "dtoi (digits 10 b @ rest) = Some (b, rest)"
    using assms by (intro dtoi_digits) (simp_all add: big_def)
  with assms(1) show ?thesis by simp
qed

lemma parseIPv4_v4_String:
  assumes "length p = 4"
  shows "parseIPv4 (v4_String p) = Some (v4InV6Prefix @ p)"
proof -
  obtain a b c d where p: "p = [a, b, c, d]"
    using assms by (auto simp: numeral_eq_Suc length_Suc_conv)
  have four: "(4 :: nat) = Suc (Suc (Suc (Suc 0)))" by simp
  have "v4_loop 4 True [] (v4_String p) = Some p"
    unfolding four p v4_String_def
    using v4_loop_next [where rest = "[]"]
    by (simp add: v4_loop_first v4_loop_next unat_byte_less del: v4_loop.simps(2,3))
  then show ?thesis by (simp add: parseIPv4_def)
qed

lemma num_loop_rest: "num_loop b dv n seen s = Some (m, r) \<Longrightarrow> set r \<subseteq> set s"
  by (induction b dv n seen s rule: num_loop.induct) (auto split: option.splits if_splits)

lemma v4_loop_needs_dot:
  "v4_loop k first acc s \<noteq> None \<Longrightarrow> (if first then 2 else 1) \<le> k \<Longrightarrow> CHR ''.'' \<in> set s"
proof (induction k first acc s rule: v4_loop.induct)
  case (3 k first acc c cs)
  show ?case
  proof (cases first)
    case True
    with 3 show ?thesis
      using num_loop_rest [of 10 dec_val 0 False "c # cs"]
      by (fastforce simp: dtoi_def split: option.splits if_splits)
  next
    case False
    with 3 show ?thesis by (auto split: if_splits)
  qed
qed (auto split: if_splits)

lemma parseIPv4_needs_dot: "CHR ''.'' \<notin> set s \<Longrightarrow> parseIPv4 s = None"
  using v4_loop_needs_dot [of 4 True "[]" s] by (cases "v4_loop 4 True [] s") (auto simp: parseIPv4_def)

subsection \<open>IPv6\<close>

definition group_bytes :: "nat list \<Rightarrow> byte list" where
  "group_bytes gs = concat (map (\<lambda>g. [word_of_nat (g div 256), word_of_nat g]) gs)"

lemma group_bytes_simps [simp]:
  "group_bytes [] = []"
  "group_bytes (g # gs) = word_of_nat (g div 256) # word_of_nat g # group_bytes gs"
  "group_bytes (gs @ hs) = group_bytes gs @ group_bytes hs"
  by (simp_all add: group_bytes_def)

lemma length_group_bytes [simp]: "length (group_bytes gs) = 2 * length gs"
  by (induction gs) auto

lemma group_bytes_zeros [simp]: "group_bytes (replicate n 0) = replicate (2 * n) 0"
  by (induction n) auto

lemma byte_256: "(256 :: byte) = 0"
  by code_simp

lemma group_bytes_group_list: "even (length bs) \<Longrightarrow> group_bytes (group_list bs) = bs"
  by (induction bs rule: group_list.induct) (auto simp: byte_256 unat_byte_less)

lemma group_list_props:
  "length (group_list bs) = length bs div 2" "g \<in> set (group_list bs) \<Longrightarrow> g < 65536"
proof (induction bs rule: group_list.induct)
  case (1 a b bs)
  case 2
  have "unat a * 256 + unat b < 65536"
    using unat_byte_less [of a] unat_byte_less [of b] by linarith
  with 1 2 show ?case by auto
qed auto

lemma join_groups_Cons2: "gs \<noteq> [] \<Longrightarrow> join_groups (g # gs) = digits 16 g @ CHR '':'' # join_groups gs"
  by (cases gs) auto

lemma join_groups_start:
  assumes "gs \<noteq> []"
  obtains c cs where "join_groups gs = c # cs" "c \<noteq> CHR '':''"
proof -
  obtain g hs where gs: "gs = g # hs" using assms by (cases gs) auto
  obtain c cs where d: "digits 16 g = c # cs" by (cases "digits 16 g") auto
  then have "c \<noteq> CHR '':''" using digits_no_separator(3) [of 16 g] by auto
  with d gs that show ?thesis by (cases hs) auto
qed

lemma join_groups_not_separator: "CHR ''.'' \<notin> set (join_groups gs)" "CHR ''/'' \<notin> set (join_groups gs)"
  by (induction gs rule: join_groups.induct) (auto simp: digits_no_separator)

text \<open>One group: the two bytes of its value, then what follows it.\<close>

lemma v6_loop_join:
  assumes "gs \<noteq> []" "length gs \<le> k" "\<forall>g\<in>set gs. g < 65536"
  shows "v6_loop k acc ell (join_groups gs) = Some (acc @ group_bytes gs, ell, [])"
  using assms
proof (induction gs arbitrary: k acc)
  case (Cons g gs)
  then obtain k' where k: "k = Suc k'" by (cases k) auto
  have g: "g < big" "\<not> 0xFFFF < g" using Cons.prems by (auto simp: big_def)
  show ?case
  proof (cases "gs = []")
    case True
    with g xtoi_digits_end [of g] show ?thesis by (simp add: k)
  next
    case False
    obtain c cs where c: "join_groups gs = c # cs" "c \<noteq> CHR '':''"
      using join_groups_start [OF False] .
    have "xtoi (join_groups (g # gs)) = Some (g, CHR '':'' # c # cs)"
      using g False c by (simp add: join_groups_Cons2 xtoi_digits)
    moreover have "v6_loop k' (acc @ [word_of_nat (g div 256), word_of_nat g]) ell (c # cs) =
        Some ((acc @ [word_of_nat (g div 256), word_of_nat g]) @ group_bytes gs, ell, [])"
      using Cons.IH [OF False] Cons.prems by (simp add: k c(1) [symmetric])
    ultimately show ?thesis using g c(2) by (simp add: k)
  qed
qed simp

lemma v6_loop_ellipsis:
  assumes "gs \<noteq> []" "length gs \<le> k" "\<forall>g\<in>set gs. g < 65536"
  shows "v6_loop k acc None (join_groups gs @ CHR '':'' # CHR '':'' # t) =
    (let acc' = acc @ group_bytes gs
     in if t = [] then Some (acc', Some (length acc'), [])
        else v6_loop (k - length gs) acc' (Some (length acc')) t)"
  using assms
proof (induction gs arbitrary: k acc)
  case (Cons g gs)
  then obtain k' where k: "k = Suc k'" by (cases k) auto
  have g: "g < big" "\<not> 0xFFFF < g" using Cons.prems by (auto simp: big_def)
  show ?case
  proof (cases "gs = []")
    case True
    with g xtoi_digits [of g "CHR '':'' # CHR '':'' # t"] show ?thesis by (simp add: k Let_def)
  next
    case False
    obtain c cs where c: "join_groups gs = c # cs" "c \<noteq> CHR '':''"
      using join_groups_start [OF False] .
    have "xtoi (join_groups (g # gs) @ CHR '':'' # CHR '':'' # t) =
        Some (g, CHR '':'' # c # (cs @ CHR '':'' # CHR '':'' # t))"
      using g False c xtoi_digits [of g "CHR '':'' # c # (cs @ CHR '':'' # CHR '':'' # t)"]
      by (simp add: join_groups_Cons2)
    moreover have "v6_loop k' (acc @ [word_of_nat (g div 256), word_of_nat g]) None
        (c # (cs @ CHR '':'' # CHR '':'' # t)) =
      (let acc' = (acc @ [word_of_nat (g div 256), word_of_nat g]) @ group_bytes gs
       in if t = [] then Some (acc', Some (length acc'), [])
          else v6_loop (k' - length gs) acc' (Some (length acc')) t)"
      using Cons.IH [OF False] Cons.prems
      by (simp only: k c(1) append_Cons [symmetric]) (simp add: c(1))
    ultimately show ?thesis using g c(2) by (simp add: k Let_def)
  qed
qed simp

subsection \<open>The run of zeros\<close>

definition run_ok :: "nat list \<Rightarrow> (nat \<times> nat) option \<Rightarrow> bool" where
  "run_ok gs best \<longleftrightarrow>
     (case best of None \<Rightarrow> True
      | Some (e0, e1) \<Rightarrow> e0 \<le> e1 \<and> e1 \<le> length gs \<and> (\<forall>k. e0 \<le> k \<and> k < e1 \<longrightarrow> gs ! k = 0))"

lemma zero_run_nth: "k < zero_run gs \<Longrightarrow> gs ! k = 0"
  unfolding zero_run_def by (metis (mono_tags, lifting) nth_mem set_takeWhileD takeWhile_nth)

lemma zero_run_le: "zero_run gs \<le> length gs"
  by (simp add: zero_run_def length_takeWhile_le)

lemma best_run_ok:
  "run_ok gs best \<Longrightarrow> rest = drop i gs \<Longrightarrow> i \<le> length gs \<Longrightarrow> run_ok gs (best_run rest i best)"
proof (induction rest i best rule: best_run.induct)
  case (2 g rest i best)
  let ?z = "zero_run (g # rest)"
  have len: "length gs = i + length (g # rest)"
    using "2.prems"(2,3) by (metis length_drop le_add_diff_inverse)
  have next_i: "rest = drop (i + 1) gs"
    using "2.prems"(2) by (metis Suc_eq_plus1 drop_Suc drop_tl list.sel(3))
  have le_i: "i + 1 \<le> length gs" using len by simp
  show ?case
  proof (cases "0 < ?z \<and> run_length best < ?z")
    case True
    have "gs ! k = 0" if "i \<le> k" "k < i + ?z" for k
    proof -
      have "gs ! k = (g # rest) ! (k - i)" using "2.prems"(2,3) that by (metis le_add_diff_inverse nth_drop)
      then show ?thesis using that zero_run_nth [of "k - i" "g # rest"] by simp
    qed
    then have new: "run_ok gs (Some (i, i + ?z))"
      using zero_run_le [of "g # rest"] len by (simp add: run_ok_def)
    show ?thesis
    proof (cases "i + ?z + 1 \<le> length gs")
      case le: True
      have "drop ?z rest = drop (i + ?z + 1) gs" using next_i by (simp add: add.commute add.left_commute)
      then show ?thesis using True "2.IH"(1) [OF refl True new _ le] by (simp add: Let_def)
    next
      case False
      then have "drop ?z rest = []" using len by simp
      then show ?thesis using True new by simp
    qed
  next
    case False
    then show ?thesis using "2.IH"(2) [OF refl False "2.prems"(1) next_i le_i] by (auto simp: Let_def)
  qed
qed simp

lemma run_ok_split:
  assumes "run_ok gs (Some (e0, e1))"
  shows "gs = take e0 gs @ replicate (e1 - e0) 0 @ drop e1 gs" "e0 \<le> e1" "e1 \<le> length gs"
proof -
  show le: "e0 \<le> e1" "e1 \<le> length gs" using assms by (auto simp: run_ok_def)
  have "take (e1 - e0) (drop e0 gs) = replicate (e1 - e0) 0"
    using assms le by (intro nth_equalityI) (auto simp: run_ok_def)
  moreover have "gs = take e0 gs @ take (e1 - e0) (drop e0 gs) @ drop e1 gs"
    using le by (metis append.assoc append_take_drop_id le_add_diff_inverse take_add)
  ultimately show "gs = take e0 gs @ replicate (e1 - e0) 0 @ drop e1 gs" by simp
qed

subsection \<open>The round trips\<close>

lemma group_bytes_take_drop:
  "even (length bs) \<Longrightarrow> run_ok (group_list bs) (Some (e0, e1)) \<Longrightarrow>
   bs = group_bytes (take e0 (group_list bs)) @ replicate (2 * (e1 - e0)) 0 @
     group_bytes (drop e1 (group_list bs))"
  using run_ok_split(1) group_bytes_group_list
  by (metis group_bytes_simps(3) group_bytes_zeros)

lemma parseIPv6_starts_colons:
  "gs \<noteq> [] \<Longrightarrow> parseIPv6 (join_groups gs @ t) =
     (case v6_loop 8 [] None (join_groups gs @ t) of
        None \<Rightarrow> None | Some (acc, ell, r) \<Rightarrow> v6_finish acc ell r)"
  by (rule join_groups_start [of gs]) (auto simp: parseIPv6_def)

lemma parseIPv6_with_run:
  assumes len: "length ip = 16" and gs: "gs = group_list ip"
    and run: "run_ok gs (Some (e0, e1))" and two: "1 < e1 - e0"
  shows "parseIPv6 (join_groups (take e0 gs) @ CHR '':'' # CHR '':'' # join_groups (drop e1 gs)) = Some ip"
proof -
  let ?a = "take e0 gs" and ?b = "drop e1 gs"
  have ip: "ip = group_bytes ?a @ replicate (2 * (e1 - e0)) 0 @ group_bytes ?b"
    using group_bytes_take_drop [of ip e0 e1] run len gs by simp
  have le: "e0 \<le> e1" "e1 \<le> 8" and l8: "length gs = 8"
    using run_ok_split(2,3) [OF run] group_list_props(1) [of ip] len gs by auto
  have small: "\<forall>g\<in>set ?a. g < 65536" "\<forall>g\<in>set ?b. g < 65536"
    using group_list_props(2) [of _ ip] gs by (auto dest: in_set_takeD in_set_dropD)
  have zeros: "16 - length (group_bytes ?a @ group_bytes ?b) = 2 * (e1 - e0)"
    "length (group_bytes ?a @ group_bytes ?b) < 16"
    using le two l8 by auto
  have b_empty: "?b = [] \<longleftrightarrow> join_groups ?b = []"
    using join_groups_start [of ?b] by fastforce
  show ?thesis
  proof (cases "?a = []")
    case a: True
    show ?thesis
    proof (cases "?b = []")
      case True
      have "ip = replicate (2 * (e1 - e0)) 0"
        by (rule ip [unfolded a True group_bytes_simps append_Nil append_Nil2])
      moreover have "2 * (e1 - e0) = 16" using len calculation by (metis length_replicate)
      ultimately have "ip = replicate 16 0" by (simp only:)
      then show ?thesis unfolding a True by (simp add: parseIPv6_def)
    next
      case False
      have "v6_loop 8 [] (Some 0) (join_groups ?b) = Some (group_bytes ?b, Some 0, [])"
        using v6_loop_join [OF False _ small(2), of 8 "[]"] l8 by simp
      moreover have "v6_finish (group_bytes ?b) (Some 0) [] = Some ip"
        using ip zeros by (simp add: v6_finish_def a)
      ultimately show ?thesis using False b_empty unfolding a by (simp add: parseIPv6_def)
    qed
  next
    case a: False
    have len_a: "length (group_bytes ?a) = 2 * e0" using le l8 by simp
    have "v6_loop 8 [] None (join_groups ?a @ CHR '':'' # CHR '':'' # join_groups ?b) =
      Some (group_bytes ?a @ group_bytes ?b, Some (2 * e0), [])"
    proof (cases "?b = []")
      case True
      then show ?thesis using v6_loop_ellipsis [OF a _ small(1), of 8 "[]" "[]"] l8 len_a
        by (simp add: Let_def)
    next
      case False
      have "v6_loop (8 - e0) (group_bytes ?a) (Some (2 * e0)) (join_groups ?b) =
          Some (group_bytes ?a @ group_bytes ?b, Some (2 * e0), [])"
        using v6_loop_join [OF False _ small(2), of "8 - e0" "group_bytes ?a"] l8 le by simp
      then show ?thesis using v6_loop_ellipsis [OF a _ small(1), of 8 "[]" "join_groups ?b"] l8 len_a False b_empty le
        by (simp add: Let_def)
    qed
    moreover have "v6_finish (group_bytes ?a @ group_bytes ?b) (Some (2 * e0)) [] = Some ip"
      using zeros len_a by (simp add: v6_finish_def ip [symmetric])
    ultimately show ?thesis
      using a by (simp add: parseIPv6_starts_colons)
  qed
qed

lemma parseIPv6_v6_String:
  assumes "length ip = 16"
  shows "parseIPv6 (v6_String ip) = Some ip"
proof -
  let ?gs = "group_list ip"
  have ok: "run_ok ?gs (best_run ?gs 0 None)"
    by (rule best_run_ok) (auto simp: run_ok_def)
  have l8: "length ?gs = 8" using group_list_props(1) [of ip] assms by simp
  then have ne: "?gs \<noteq> []" by auto
  have "v6_loop 8 [] None (join_groups ?gs) = Some (ip, None, [])"
    using v6_loop_join [OF ne, of 8 "[]" None] l8 group_list_props(2) [of _ ip]
      group_bytes_group_list [of ip] assms by simp
  then have plain: "parseIPv6 (join_groups ?gs) = Some ip"
    using parseIPv6_starts_colons [OF ne, of "[]"] assms by (simp add: v6_finish_def)
  show ?thesis
  proof (cases "best_run ?gs 0 None")
    case None
    with plain show ?thesis by (simp add: v6_String_def)
  next
    case (Some r)
    obtain e0 e1 where r: "r = (e0, e1)" by (cases r)
    show ?thesis
      using plain parseIPv6_with_run [OF assms refl, of e0 e1] ok Some r
      by (simp add: v6_String_def Let_def)
  qed
qed

lemma v6_String_chars: "CHR ''.'' \<notin> set (v6_String ip)" "CHR ''/'' \<notin> set (v6_String ip)"
  by (auto simp: v6_String_def Let_def join_groups_not_separator split: option.splits)

lemma v4_String_chars: "CHR ''/'' \<notin> set (v4_String p)"
  by (simp add: v4_String_def digits_no_separator)

lemma ip_String_no_slash: "valid_ip ip \<Longrightarrow> CHR ''/'' \<notin> set (ip_String ip)"
  by (cases ip rule: to4_cases) (auto simp: ip_String_def v4_String_chars v6_String_chars)

text \<open>The address a text stands for: the 16-byte form.\<close>

lemma parse_ip_String:
  assumes "valid_ip ip" "to16 ip = Some x"
  shows "(case parseIPv4 (ip_String ip) of Some y \<Rightarrow> (4, Some y) | None \<Rightarrow> (16 :: nat, parseIPv6 (ip_String ip)))
    = (if is4 ip then (4, Some x) else (16, Some x))"
  using assms
proof (cases ip rule: to4_cases)
  case v4
  then have "ip \<noteq> []" by auto
  with v4 assms show ?thesis by (simp add: ip_String_def parseIPv4_v4_String is4_def)
next
  case (mapped y)
  then have "ip \<noteq> []" by (auto simp: v4InV6Prefix_def)
  with mapped assms show ?thesis by (simp add: ip_String_def parseIPv4_v4_String is4_def)
next
  case v6
  then have "ip \<noteq> []" by auto
  with v6 assms show ?thesis
    by (simp add: ip_String_def parseIPv4_needs_dot v6_String_chars parseIPv6_v6_String is4_def)
qed simp

definition net_len :: "ipnet \<Rightarrow> nat" where
  "net_len n = mask_ones (Mask n)"

lemma ipnet_String_ok:
  assumes "net_ok n"
  shows "ipnet_String n = ip_String (contains_form (IP n)) @ CHR ''/'' # digits 10 (net_len n)"
proof -
  have v: "valid_ip (IP n)" and le: "net_len n \<le> addr_bits (IP n)"
    and m: "Mask n = CIDRMask (net_len n) (addr_bits (IP n))"
    using assms by (auto simp: net_ok_def net_len_def)
  show ?thesis
  proof (cases "is4 (IP n)")
    case True
    then obtain x where x: "to4 (IP n) = Some x" by (auto simp: is4_def)
    then have "length x = 4" using to4_Some_ipval by blast
    moreover have m4: "Mask n = cidr_bytes 4 (net_len n)" "net_len n \<le> 32"
      using m le True CIDRMask_32 [of "net_len n"] by (simp_all add: addr_bits_def)
    moreover have "length (Mask n) = 4" using m4(1) by (metis length_cidr_bytes)
    moreover have "simpleMaskLength (Mask n) = Some (net_len n)"
      using m4 simpleMaskLength_cidr [of "net_len n" 4] by simp
    ultimately show ?thesis
      using x by (simp add: ipnet_String_def networkNumberAndMask_def contains_form_def)
  next
    case False
    then have x: "to4 (IP n) = None" "length (IP n) = 16"
      using v by (cases "IP n" rule: to4_cases; simp add: is4_def valid_ip_def)+
    moreover have m6: "Mask n = cidr_bytes 16 (net_len n)" "net_len n \<le> 128"
      using m le False CIDRMask_128 [of "net_len n"] by (simp_all add: addr_bits_def)
    moreover have "length (Mask n) = 16" using m6(1) by (metis length_cidr_bytes)
    moreover have "simpleMaskLength (Mask n) = Some (net_len n)"
      using m6 simpleMaskLength_cidr [of "net_len n" 16] by simp
    ultimately show ?thesis
      by (simp add: ipnet_String_def networkNumberAndMask_def contains_form_def)
  qed
qed

lemma is4_contains_form: "is4 (contains_form ip) = is4 ip"
  by (cases ip rule: to4_cases) (auto simp: contains_form_def is4_def to4_def)

lemma to16_contains_form: "valid_ip ip \<Longrightarrow> to16 (contains_form ip) = to16 ip"
  by (cases ip rule: to4_cases) (auto simp: contains_form_def to16_def)

text \<open>\<open>net.ParseCIDR\<close> of a printed network returns the address in 16-byte form and the network it
  lies in.\<close>

lemma ParseCIDR_ipnet_String:
  assumes "net_ok n" "to16 (IP n) = Some x"
  shows "ParseCIDR (ipnet_String n) = Inr (x, \<lparr>IP = ip_mask x (Mask n), Mask = Mask n\<rparr>)"
proof -
  let ?y = "contains_form (IP n)" and ?l = "net_len n"
  have v: "valid_ip (IP n)" and le: "?l \<le> addr_bits (IP n)"
    and m: "Mask n = CIDRMask ?l (addr_bits (IP n))"
    using assms(1) by (auto simp: net_ok_def net_len_def)
  have vy: "valid_ip ?y" using contains_form(1) [OF v] by (auto simp: valid_ip_def)
  have s: "ipnet_String n = ip_String ?y @ CHR ''/'' # digits 10 ?l"
    by (rule ipnet_String_ok [OF assms(1)])
  have addr: "takeWhile (\<lambda>c. c \<noteq> CHR ''/'') (ipnet_String n) = ip_String ?y"
    and msk: "tl (dropWhile (\<lambda>c. c \<noteq> CHR ''/'') (ipnet_String n)) = digits 10 ?l"
    using ip_String_no_slash [OF vy] unfolding s
    by (auto simp: takeWhile_append dropWhile_append)
  have "?l < big" using le by (auto simp: big_def addr_bits_def split: if_splits)
  then have num: "dtoi (digits 10 ?l) = Some (?l, [])" by (rule dtoi_digits_end) 
  have "to16 ?y = Some x" using to16_contains_form [OF v] assms(2) by simp
  note parse = parse_ip_String [OF vy this, unfolded is4_contains_form]
  have "CHR ''/'' \<in> set (ipnet_String n)" by (simp add: s)
  then show ?thesis
    using le m by (cases "is4 (IP n)") (simp_all add: ParseCIDR_def addr msk parse num Let_def addr_bits_def)
qed

text \<open>So two networks with the same text have the same address value, family and mask.\<close>

lemma ipnet_String_inj:
  assumes "net_ok m" "net_ok n" "ipnet_String m = ipnet_String n"
  shows "ipval (IP m) = ipval (IP n)" "is4 (IP m) = is4 (IP n)" "Mask m = Mask n"
proof -
  obtain x where x: "to16 (IP m) = Some x"
    using assms(1) by (cases "IP m" rule: to4_cases) (auto simp: net_ok_def)
  obtain y where y: "to16 (IP n) = Some y"
    using assms(2) by (cases "IP n" rule: to4_cases) (auto simp: net_ok_def)
  have "(x, \<lparr>IP = ip_mask x (Mask m), Mask = Mask m\<rparr>) = (y, \<lparr>IP = ip_mask y (Mask n), Mask = Mask n\<rparr>)"
    using ParseCIDR_ipnet_String [OF assms(1) x] ParseCIDR_ipnet_String [OF assms(2) y] assms(3) by simp
  then have xy: "x = y" and "Mask m = Mask n" by auto
  then show "ipval (IP m) = ipval (IP n)" "Mask m = Mask n" using x y by (simp_all add: ipval_def)
  have is4_16: "is4 ip \<longleftrightarrow> take 12 z = v4InV6Prefix" if "to16 ip = Some z" for ip z
    using that by (cases ip rule: to4_cases) (auto simp: is4_def)
  show "is4 (IP m) = is4 (IP n)" using is4_16 [OF x] is4_16 [OF y] xy by simp
qed

lemma net_ok_to16: "net_ok n \<Longrightarrow> \<exists>x. to16 (IP n) = Some x \<and> length x = 16"
  by (cases "IP n" rule: to4_cases) (auto simp: net_ok_def valid_ip_def)

text \<open>Two well-formed networks with the same text contain the same addresses, and are contained
  together.\<close>

lemma same_text_contains:
  assumes "net_ok m" "net_ok n" "ipnet_String m = ipnet_String n"
  shows "contains m = contains n" "net_ok k \<Longrightarrow> contains k (IP m) = contains k (IP n)"
proof -
  note eq = ipnet_String_inj [OF assms]
  have v: "valid_ip (IP m)" "valid_ip (IP n)" using assms by (auto simp: net_ok_def)
  have h: "host_bits m = host_bits n" using eq by (simp add: host_bits_def addr_bits_def)
  have "contains m ip \<longleftrightarrow> contains n ip" for ip
  proof (cases "valid_ip ip")
    case True
    then show ?thesis using contains_div [OF assms(1) True] contains_div [OF assms(2) True] eq h by simp
  next
    case False
    then show ?thesis using contains_not_valid assms by blast
  qed
  then show "contains m = contains n" by blast
  show "net_ok k \<Longrightarrow> contains k (IP m) = contains k (IP n)"
    using contains_div [of k] v eq by simp
qed

end
