(* ===== verification/Lease.thy ===== *)
theory Lease
  imports Net_IP
begin

text \<open>
  Leases and time (lease.go, \<open>timeNow\<close> of store.go).  A \<open>time.Time\<close> is its nanoseconds since the
  Unix epoch and a \<open>time.Duration\<close> its nanoseconds; \<open>time.Time\<close> counts seconds in 64 bits beside the
  nanoseconds, so adding a duration to a time does not wrap and both are \<open>int\<close> here.
\<close>

type_synonym time = int
type_synonym duration = int

record lease =
  Lease_IPs :: "ipnet list"
  Lease_Start :: time
  Lease_Length :: duration

definition Second :: duration where
  "Second = 1000000000"

definition Lease_Expired :: "lease \<Rightarrow> time \<Rightarrow> bool" where
  "Lease_Expired l t =
     (let exp = Lease_Start l + Lease_Length l in exp < t \<or> exp = t)"

text \<open>\<open>time.Unix(time.Now().Unix(), 0)\<close>, for the clock reading \<open>now\<close>.\<close>

definition timeNow :: "time \<Rightarrow> time" where
  "timeNow now = now div Second * Second"

lemma Expired_iff: "Lease_Expired l t \<longleftrightarrow> Lease_Start l + Lease_Length l \<le> t"
  by (auto simp: Lease_Expired_def Let_def)

lemma Expired_mono: "Lease_Expired l t \<Longrightarrow> t \<le> t' \<Longrightarrow> Lease_Expired l t'"
  by (simp add: Expired_iff)

lemma lease_restart:
  "l\<lparr>Lease_Start := t, Lease_Length := d\<rparr> = \<lparr>Lease_IPs = Lease_IPs l, Lease_Start = t, Lease_Length = d\<rparr>"
  by simp

lemma timeNow_bounds: "timeNow now \<le> now" "now < timeNow now + Second"
proof -
  have "now = now div Second * Second + now mod Second" by simp
  moreover have "0 \<le> now mod Second" "now mod Second < Second"
    by (simp_all add: Second_def)
  ultimately show "timeNow now \<le> now" "now < timeNow now + Second"
    unfolding timeNow_def by linarith+
qed

end
