(* ===== verification/Store_Interface.thy ===== *)
theory Store_Interface
  imports Net_Text Lease
begin

text \<open>
  The interfaces of store.go: \<open>LeaseStore\<close> and \<open>IPStore\<close> as records of operations on a state, which
  is how the allocator and the handler are given a store, and the contracts their clients rely on
  as locales.  \<open>view\<close> is what a store promises about addresses: for each subnet it knows (by CIDR
  text), the set of allocated addresses (by CIDR text).
\<close>

type_synonym u64 = "64 word"

record 's LeaseStore =
  ls_Lease :: "u64 \<Rightarrow> 's \<Rightarrow> (goerr + lease option) \<times> 's"
  ls_SaveLease :: "u64 \<Rightarrow> lease \<Rightarrow> 's \<Rightarrow> (goerr + unit) \<times> 's"
  ls_DeleteLease :: "u64 \<Rightarrow> 's \<Rightarrow> (goerr + unit) \<times> 's"

record 's IPStore =
  ip_SaveSubnet :: "ipnet \<Rightarrow> 's \<Rightarrow> (goerr + unit) \<times> 's"
  ip_AllocateIP :: "ipnet \<Rightarrow> ipnet \<Rightarrow> 's \<Rightarrow> (goerr + bool) \<times> 's"
  ip_FreeIP :: "ipnet \<Rightarrow> ipnet \<Rightarrow> 's \<Rightarrow> (goerr + unit) \<times> 's"

type_synonym alloc_view = "string \<Rightarrow> string set option"

definition allocated :: "alloc_view \<Rightarrow> ipnet \<Rightarrow> ipnet \<Rightarrow> bool" where
  "allocated v sub ip = (case v (ipnet_String sub) of None \<Rightarrow> False | Some A \<Rightarrow> ipnet_String ip \<in> A)"

definition view_insert :: "ipnet \<Rightarrow> ipnet \<Rightarrow> alloc_view \<Rightarrow> alloc_view" where
  "view_insert sub ip v = v(ipnet_String sub := map_option (insert (ipnet_String ip)) (v (ipnet_String sub)))"

definition view_remove :: "ipnet \<Rightarrow> ipnet \<Rightarrow> alloc_view \<Rightarrow> alloc_view" where
  "view_remove sub ip v =
     v(ipnet_String sub := map_option (\<lambda>A. A - {ipnet_String ip}) (v (ipnet_String sub)))"

definition checkSubnetContains :: "ipnet \<Rightarrow> ipnet \<Rightarrow> goerr + unit" where
  "checkSubnetContains sub ip =
     (if \<not> contains sub (IP ip) then Inl (SubnetCannotContain (ipnet_String sub) (ipnet_String ip))
      else Inr ())"

text \<open>The contract of \<open>IPStore\<close>.  An operation may fail; then it has changed nothing.  A store also
  holds what the operations on addresses do not touch (\<open>other\<close>: the leases).\<close>

locale ip_store =
  fixes st :: "'s IPStore"
    and inv :: "'s \<Rightarrow> bool"
    and view :: "'s \<Rightarrow> alloc_view"
    and other :: "'s \<Rightarrow> 'r"
  assumes SaveSubnet_inv: "inv s \<Longrightarrow> net_ok sub \<Longrightarrow> inv (snd (ip_SaveSubnet st sub s))"
    and SaveSubnet_other: "other (snd (ip_SaveSubnet st sub s)) = other s"
    and SaveSubnet_error: "inv s \<Longrightarrow> ip_SaveSubnet st sub s = (Inl e, s') \<Longrightarrow> view s' = view s"
    and SaveSubnet_done: "inv s \<Longrightarrow> ip_SaveSubnet st sub s = (Inr u, s') \<Longrightarrow>
      view s' (ipnet_String sub) \<noteq> None \<and> (\<forall>t. t \<noteq> ipnet_String sub \<longrightarrow> view s' t = view s t)"
    and AllocateIP_inv: "inv s \<Longrightarrow> net_ok sub \<Longrightarrow> net_ok ip \<Longrightarrow> inv (snd (ip_AllocateIP st sub ip s))"
    and AllocateIP_other: "other (snd (ip_AllocateIP st sub ip s)) = other s"
    and AllocateIP_error: "inv s \<Longrightarrow> ip_AllocateIP st sub ip s = (Inl e, s') \<Longrightarrow> view s' = view s"
    and AllocateIP_taken: "inv s \<Longrightarrow> ip_AllocateIP st sub ip s = (Inr False, s') \<Longrightarrow>
      view s' = view s \<and> allocated (view s) sub ip"
    and AllocateIP_done: "inv s \<Longrightarrow> ip_AllocateIP st sub ip s = (Inr True, s') \<Longrightarrow>
      contains sub (IP ip) \<and> view s (ipnet_String sub) \<noteq> None \<and> \<not> allocated (view s) sub ip \<and>
      view s' = view_insert sub ip (view s)"
    and FreeIP_inv: "inv s \<Longrightarrow> net_ok sub \<Longrightarrow> net_ok ip \<Longrightarrow> inv (snd (ip_FreeIP st sub ip s))"
    and FreeIP_other: "other (snd (ip_FreeIP st sub ip s)) = other s"
    and FreeIP_error: "inv s \<Longrightarrow> ip_FreeIP st sub ip s = (Inl e, s') \<Longrightarrow> view s' = view s"
    and FreeIP_done: "inv s \<Longrightarrow> ip_FreeIP st sub ip s = (Inr u, s') \<Longrightarrow>
      view s' = view_remove sub ip (view s)"
begin

lemma AllocateIP_subnets:
  "inv s \<Longrightarrow> ip_AllocateIP st sub ip s = (r, s') \<Longrightarrow> dom (view s') = dom (view s)"
  using AllocateIP_error AllocateIP_taken AllocateIP_done
  by (cases r; cases "projr r") (fastforce simp: view_insert_def split: if_splits)+

end

text \<open>A store that does not fail on the subnets it knows.\<close>

locale reliable_ip_store = ip_store +
  assumes SaveSubnet_reliable: "inv s \<Longrightarrow> \<exists>s'. ip_SaveSubnet st sub s = (Inr (), s')"
    and AllocateIP_reliable: "inv s \<Longrightarrow> contains sub (IP ip) \<Longrightarrow> view s (ipnet_String sub) \<noteq> None \<Longrightarrow>
      \<exists>b s'. ip_AllocateIP st sub ip s = (Inr b, s')"
    and FreeIP_reliable: "inv s \<Longrightarrow> contains sub (IP ip) \<Longrightarrow> view s (ipnet_String sub) \<noteq> None \<Longrightarrow>
      \<exists>s'. ip_FreeIP st sub ip s = (Inr (), s')"
begin

lemma AllocateIP_eq:
  assumes "inv s" "contains sub (IP ip)" "view s (ipnet_String sub) \<noteq> None"
  shows "\<exists>s'. ip_AllocateIP st sub ip s = (Inr (\<not> allocated (view s) sub ip), s') \<and>
    view s' = (if allocated (view s) sub ip then view s else view_insert sub ip (view s))"
proof -
  obtain b s' where r: "ip_AllocateIP st sub ip s = (Inr b, s')"
    using AllocateIP_reliable [OF assms] by blast
  then show ?thesis
    using AllocateIP_taken [OF assms(1)] AllocateIP_done [OF assms(1)] by (cases b) auto
qed

end

text \<open>The contract of \<open>LeaseStore\<close>, for a store that does not fail on the leases it can hold
  (\<open>storable\<close>).\<close>

locale lease_store =
  fixes ls :: "'s LeaseStore"
    and storable :: "lease \<Rightarrow> bool"
    and linv :: "'s \<Rightarrow> bool"
    and leases_of :: "'s \<Rightarrow> u64 \<Rightarrow> lease option"
    and rest :: "'s \<Rightarrow> 'r"
  assumes Lease_eq: "linv s \<Longrightarrow> ls_Lease ls k s = (Inr (leases_of s k), s)"
    and SaveLease_eq: "linv s \<Longrightarrow> storable l \<Longrightarrow> \<exists>s'. ls_SaveLease ls k l s = (Inr (), s') \<and> linv s' \<and>
      leases_of s' = (leases_of s)(k := Some l) \<and> rest s' = rest s"
    and DeleteLease_eq: "linv s \<Longrightarrow> \<exists>s'. ls_DeleteLease ls k s = (Inr (), s') \<and> linv s' \<and>
      leases_of s' = (leases_of s)(k := None) \<and> rest s' = rest s"

end
