(* ===== verification/Memory_Store.thy ===== *)
theory Memory_Store
  imports Store_Interface
begin

text \<open>
  \<open>memoryStore\<close> of store.go.  A Go map is a partial function; where the code ranges over a map, the
  order Go picks is an argument of the definition (a list of the keys), and \<open>range_order\<close> says that
  it lists every key once.  Each method runs under the locks it takes, so it is one step here.
\<close>

section \<open>State and operations\<close>

record memoryStore =
  leases :: "u64 \<Rightarrow> lease option"
  subnets :: "string \<Rightarrow> string set option"

record PurgeStats =
  FreedIPs :: "string \<Rightarrow> nat option"

definition range_order :: "'k list \<Rightarrow> ('k \<Rightarrow> 'v option) \<Rightarrow> bool" where
  "range_order ks m \<longleftrightarrow> distinct ks \<and> set ks = dom m"

definition MemoryStore :: memoryStore where
  "MemoryStore = \<lparr>leases = Map.empty, subnets = Map.empty\<rparr>"

definition memoryStore_Leases :: "u64 list \<Rightarrow> memoryStore \<Rightarrow> (goerr + lease list) \<times> memoryStore" where
  "memoryStore_Leases ks s = (Inr (List.map_filter (leases s) ks), s)"

definition memoryStore_Lease :: "u64 \<Rightarrow> memoryStore \<Rightarrow> (goerr + lease option) \<times> memoryStore" where
  "memoryStore_Lease key s = (Inr (leases s key), s)"

definition memoryStore_SaveLease :: "u64 \<Rightarrow> lease \<Rightarrow> memoryStore \<Rightarrow> (goerr + unit) \<times> memoryStore" where
  "memoryStore_SaveLease key l s = (Inr (), s\<lparr>leases := (leases s)(key := Some l)\<rparr>)"

definition memoryStore_DeleteLease :: "u64 \<Rightarrow> memoryStore \<Rightarrow> (goerr + unit) \<times> memoryStore" where
  "memoryStore_DeleteLease key s = (Inr (), s\<lparr>leases := (leases s)(key := None)\<rparr>)"

text \<open>The first loop of \<open>Purge\<close>: drop the expired leases, collect their addresses.\<close>

fun purge_leases ::
  "time \<Rightarrow> u64 list \<Rightarrow> (u64 \<Rightarrow> lease option) \<Rightarrow> (u64 \<Rightarrow> lease option) \<times> ipnet list" where
  "purge_leases t [] m = (m, [])"
| "purge_leases t (k # ks) m =
     (case m k of
        None \<Rightarrow> purge_leases t ks m
      | Some v \<Rightarrow>
          if \<not> Lease_Expired v t then purge_leases t ks m
          else let (m', freed) = purge_leases t ks (m(k := None)) in (m', Lease_IPs v @ freed))"

text \<open>The inner loop of the sweep: one subnet, every freed address.\<close>

fun sweep_freed :: "ipnet \<Rightarrow> string \<Rightarrow> ipnet list \<Rightarrow> (string \<Rightarrow> nat option) \<Rightarrow> string set \<Rightarrow>
    (string \<Rightarrow> nat option) \<times> string set" where
  "sweep_freed cidr sub [] stats A = (stats, A)"
| "sweep_freed cidr sub (f # freed) stats A =
     (if contains cidr (IP f) then
        sweep_freed cidr sub freed
          (stats(sub := Some (Suc (case stats sub of None \<Rightarrow> 0 | Some n \<Rightarrow> n))))
          (A - {ipnet_String f})
      else sweep_freed cidr sub freed stats A)"

fun purge_sweep :: "string list \<Rightarrow> ipnet list \<Rightarrow> (string \<Rightarrow> nat option) \<Rightarrow>
    (string \<Rightarrow> string set option) \<Rightarrow> (goerr + (string \<Rightarrow> nat option)) \<times> (string \<Rightarrow> string set option)" where
  "purge_sweep [] freed stats subs = (Inr stats, subs)"
| "purge_sweep (sub # ss) freed stats subs =
     (case ParseCIDR sub of
        Inl e \<Rightarrow> (Inl e, subs)
      | Inr (ip, cidr) \<Rightarrow>
          (case subs sub of
             None \<Rightarrow> purge_sweep ss freed stats subs
           | Some A \<Rightarrow>
               let (stats', A') = sweep_freed (cidr\<lparr>IP := ip\<rparr>) sub freed stats A
               in purge_sweep ss freed stats' (subs(sub := Some A'))))"

definition memoryStore_Purge :: "u64 list \<Rightarrow> string list \<Rightarrow> time \<Rightarrow> memoryStore \<Rightarrow>
    (goerr + PurgeStats) \<times> memoryStore" where
  "memoryStore_Purge ks ss t s =
     (let (m, freed) = purge_leases t ks (leases s);
          (r, subs) = purge_sweep ss freed Map.empty (subnets s)
      in (case r of Inl e \<Rightarrow> Inl e | Inr stats \<Rightarrow> Inr \<lparr>FreedIPs = stats\<rparr>,
          s\<lparr>leases := m, subnets := subs\<rparr>))"

fun parse_all :: "('b \<Rightarrow> goerr + 'a) \<Rightarrow> 'b list \<Rightarrow> goerr + 'a list" where
  "parse_all f [] = Inr []"
| "parse_all f (k # ks) =
     (case f k of
        Inl e \<Rightarrow> Inl e
      | Inr x \<Rightarrow> (case parse_all f ks of Inl e \<Rightarrow> Inl e | Inr xs \<Rightarrow> Inr (x # xs)))"

definition parse_subnet_key :: "string \<Rightarrow> goerr + ipnet" where
  "parse_subnet_key sub = (case ParseCIDR sub of Inl e \<Rightarrow> Inl e | Inr (ip, cidr) \<Rightarrow> Inr cidr)"

definition parse_ip_key :: "string \<Rightarrow> goerr + ipnet" where
  "parse_ip_key k = (case ParseCIDR k of Inl e \<Rightarrow> Inl e | Inr (ip, cidr) \<Rightarrow> Inr (cidr\<lparr>IP := ip\<rparr>))"

definition memoryStore_Subnets :: "string list \<Rightarrow> memoryStore \<Rightarrow> (goerr + ipnet list) \<times> memoryStore" where
  "memoryStore_Subnets ss s = (parse_all parse_subnet_key ss, s)"

definition memoryStore_SaveSubnet :: "ipnet \<Rightarrow> memoryStore \<Rightarrow> (goerr + unit) \<times> memoryStore" where
  "memoryStore_SaveSubnet sub s = (Inr (), s\<lparr>subnets := (subnets s)(ipnet_String sub := Some {})\<rparr>)"

definition memoryStore_AllocatedIPs ::
  "string list \<Rightarrow> ipnet \<Rightarrow> memoryStore \<Rightarrow> (goerr + ipnet list) \<times> memoryStore" where
  "memoryStore_AllocatedIPs is sub s =
     (case subnets s (ipnet_String sub) of
        None \<Rightarrow> (Inl (NoSuchSubnet (ipnet_String sub)), s)
      | Some A \<Rightarrow> (parse_all parse_ip_key is, s))"

definition memoryStore_AllocateIP :: "ipnet \<Rightarrow> ipnet \<Rightarrow> memoryStore \<Rightarrow> (goerr + bool) \<times> memoryStore" where
  "memoryStore_AllocateIP sub ip s =
     (case checkSubnetContains sub ip of
        Inl e \<Rightarrow> (Inl e, s)
      | Inr _ \<Rightarrow>
          (let subS = ipnet_String sub; ipS = ipnet_String ip
           in case subnets s subS of
                None \<Rightarrow> (Inl (NoSuchSubnet subS), s)
              | Some A \<Rightarrow>
                  if ipS \<in> A then (Inr False, s)
                  else (Inr True, s\<lparr>subnets := (subnets s)(subS := Some (insert ipS A))\<rparr>)))"

definition memoryStore_FreeIP :: "ipnet \<Rightarrow> ipnet \<Rightarrow> memoryStore \<Rightarrow> (goerr + unit) \<times> memoryStore" where
  "memoryStore_FreeIP sub ip s =
     (case checkSubnetContains sub ip of
        Inl e \<Rightarrow> (Inl e, s)
      | Inr _ \<Rightarrow>
          (let subS = ipnet_String sub; ipS = ipnet_String ip
           in case subnets s subS of
                None \<Rightarrow> (Inl (NoSuchSubnet subS), s)
              | Some A \<Rightarrow> (Inr (), s\<lparr>subnets := (subnets s)(subS := Some (A - {ipS}))\<rparr>)))"

text \<open>The store as the interfaces its clients are given.\<close>

definition mem_ips :: "memoryStore IPStore" where
  "mem_ips = \<lparr>ip_SaveSubnet = memoryStore_SaveSubnet, ip_AllocateIP = memoryStore_AllocateIP,
     ip_FreeIP = memoryStore_FreeIP\<rparr>"

definition mem_leases :: "memoryStore LeaseStore" where
  "mem_leases = \<lparr>ls_Lease = memoryStore_Lease, ls_SaveLease = memoryStore_SaveLease,
     ls_DeleteLease = memoryStore_DeleteLease\<rparr>"

section \<open>Keys are texts of networks\<close>

text \<open>Every subnet key is the text of a well-formed network and every address key is the text of a
  well-formed network inside it; the stores keep this as long as they are given such networks.\<close>

definition mem_ok :: "memoryStore \<Rightarrow> bool" where
  "mem_ok s \<longleftrightarrow> (\<forall>sub A. subnets s sub = Some A \<longrightarrow>
     (\<exists>n. net_ok n \<and> sub = ipnet_String n \<and> finite A \<and>
        (\<forall>i\<in>A. \<exists>m. net_ok m \<and> i = ipnet_String m \<and> contains n (IP m))))"

lemma ParseCIDR_key:
  assumes "net_ok n"
  shows "\<exists>x cidr. ParseCIDR (ipnet_String n) = Inr (x, cidr) \<and> to16 (IP n) = Some x \<and>
    cidr = \<lparr>IP = ip_mask x (Mask n), Mask = Mask n\<rparr> \<and>
    net_ok (cidr\<lparr>IP := x\<rparr>) \<and> contains (cidr\<lparr>IP := x\<rparr>) = contains n \<and>
    ipnet_String (cidr\<lparr>IP := x\<rparr>) = ipnet_String n"
proof -
  obtain x where x: "to16 (IP n) = Some x" "length x = 16" using net_ok_to16 [OF assms] by blast
  let ?c = "\<lparr>IP = x, Mask = Mask n\<rparr>"
  have same: "ipval x = ipval (IP n)" "is4 x = is4 (IP n)"
    using x by (cases "IP n" rule: to4_cases; auto simp: ipval_def to16_def is4_def to4_def)+
  have ok: "net_ok ?c"
    using assms same x by (simp add: net_ok_def addr_bits_def valid_ip_def)
  have "to16 x = Some x" using x by (simp add: to16_def)
  have "contains ?c ip \<longleftrightarrow> contains n ip" for ip
  proof (cases "valid_ip ip")
    case True
    have "host_bits ?c = host_bits n" using same by (simp add: host_bits_def addr_bits_def)
    then show ?thesis using contains_div [OF assms True] contains_div [OF ok True] same by simp
  next
    case False
    then show ?thesis using contains_not_valid assms ok by blast
  qed
  moreover have "contains_form x = contains_form (IP n)"
    using x by (cases "IP n" rule: to4_cases) (auto simp: contains_form_def to4_def)
  then have "ipnet_String ?c = ipnet_String n"
    using ipnet_String_ok [OF ok] ipnet_String_ok [OF assms] by (simp add: net_len_def)
  ultimately show ?thesis
    using ParseCIDR_ipnet_String [OF assms x(1)] ok x(1) by auto
qed

lemma mem_ok_MemoryStore: "mem_ok MemoryStore"
  by (simp add: mem_ok_def MemoryStore_def)

lemma mem_ok_SaveSubnet: "mem_ok s \<Longrightarrow> net_ok sub \<Longrightarrow> mem_ok (snd (memoryStore_SaveSubnet sub s))"
  by (auto simp: mem_ok_def memoryStore_SaveSubnet_def)

lemma mem_ok_leases: "mem_ok (s\<lparr>leases := m\<rparr>) \<longleftrightarrow> mem_ok s"
  by (simp add: mem_ok_def)

lemma mem_ok_Save_DeleteLease:
  "mem_ok s \<Longrightarrow> mem_ok (snd (memoryStore_SaveLease k l s))"
  "mem_ok s \<Longrightarrow> mem_ok (snd (memoryStore_DeleteLease k s))"
  by (simp_all add: memoryStore_SaveLease_def memoryStore_DeleteLease_def mem_ok_leases)

lemma mem_ok_AllocateIP:
  assumes "mem_ok s" "net_ok sub" "net_ok ip"
  shows "mem_ok (snd (memoryStore_AllocateIP sub ip s))"
proof (cases "contains sub (IP ip) \<and> (\<exists>A. subnets s (ipnet_String sub) = Some A \<and> ipnet_String ip \<notin> A)")
  case True
  then obtain A where A: "subnets s (ipnet_String sub) = Some A" "ipnet_String ip \<notin> A"
    and c: "contains sub (IP ip)" by blast
  obtain n where n: "net_ok n" "ipnet_String sub = ipnet_String n" "finite A"
    "\<forall>i\<in>A. \<exists>m. net_ok m \<and> i = ipnet_String m \<and> contains n (IP m)"
    using assms(1) A(1) unfolding mem_ok_def by blast
  have "contains n (IP ip)" using same_text_contains(1) [OF assms(2) n(1,2)] c by simp
  then show ?thesis
    using assms(1,3) A c n
    by (auto simp: mem_ok_def memoryStore_AllocateIP_def checkSubnetContains_def Let_def)
next
  case False
  then have "snd (memoryStore_AllocateIP sub ip s) = s"
    by (auto simp: memoryStore_AllocateIP_def checkSubnetContains_def Let_def split: option.splits)
  then show ?thesis using assms(1) by simp
qed

lemma mem_ok_mono:
  assumes "mem_ok s" "\<And>t B. subnets s' t = Some B \<Longrightarrow> \<exists>A. subnets s t = Some A \<and> B \<subseteq> A"
  shows "mem_ok s'"
  unfolding mem_ok_def
proof (intro allI impI)
  fix t B assume "subnets s' t = Some B"
  then obtain A where A: "subnets s t = Some A" "B \<subseteq> A" using assms(2) by blast
  then obtain n where "net_ok n" "t = ipnet_String n" "finite A"
    "\<forall>i\<in>A. \<exists>m. net_ok m \<and> i = ipnet_String m \<and> contains n (IP m)"
    using assms(1) unfolding mem_ok_def by blast
  then show "\<exists>n. net_ok n \<and> t = ipnet_String n \<and> finite B \<and>
      (\<forall>i\<in>B. \<exists>m. net_ok m \<and> i = ipnet_String m \<and> contains n (IP m))"
    using A(2) finite_subset [OF A(2)] by blast
qed

lemma mem_ok_remove:
  "mem_ok s \<Longrightarrow> subnets s sub = Some A \<Longrightarrow> B \<subseteq> A \<Longrightarrow> mem_ok (s\<lparr>subnets := (subnets s)(sub := Some B)\<rparr>)"
  by (rule mem_ok_mono [of s]) (auto split: if_splits)

lemma mem_ok_FreeIP: "mem_ok s \<Longrightarrow> mem_ok (snd (memoryStore_FreeIP sub ip s))"
  using mem_ok_remove [of s "ipnet_String sub"]
  by (auto simp: memoryStore_FreeIP_def checkSubnetContains_def Let_def split: option.splits)

section \<open>The store keeps the contracts\<close>

text \<open>What \<open>AllocateIP\<close> and \<open>FreeIP\<close> return and store, on every path.\<close>

lemma AllocateIP_cases:
  "memoryStore_AllocateIP sub ip s =
     (if \<not> contains sub (IP ip) then (Inl (SubnetCannotContain (ipnet_String sub) (ipnet_String ip)), s)
      else if subnets s (ipnet_String sub) = None then (Inl (NoSuchSubnet (ipnet_String sub)), s)
      else if allocated (subnets s) sub ip then (Inr False, s)
      else (Inr True, s\<lparr>subnets := view_insert sub ip (subnets s)\<rparr>))"
  by (auto simp: memoryStore_AllocateIP_def checkSubnetContains_def allocated_def view_insert_def Let_def
      split: option.splits)

lemma FreeIP_cases:
  "memoryStore_FreeIP sub ip s =
     (if \<not> contains sub (IP ip) then (Inl (SubnetCannotContain (ipnet_String sub) (ipnet_String ip)), s)
      else if subnets s (ipnet_String sub) = None then (Inl (NoSuchSubnet (ipnet_String sub)), s)
      else (Inr (), s\<lparr>subnets := view_remove sub ip (subnets s)\<rparr>))"
  by (auto simp: memoryStore_FreeIP_def checkSubnetContains_def view_remove_def Let_def
      split: option.splits)

lemma mem_ips_inv:
  "mem_ok s \<Longrightarrow> net_ok sub \<Longrightarrow> mem_ok (snd (ip_SaveSubnet mem_ips sub s))"
  "mem_ok s \<Longrightarrow> net_ok sub \<Longrightarrow> net_ok ip \<Longrightarrow> mem_ok (snd (ip_AllocateIP mem_ips sub ip s))"
  "mem_ok s \<Longrightarrow> net_ok sub \<Longrightarrow> net_ok ip \<Longrightarrow> mem_ok (snd (ip_FreeIP mem_ips sub ip s))"
  by (simp_all add: mem_ips_def mem_ok_SaveSubnet mem_ok_AllocateIP mem_ok_FreeIP)

interpretation mem: reliable_ip_store mem_ips mem_ok subnets leases
  by unfold_locales
    ((rule mem_ips_inv; assumption) |
      (auto simp: mem_ips_def memoryStore_SaveSubnet_def AllocateIP_cases FreeIP_cases split: if_splits) [1])+

interpretation mem_lease: lease_store mem_leases "\<lambda>l. True" mem_ok leases subnets
  by unfold_locales
    (auto simp: mem_leases_def memoryStore_Lease_def memoryStore_SaveLease_def
      memoryStore_DeleteLease_def mem_ok_leases)

section \<open>What Purge does, in any order\<close>

definition key_contains :: "string \<Rightarrow> ip \<Rightarrow> bool" where
  "key_contains sub ip =
     (case ParseCIDR sub of Inl e \<Rightarrow> False | Inr (x, cidr) \<Rightarrow> contains (cidr\<lparr>IP := x\<rparr>) ip)"

definition live_leases :: "time \<Rightarrow> (u64 \<Rightarrow> lease option) \<Rightarrow> u64 \<Rightarrow> lease option" where
  "live_leases t m k =
     (case m k of None \<Rightarrow> None | Some l \<Rightarrow> if Lease_Expired l t then None else Some l)"

definition expired_ips :: "time \<Rightarrow> (u64 \<Rightarrow> lease option) \<Rightarrow> u64 \<Rightarrow> ipnet list" where
  "expired_ips t m k =
     (case m k of None \<Rightarrow> [] | Some l \<Rightarrow> if Lease_Expired l t then Lease_IPs l else [])"

definition purged_ips :: "time \<Rightarrow> (u64 \<Rightarrow> lease option) \<Rightarrow> string \<Rightarrow> string set" where
  "purged_ips t m sub =
     {ipnet_String f |f k. f \<in> set (expired_ips t m k) \<and> key_contains sub (IP f)}"

definition purged_count :: "time \<Rightarrow> (u64 \<Rightarrow> lease option) \<Rightarrow> string \<Rightarrow> nat" where
  "purged_count t m sub =
     (\<Sum>k\<in>dom m. length (filter (\<lambda>f. key_contains sub (IP f)) (expired_ips t m k)))"

lemma purge_leases_eq:
  "distinct ks \<Longrightarrow> purge_leases t ks m =
     (\<lambda>k. if k \<in> set ks then live_leases t m k else m k, concat (map (expired_ips t m) ks))"
proof (induction ks arbitrary: m)
  case (Cons k ks)
  have fr: "concat (map (expired_ips t (m(k := None))) ks) = concat (map (expired_ips t m) ks)"
    using Cons.prems by (auto simp: expired_ips_def intro!: arg_cong [where f = concat] map_cong)
  show ?case
  proof (cases "m k")
    case None
    then show ?thesis using Cons by (auto simp: live_leases_def expired_ips_def fun_eq_iff)
  next
    case (Some l)
    have k: "expired_ips t m k = (if Lease_Expired l t then Lease_IPs l else [])"
      "live_leases t m k = (if Lease_Expired l t then None else Some l)"
      using Some by (simp_all add: expired_ips_def live_leases_def)
    have lv: "k' \<noteq> k \<Longrightarrow> live_leases t (m(k := None)) k' = live_leases t m k'" for k'
      by (simp add: live_leases_def)
    have "purge_leases t ks (m(k := None)) =
        (\<lambda>k'. if k' \<in> set ks then live_leases t m k' else (m(k := None)) k',
         concat (map (expired_ips t m) ks))"
      using Cons.prems lv by (subst Cons.IH) (auto simp: fr intro!: ext lv)
    then show ?thesis using Cons.IH [of m] Cons.prems Some k by (simp add: fun_eq_iff)
  qed
qed simp

lemma sweep_freed_eq:
  "sweep_freed cidr sub freed stats A =
     (let F = filter (\<lambda>f. contains cidr (IP f)) freed
      in (if F = [] then stats
          else stats(sub := Some (length F + (case stats sub of None \<Rightarrow> 0 | Some n \<Rightarrow> n))),
          A - ipnet_String ` set F))"
  by (induction freed arbitrary: stats A) (auto simp: Let_def)

lemma purge_sweep_eq:
  assumes "distinct ss" "\<forall>sub\<in>set ss. \<exists>r. ParseCIDR sub = Inr r" "set ss \<subseteq> dom subs"
    "\<forall>sub\<in>set ss. stats sub = None"
  shows "purge_sweep ss freed stats subs =
    (Inr (\<lambda>sub. let F = filter (\<lambda>f. key_contains sub (IP f)) freed
                in if sub \<in> set ss \<and> F \<noteq> [] then Some (length F) else stats sub),
     \<lambda>sub. if sub \<in> set ss
           then map_option (\<lambda>A. A - ipnet_String ` {f \<in> set freed. key_contains sub (IP f)}) (subs sub)
           else subs sub)"
  using assms
proof (induction ss arbitrary: stats subs)
  case (Cons sub ss)
  obtain x cidr where p: "ParseCIDR sub = Inr (x, cidr)" using Cons.prems(2) by auto
  obtain A where A: "subs sub = Some A" using Cons.prems(3) by auto
  have kc: "key_contains sub ip \<longleftrightarrow> contains (cidr\<lparr>IP := x\<rparr>) ip" for ip
    by (simp add: key_contains_def p)
  let ?F = "filter (\<lambda>f. key_contains sub (IP f)) freed"
  let ?stats = "if ?F = [] then stats else stats(sub := Some (length ?F))"
  let ?subs = "subs(sub := Some (A - ipnet_String ` set ?F))"
  have "purge_sweep (sub # ss) freed stats subs = purge_sweep ss freed ?stats ?subs"
    using Cons.prems(4) by (simp add: p A sweep_freed_eq kc Let_def)
  also have "\<dots> = (Inr (\<lambda>sub. let F = filter (\<lambda>f. key_contains sub (IP f)) freed
                in if sub \<in> set ss \<and> F \<noteq> [] then Some (length F) else ?stats sub),
     \<lambda>sub. if sub \<in> set ss
           then map_option (\<lambda>A. A - ipnet_String ` {f \<in> set freed. key_contains sub (IP f)}) (?subs sub)
           else ?subs sub)"
    using Cons.prems by (intro Cons.IH) auto
  also have "\<dots> = (Inr (\<lambda>sub'. let F = filter (\<lambda>f. key_contains sub' (IP f)) freed
                in if sub' \<in> set (sub # ss) \<and> F \<noteq> [] then Some (length F) else stats sub'),
     \<lambda>sub'. if sub' \<in> set (sub # ss)
           then map_option (\<lambda>A. A - ipnet_String ` {f \<in> set freed. key_contains sub' (IP f)}) (subs sub')
           else subs sub')"
    using Cons.prems(1,4) A filter_empty_conv [of "\<lambda>f. key_contains sub (IP f)" freed]
    by (simp add: Let_def fun_eq_iff) blast
  finally show ?case .
qed simp

definition purge_result :: "time \<Rightarrow> memoryStore \<Rightarrow> (goerr + PurgeStats) \<times> memoryStore" where
  "purge_result t s =
     (Inr \<lparr>FreedIPs = (\<lambda>sub. if sub \<in> dom (subnets s) \<and> 0 < purged_count t (leases s) sub
                            then Some (purged_count t (leases s) sub) else None)\<rparr>,
      s\<lparr>leases := live_leases t (leases s),
        subnets := (\<lambda>sub. map_option (\<lambda>A. A - purged_ips t (leases s) sub) (subnets s sub))\<rparr>)"

lemma filter_concat_length:
  "length (filter P (concat (map g ks))) = sum_list (map (\<lambda>k. length (filter P (g k))) ks)"
  by (induction ks) auto

text \<open>The addresses a purge collects, from the keys of the leases in any order.\<close>

lemma purged_freed:
  assumes "distinct ks" "set ks = dom m"
  shows "length (filter (\<lambda>f. key_contains sub (IP f)) (concat (map (expired_ips t m) ks))) = purged_count t m sub"
    and "filter (\<lambda>f. key_contains sub (IP f)) (concat (map (expired_ips t m) ks)) = [] \<longleftrightarrow> purged_count t m sub = 0"
    and "ipnet_String ` {f \<in> set (concat (map (expired_ips t m) ks)). key_contains sub (IP f)} = purged_ips t m sub"
proof -
  show count: "length (filter (\<lambda>f. key_contains sub (IP f)) (concat (map (expired_ips t m) ks))) = purged_count t m sub"
    unfolding filter_concat_length purged_count_def assms(2) [symmetric]
    using assms(1) by (rule sum_list_distinct_conv_sum_set)
  show "filter (\<lambda>f. key_contains sub (IP f)) (concat (map (expired_ips t m) ks)) = [] \<longleftrightarrow> purged_count t m sub = 0"
    unfolding count [symmetric] by simp
  have "(\<exists>k\<in>set ks. f \<in> set (expired_ips t m k)) \<longleftrightarrow> (\<exists>k. f \<in> set (expired_ips t m k))" for f
  proof -
    have "f \<in> set (expired_ips t m k) \<Longrightarrow> k \<in> set ks" for k
      unfolding assms(2) by (cases "m k") (auto simp: expired_ips_def)
    then show ?thesis by blast
  qed
  then show "ipnet_String ` {f \<in> set (concat (map (expired_ips t m) ks)). key_contains sub (IP f)} = purged_ips t m sub"
    by (auto simp: purged_ips_def)
qed

text \<open>The sweep, over the keys \<open>ss\<close> of some subnets.\<close>

lemma purge_sweep_result:
  assumes "distinct ks" "set ks = dom m" "distinct ss" "\<forall>sub\<in>set ss. \<exists>r. ParseCIDR sub = Inr r" "set ss \<subseteq> dom subs"
  shows "purge_sweep ss (concat (map (expired_ips t m) ks)) Map.empty subs =
    (Inr (\<lambda>sub. if sub \<in> set ss \<and> 0 < purged_count t m sub then Some (purged_count t m sub) else None),
     \<lambda>sub. if sub \<in> set ss then map_option (\<lambda>A. A - purged_ips t m sub) (subs sub) else subs sub)"
  using purge_sweep_eq [OF assms(3-5), of Map.empty "concat (map (expired_ips t m) ks)"]
  unfolding Let_def purged_freed [OF assms(1,2)] by (auto simp: fun_eq_iff)

lemma Purge_eq:
  assumes "mem_ok s" "range_order ks (leases s)" "range_order ss (subnets s)"
  shows "memoryStore_Purge ks ss t s = purge_result t s"
proof -
  have ks: "distinct ks" "set ks = dom (leases s)" and ss: "distinct ss" "set ss = dom (subnets s)"
    using assms(2,3) by (auto simp: range_order_def)
  have lv: "(\<lambda>k. if k \<in> set ks then live_leases t (leases s) k else leases s k) = live_leases t (leases s)"
    unfolding ks(2) by (auto simp: fun_eq_iff live_leases_def split: option.splits)
  have "\<forall>sub\<in>set ss. \<exists>r. ParseCIDR sub = Inr r"
  proof
    fix sub assume "sub \<in> set ss"
    then obtain n where "net_ok n" "sub = ipnet_String n"
      using assms(1) unfolding ss(2) mem_ok_def by blast
    then show "\<exists>r. ParseCIDR sub = Inr r" using ParseCIDR_key [of n] by blast
  qed
  from purge_sweep_result [OF ks ss(1) this] show ?thesis
    by (simp add: memoryStore_Purge_def purge_result_def purge_leases_eq [OF ks(1)] lv ss(2))
      (auto simp: fun_eq_iff domIff)
qed

lemma live_leases_idem: "t' \<le> t \<Longrightarrow> live_leases t' (live_leases t m) = live_leases t m"
  by (auto simp: live_leases_def fun_eq_iff dest: Expired_mono split: option.splits)

lemma expired_ips_live: "t' \<le> t \<Longrightarrow> expired_ips t' (live_leases t m) k = []"
  by (auto simp: expired_ips_def live_leases_def dest: Expired_mono split: option.splits)

lemma purge_result_twice:
  "t' \<le> t \<Longrightarrow> purge_result t' (snd (purge_result t s)) = (Inr \<lparr>FreedIPs = Map.empty\<rparr>, snd (purge_result t s))"
  by (simp add: purge_result_def live_leases_idem purged_ips_def purged_count_def expired_ips_live
      option.map_id0 [unfolded id_def])

lemma mem_ok_purge_result: "mem_ok s \<Longrightarrow> mem_ok (snd (purge_result t s))"
  by (rule mem_ok_mono [of s]) (auto simp: purge_result_def)

section \<open>Reading the tables back\<close>

lemma parse_all_map:
  "(\<And>k. k \<in> set ks \<Longrightarrow> f k = Inr (g k)) \<Longrightarrow> parse_all f ks = Inr (map g ks)"
  by (induction ks) auto

lemma parse_ip_key_text:
  assumes "net_ok n"
  shows "\<exists>m. parse_ip_key (ipnet_String n) = Inr m \<and> net_ok m \<and> ipnet_String m = ipnet_String n"
  using ParseCIDR_key [OF assms] by (auto simp: parse_ip_key_def)

lemma mem_ok_key: "mem_ok s \<Longrightarrow> subnets s sub = Some A \<Longrightarrow> i \<in> A \<Longrightarrow> \<exists>m. net_ok m \<and> i = ipnet_String m"
  unfolding mem_ok_def by meson

lemma view_remove_insert:
  "v (ipnet_String sub) \<noteq> None \<Longrightarrow> \<not> allocated v sub ip \<Longrightarrow> view_remove sub ip (view_insert sub ip v) = v"
  by (auto simp: view_remove_def view_insert_def allocated_def fun_eq_iff)

section \<open>Properties of the memory store\<close>

text \<open>Two subnets and two leases, one of them over at time 10.\<close>

definition demo_net :: ipnet where
  "demo_net = \<lparr>IP = [10, 0, 0, 0], Mask = CIDRMask 30 32\<rparr>"

definition demo_ip :: "byte \<Rightarrow> ipnet" where
  "demo_ip n = \<lparr>IP = [10, 0, 0, n], Mask = CIDRMask 32 32\<rparr>"

definition demo_store :: memoryStore where
  "demo_store = \<lparr>leases = [1 \<mapsto> \<lparr>Lease_IPs = [demo_ip 1], Lease_Start = 0, Lease_Length = 10\<rparr>,
       2 \<mapsto> \<lparr>Lease_IPs = [demo_ip 2], Lease_Start = 5, Lease_Length = 10\<rparr>],
     subnets = [''10.0.0.0/30'' \<mapsto> {''10.0.0.1/32'', ''10.0.0.2/32''}]\<rparr>"

lemma demo_texts: "ipnet_String demo_net = ''10.0.0.0/30''" "ipnet_String (demo_ip 1) = ''10.0.0.1/32''"
  "ipnet_String (demo_ip 2) = ''10.0.0.2/32''" "ipnet_String (demo_ip 3) = ''10.0.0.3/32''"
  by code_simp+

lemma demo_nets_ok: "net_ok demo_net" "net_ok (demo_ip 1)" "net_ok (demo_ip 2)"
  "contains demo_net (IP (demo_ip 1))" "contains demo_net (IP (demo_ip 2))" "contains demo_net (IP (demo_ip 3))"
  by code_simp+

lemma demo_store_ok: "mem_ok demo_store"
  unfolding mem_ok_def
proof (intro allI impI)
  fix sub A assume "subnets demo_store sub = Some A"
  then have "sub = ipnet_String demo_net" "A = {ipnet_String (demo_ip 1), ipnet_String (demo_ip 2)}"
    by (auto simp: demo_store_def demo_texts split: if_splits)
  then show "\<exists>n. net_ok n \<and> sub = ipnet_String n \<and> finite A \<and>
      (\<forall>i\<in>A. \<exists>m. net_ok m \<and> i = ipnet_String m \<and> contains n (IP m))"
    using demo_nets_ok by (intro exI [of _ demo_net]) auto
qed

lemma demo_orders: "range_order [1, 2] (leases demo_store)" "range_order [''10.0.0.0/30''] (subnets demo_store)"
  by (auto simp: range_order_def demo_store_def)

text \<open>C20: \<open>Purge\<close> gives the same leases, tables and statistics in whatever order Go ranges over the two
  maps: it removes the expired leases, takes their addresses out of every subnet that contains them,
  and counts those.\<close>

theorem Purge_in_any_order:
  assumes "mem_ok s" "range_order ks (leases s)" "range_order ss (subnets s)"
  shows "memoryStore_Purge ks ss t s = purge_result t s"
  by (rule Purge_eq [OF assms])

theorem Purge_in_any_order_witness:
  "memoryStore_Purge [1, 2] [''10.0.0.0/30''] 10 demo_store = purge_result 10 demo_store"
  by (rule Purge_in_any_order [OF demo_store_ok demo_orders])

text \<open>A second \<open>Purge\<close>, at the same time or an earlier one, finds nothing to do: it changes neither
  leases nor tables and reports no freed address.\<close>

theorem Purge_twice:
  assumes "mem_ok s" "range_order ks (leases s)" "range_order ss (subnets s)"
    "memoryStore_Purge ks ss t s = (r, s')" "range_order ks' (leases s')" "range_order ss' (subnets s')" "t' \<le> t"
  shows "memoryStore_Purge ks' ss' t' s' = (Inr \<lparr>FreedIPs = Map.empty\<rparr>, s')"
proof -
  have s': "s' = snd (purge_result t s)" using Purge_eq [OF assms(1-3), of t] assms(4) by (metis snd_conv)
  then have "mem_ok s'" using mem_ok_purge_result [OF assms(1)] by simp
  then show ?thesis
    using Purge_eq [OF _ assms(5,6), of t'] purge_result_twice [OF assms(7), of s] s' by simp
qed

theorem Purge_twice_witness:
  "\<exists>r s'. memoryStore_Purge [1, 2] [''10.0.0.0/30''] 10 demo_store = (r, s') \<and>
    memoryStore_Purge [2] [''10.0.0.0/30''] 10 s' = (Inr \<lparr>FreedIPs = Map.empty\<rparr>, s')"
proof -
  obtain r s' where p: "memoryStore_Purge [1, 2] [''10.0.0.0/30''] 10 demo_store = (r, s')" by fastforce
  have "s' = snd (purge_result 10 demo_store)" using Purge_eq [OF demo_store_ok demo_orders] p by (metis snd_conv)
  then have "range_order [2] (leases s')" "range_order [''10.0.0.0/30''] (subnets s')"
    by (auto simp: range_order_def purge_result_def live_leases_def demo_store_def Expired_iff split: if_splits)
  then show ?thesis using Purge_twice [OF demo_store_ok demo_orders p] p by auto
qed

text \<open>C21: Allocating a free address succeeds once, a second attempt reports it taken, and freeing it gives
  back exactly the store there was before.\<close>

theorem AllocateIP_FreeIP_roundtrip:
  assumes "contains sub (IP ip)" "subnets s (ipnet_String sub) \<noteq> None" "\<not> allocated (subnets s) sub ip"
  shows "\<exists>s'. memoryStore_AllocateIP sub ip s = (Inr True, s') \<and>
    memoryStore_AllocateIP sub ip s' = (Inr False, s') \<and> memoryStore_FreeIP sub ip s' = (Inr (), s)"
proof -
  let ?s = "s\<lparr>subnets := view_insert sub ip (subnets s)\<rparr>"
  have "allocated (subnets ?s) sub ip" "subnets ?s (ipnet_String sub) \<noteq> None"
    using assms(2) by (auto simp: allocated_def view_insert_def)
  then show ?thesis
    using assms by (intro exI [of _ ?s]) (simp add: AllocateIP_cases FreeIP_cases view_remove_insert)
qed

theorem AllocateIP_FreeIP_roundtrip_witness:
  "\<exists>s'. memoryStore_AllocateIP demo_net (demo_ip 3) demo_store = (Inr True, s') \<and>
    memoryStore_FreeIP demo_net (demo_ip 3) s' = (Inr (), demo_store)"
proof -
  have "subnets demo_store (ipnet_String demo_net) \<noteq> None" "\<not> allocated (subnets demo_store) demo_net (demo_ip 3)"
    by (simp_all add: demo_store_def demo_texts allocated_def)
  then show ?thesis using AllocateIP_FreeIP_roundtrip [OF demo_nets_ok(6)] by blast
qed

text \<open>\<open>AllocatedIPs\<close> parses every entry of the table of a subnet and returns networks that print as
  those entries, in the order it ranges over them.\<close>

theorem AllocatedIPs_complete:
  assumes "mem_ok s" "subnets s (ipnet_String sub) = Some A" "set is = A"
  shows "\<exists>ips. memoryStore_AllocatedIPs is sub s = (Inr ips, s) \<and> map ipnet_String ips = is"
proof -
  have "\<exists>m. parse_ip_key i = Inr m \<and> ipnet_String m = i" if "i \<in> set is" for i
  proof -
    have "i \<in> A" using that assms(3) by simp
    then obtain n where "net_ok n" "i = ipnet_String n" using mem_ok_key [OF assms(1,2)] by blast
    then show ?thesis using parse_ip_key_text [of n] by auto
  qed
  then obtain g where g: "\<And>i. i \<in> set is \<Longrightarrow> parse_ip_key i = Inr (g i) \<and> ipnet_String (g i) = i" by metis
  then have "parse_all parse_ip_key is = Inr (map g is)" by (intro parse_all_map) auto
  then show ?thesis using assms(2) g by (auto simp: memoryStore_AllocatedIPs_def comp_def intro!: map_idI)
qed

theorem AllocatedIPs_complete_witness:
  "\<exists>ips. memoryStore_AllocatedIPs [''10.0.0.2/32'', ''10.0.0.1/32''] demo_net demo_store = (Inr ips, demo_store) \<and>
    map ipnet_String ips = [''10.0.0.2/32'', ''10.0.0.1/32'']"
  by (rule AllocatedIPs_complete [OF demo_store_ok]) (auto simp: demo_store_def demo_texts)

end
