(* ===== verification/Ipaddr.thy ===== *)
theory Ipaddr
  imports Net_Text
begin

text \<open>
  The parts of package \<open>ipaddr\<close> (vendor/github.com/mikioh/ipaddr) the allocator walks subnets with:
  prefixes, positions and the cursor, on 64-bit words as the source has them.  A cursor over one
  prefix is shown to be a counter from the first to the last value of the prefix.
\<close>

section \<open>Integers for addresses\<close>

type_synonym ipv6Int = "64 word \<times> 64 word"
type_synonym prefix = ipnet

definition ipToIPv4Int :: "ip \<Rightarrow> 32 word" where
  "ipToIPv4Int ip = word_of_nat (be_nat (case to4 ip of Some x \<Rightarrow> x | None \<Rightarrow> []))"

definition ipToIPv6Int :: "ip \<Rightarrow> ipv6Int" where
  "ipToIPv6Int ip = (word_of_nat (be_nat (take 8 ip)), word_of_nat (be_nat (take 8 (drop 8 ip))))"

definition ipv6Int_ip :: "ipv6Int \<Rightarrow> ip" where
  "ipv6Int_ip i = be_bytes 8 (unat (fst i)) @ be_bytes 8 (unat (snd i))"

definition ipv6Int_cmp :: "ipv6Int \<Rightarrow> ipv6Int \<Rightarrow> int" where
  "ipv6Int_cmp i j =
     (if fst i < fst j then -1 else if fst i > fst j then 1
      else if snd i < snd j then -1 else if snd i > snd j then 1 else 0)"

definition ipv6Int_incr :: "ipv6Int \<Rightarrow> ipv6Int" where
  "ipv6Int_incr i = (if snd i = -1 then (fst i + 1, 0) else (fst i, snd i + 1))"

text \<open>A shift by a negative count is a shift by a huge one in Go, which leaves 0.\<close>

definition mask32 :: "nat \<Rightarrow> 32 word" where
  "mask32 nbits = - (if nbits \<le> 32 then push_bit (32 - nbits) 1 else 0)"

definition mask64 :: "nat \<Rightarrow> 64 word" where
  "mask64 nbits = - (if nbits \<le> 64 then push_bit (64 - nbits) 1 else 0)"

definition invmask :: "nat \<Rightarrow> ipv6Int" where
  "invmask n = (if 64 < n then (NOT (mask64 64), NOT (mask64 (n - 64))) else (NOT (mask64 n), mask64 64))"

section \<open>Prefixes\<close>

definition prefix_Len :: "prefix \<Rightarrow> nat" where
  "prefix_Len p = mask_ones (Mask p)"

definition lastIPv4MappedIPv6Int :: "prefix \<Rightarrow> ipv6Int" where
  "lastIPv4MappedIPv6Int p =
     (0, 0x0000ffff00000000 OR ucast (ipToIPv4Int (IP p) OR NOT (mask32 (prefix_Len p))))"

definition lastIPv6Int :: "prefix \<Rightarrow> ipv6Int" where
  "lastIPv6Int p =
     (let i = ipToIPv6Int (IP p); m = invmask (prefix_Len p)
      in (fst i OR fst m, snd i OR snd m))"

text \<open>\<open>NewPrefix\<close> stores the 16-byte form back into the caller's network as well.\<close>

definition NewPrefix :: "ipnet \<Rightarrow> prefix" where
  "NewPrefix n = n\<lparr>IP := (case to16 (IP n) of Some x \<Rightarrow> x | None \<Rightarrow> [])\<rparr>"

definition compareAscending :: "prefix \<Rightarrow> prefix \<Rightarrow> int" where
  "compareAscending a b =
     (if IP a < IP b then -1 else if IP b < IP a then 1
      else if Mask a < Mask b then -1 else if Mask b < Mask a then 1 else 0)"

definition prefix_Equal :: "prefix \<Rightarrow> prefix \<Rightarrow> bool" where
  "prefix_Equal p q \<longleftrightarrow> compareAscending p q = 0"

definition clonePrefix :: "prefix \<Rightarrow> prefix" where
  "clonePrefix s = \<lparr>IP = (case to16 (IP s) of Some x \<Rightarrow> x | None \<Rightarrow> replicate 16 0), Mask = Mask s\<rparr>"

definition sortByAscending :: "prefix list \<Rightarrow> prefix list" where
  "sortByAscending ps = sort_key (\<lambda>p. (IP p, Mask p)) ps"

fun drop_repeats :: "prefix option \<Rightarrow> prefix list \<Rightarrow> prefix list" where
  "drop_repeats p [] = []"
| "drop_repeats None (q # qs) = q # drop_repeats (Some q) qs"
| "drop_repeats (Some p) (q # qs) =
     (if prefix_Equal p q then drop_repeats (Some q) qs else q # drop_repeats (Some q) qs)"

text \<open>\<open>newSortedPrefixes\<close> with \<open>sortAscending\<close> and not strict, the only way the cursor calls it.\<close>

definition newSortedPrefixes :: "prefix list \<Rightarrow> prefix list" where
  "newSortedPrefixes ps =
     (if ps = [] then [] else drop_repeats None (sortByAscending (map clonePrefix ps)))"

section \<open>Cursors\<close>

record position =
  pos_IP :: ip
  pos_Prefix :: prefix

record cursor =
  curr :: ipv6Int
  cur_start :: ipv6Int
  cur_end :: ipv6Int
  cur_pi :: nat
  cur_ps :: "prefix list"

definition cursor_end :: "ip \<Rightarrow> prefix \<Rightarrow> ipv6Int \<Rightarrow> ipv6Int" where
  "cursor_end ip p old =
     (if to4 ip \<noteq> None then lastIPv4MappedIPv6Int p
      else if to16 ip \<noteq> None then lastIPv6Int p
      else old)"

text \<open>\<open>c.set\<close>; reading the words of a nil address panics.\<close>

definition cursor_set :: "cursor \<Rightarrow> nat \<Rightarrow> ip \<Rightarrow> fault + cursor" where
  "cursor_set c i ip =
     (case (to16 ip, to16 (IP (cur_ps c ! i))) of
        (Some x, Some y) \<Rightarrow>
          Inr (c\<lparr>cur_pi := i, curr := ipToIPv6Int x, cur_start := ipToIPv6Int y,
                 cur_end := cursor_end ip (cur_ps c ! i) (cur_end c)\<rparr>)
      | _ \<Rightarrow> Inl (Panic SliceBounds))"

definition cursor_First :: "cursor \<Rightarrow> position" where
  "cursor_First c = \<lparr>pos_IP = IP (cur_ps c ! 0), pos_Prefix = cur_ps c ! 0\<rparr>"

definition cursor_Pos :: "cursor \<Rightarrow> position" where
  "cursor_Pos c = \<lparr>pos_IP = ipv6Int_ip (curr c), pos_Prefix = cur_ps c ! cur_pi c\<rparr>"

definition cursor_Next :: "cursor \<Rightarrow> position option \<times> cursor" where
  "cursor_Next c =
     (if ipv6Int_cmp (curr c) (cur_end c) = 0 then
        (if cur_pi c = length (cur_ps c) - 1 then (None, c)
         else let i = cur_pi c + 1; p = cur_ps c ! i;
                  x = ipToIPv6Int (case to16 (IP p) of Some x \<Rightarrow> x | None \<Rightarrow> []);
                  c' = c\<lparr>cur_pi := i, curr := x, cur_start := x,
                         cur_end := cursor_end (IP p) p (cur_end c)\<rparr>
              in (Some (cursor_Pos c'), c'))
      else let c' = c\<lparr>curr := ipv6Int_incr (curr c)\<rparr> in (Some (cursor_Pos c'), c'))"

text \<open>The index of the first prefix equal to the position's, as the loop of \<open>Set\<close> finds it.\<close>

fun find_prefix :: "prefix list \<Rightarrow> prefix \<Rightarrow> nat \<Rightarrow> nat option" where
  "find_prefix [] q i = None"
| "find_prefix (p # qs) q i = (if prefix_Equal p q then Some i else find_prefix qs q (i + 1))"

fun cursor_Set :: "cursor \<Rightarrow> position option \<Rightarrow> fault + cursor" where
  "cursor_Set c None = Inl (Err InvalidPosition)"
| "cursor_Set c (Some pos) =
     (case find_prefix (cur_ps c) (pos_Prefix pos) 0 of
        None \<Rightarrow> Inl (Err PositionOutOfRange)
      | Some i \<Rightarrow>
          if \<not> contains (cur_ps c ! i) (pos_IP pos) then Inl (Err PositionOutOfRange)
          else case to16 (pos_IP pos) of
                 None \<Rightarrow> Inl (Panic SliceBounds)
               | Some x \<Rightarrow> cursor_set c i x)"

text \<open>A nil cursor (\<open>None\<close>) for no prefixes.\<close>

definition NewCursor :: "prefix list \<Rightarrow> fault + cursor option" where
  "NewCursor qs0 =
     (let qs = newSortedPrefixes qs0
      in if qs = [] then Inr None
         else case cursor_set \<lparr>curr = (0, 0), cur_start = (0, 0), cur_end = (0, 0), cur_pi = 0, cur_ps = qs\<rparr>
                     0 (IP (qs ! 0)) of
                Inl f \<Rightarrow> Inl f
              | Inr c \<Rightarrow> Inr (Some c))"

section \<open>A cursor over one prefix counts through its values\<close>

definition cval :: "ipv6Int \<Rightarrow> nat" where
  "cval i = unat (fst i) * 2 ^ 64 + unat (snd i)"

lemma unat64_less: "unat (w :: 64 word) < 2 ^ 64"
  using unsigned_less [of w, where ?'a = nat] by simp

lemma unat32_less: "unat (w :: 32 word) < 2 ^ 32"
  using unsigned_less [of w, where ?'a = nat] by simp

lemma cval_inj: "cval i = cval j \<longleftrightarrow> i = j"
proof
  assume h: "cval i = cval j"
  have "cval k div 2 ^ 64 = unat (fst k)" "cval k mod 2 ^ 64 = unat (snd k)" for k
    using unat64_less [of "snd k"] by (simp_all add: cval_def)
  with h have "unat (fst i) = unat (fst j)" "unat (snd i) = unat (snd j)" by metis+
  then show "i = j" by (auto simp: prod_eq_iff intro: unsigned_word_eqI)
qed simp

lemma ipv6Int_cmp_0: "ipv6Int_cmp i j = 0 \<longleftrightarrow> i = j"
  by (auto simp: ipv6Int_cmp_def prod_eq_iff not_less intro: antisym)

lemma length_ipv6Int_ip [simp]: "length (ipv6Int_ip i) = 16"
  by (simp add: ipv6Int_ip_def)

lemma be_nat_ipv6Int_ip: "be_nat (ipv6Int_ip i) = cval i"
  using unat64_less [of "fst i"] unat64_less [of "snd i"]
  by (simp add: ipv6Int_ip_def be_nat_append be_nat_be_bytes cval_def)

lemma to16_16: "length ip = 16 \<Longrightarrow> to16 ip = Some ip"
  by (simp add: to16_def)

lemma ipval_16: "length ip = 16 \<Longrightarrow> ipval ip = be_nat ip"
  by (simp add: ipval_def to16_16)

lemma ipval_ipv6Int_ip: "ipval (ipv6Int_ip i) = cval i"
  by (simp add: ipval_16 be_nat_ipv6Int_ip)

lemma cval_ipToIPv6Int:
  assumes "length ip = 16"
  shows "cval (ipToIPv6Int ip) = ipval ip"
proof -
  have l: "length (take 8 ip) = 8" "length (take 8 (drop 8 ip)) = 8" using assms by auto
  have "be_nat (take 8 ip) < 2 ^ 64" "be_nat (take 8 (drop 8 ip)) < 2 ^ 64"
    using be_nat_less [of "take 8 ip"] be_nat_less [of "take 8 (drop 8 ip)"] l by simp_all
  then have "cval (ipToIPv6Int ip) = be_nat (take 8 ip) * 2 ^ 64 + be_nat (take 8 (drop 8 ip))"
    by (simp add: cval_def ipToIPv6Int_def unat_of_nat)
  also have "\<dots> = be_nat (take 8 ip @ take 8 (drop 8 ip))" using l by (simp add: be_nat_append)
  also have "take 8 ip @ take 8 (drop 8 ip) = ip"
    using assms by (metis append_take_drop_id length_drop take_all_iff diff_le_self numeral_le_iff
        add_diff_cancel_left' le_refl numeral_Bit0)
  finally show ?thesis using assms by (simp add: ipval_16)
qed

lemma ipv6Int_ip_ipToIPv6Int: "length ip = 16 \<Longrightarrow> ipv6Int_ip (ipToIPv6Int ip) = ip"
  using be_nat_inj [of "ipv6Int_ip (ipToIPv6Int ip)" ip] be_nat_ipv6Int_ip cval_ipToIPv6Int [of ip]
  by (simp add: ipval_16)

lemma cval_incr:
  assumes "cval i < 2 ^ 128 - 1"
  shows "cval (ipv6Int_incr i) = cval i + 1"
proof (cases "snd i = -1")
  case True
  have m: "unat (-1 :: 64 word) = 2 ^ 64 - 1" by (simp add: unsigned_minus_1_eq_mask mask_eq_exp_minus_1)
  have "fst i \<noteq> -1"
  proof
    assume "fst i = -1"
    with True m have "cval i = 2 ^ 128 - 1" by (simp add: cval_def)
    with assms show False by simp
  qed
  then have "unat (fst i + 1) = unat (fst i) + 1" by (metis add.commute add_eq_0_iff unatSuc Suc_eq_plus1)
  then show ?thesis using True m by (simp add: ipv6Int_incr_def cval_def)
next
  case False
  then have "unat (snd i + 1) = unat (snd i) + 1" by (metis add.commute add_eq_0_iff unatSuc Suc_eq_plus1)
  then show ?thesis using False by (simp add: ipv6Int_incr_def cval_def)
qed

subsection \<open>The last address of a prefix\<close>

lemma mask32_eq: "l \<le> 32 \<Longrightarrow> NOT (mask32 l) = mask (32 - l)"
  by (simp add: mask32_def mask_eq_exp_minus_1 not_eq_complement push_bit_eq_mult)

lemma mask64_eq: "l \<le> 64 \<Longrightarrow> NOT (mask64 l) = mask (64 - l)"
  by (simp add: mask64_def mask_eq_exp_minus_1 not_eq_complement push_bit_eq_mult)

lemma nat_or_mask: "(n :: nat) OR mask h = n div 2 ^ h * 2 ^ h + (2 ^ h - 1)"
proof -
  have "n OR mask h = push_bit h (drop_bit h n) OR mask h"
    by (auto simp: bit_eq_iff bit_simps)
  also have "\<dots> = push_bit h (drop_bit h n) + mask h"
    by (rule disjunctive_add_eq_or [symmetric]) (auto simp: bit_eq_iff bit_simps)
  finally show ?thesis by (simp add: push_bit_eq_mult drop_bit_eq_div mask_eq_exp_minus_1)
qed

lemma unat_or_mask:
  fixes w :: "'a :: len word"
  assumes "h \<le> LENGTH('a)"
  shows "unat (w OR mask h) = unat w div 2 ^ h * 2 ^ h + (2 ^ h - 1)"
proof -
  have "unat (mask h :: 'a word) = mask h"
    using assms by (intro bit_eqI) (auto simp: bit_simps)
  then show ?thesis by (simp add: unsigned_or_eq nat_or_mask)
qed

lemma ipToIPv4Int_16:
  assumes "length ip = 16" "is4 ip"
  shows "mapped_base + unat (ipToIPv4Int ip) = ipval ip"
proof -
  obtain x where x: "to4 ip = Some x" using assms(2) by (auto simp: is4_def)
  then have "length x = 4" "ipval ip = mapped_base + be_nat x" using to4_Some_ipval by auto
  moreover have "be_nat x < 2 ^ 32" using be_nat_less [of x] calculation(1) by simp
  ultimately show ?thesis using x by (simp add: ipToIPv4Int_def unat_of_nat)
qed

lemma push_32_and_ucast: "push_bit 32 k AND ucast (w :: 32 word) = (0 :: 64 word)"
  by (auto simp: bit_eq_iff bit_simps dest: bit_imp_le_length)

lemma cval_mapped: "cval (0, 0x0000ffff00000000 OR ucast (w :: 32 word)) = mapped_base + unat w"
proof -
  have K: "(0x0000ffff00000000 :: 64 word) = push_bit 32 0xffff" by simp
  have "(0x0000ffff00000000 :: 64 word) OR ucast w = 0x0000ffff00000000 + ucast w"
    unfolding K by (rule disjunctive_add_eq_or [symmetric]) (rule push_32_and_ucast)
  moreover have "unat (0x0000ffff00000000 + ucast w :: 64 word) = unat (0x0000ffff00000000 :: 64 word) + unat w"
    using unat32_less [of w] by (subst unat_word_ariths) (simp add: unsigned_ucast_eq take_bit_eq_mod)
  ultimately show ?thesis by (simp add: cval_def mapped_base_def)
qed

text \<open>The prefixes the allocator makes: canonical mask, 16-byte address, no host bits.\<close>

definition prefix_ok :: "prefix \<Rightarrow> bool" where
  "prefix_ok p \<longleftrightarrow> net_ok p \<and> length (IP p) = 16 \<and> ipval (IP p) = net_base p"

lemma div_mult_eq_self: "a div d * d = a \<Longrightarrow> a div d * d + r = a + (r :: nat)"
  by simp

lemma cval_lastIPv4:
  assumes "prefix_ok p" "is4 (IP p)"
  shows "cval (lastIPv4MappedIPv6Int p) = net_last p"
proof -
  let ?a = "ipToIPv4Int (IP p)" and ?h = "host_bits p"
  have ok: "net_ok p" "length (IP p) = 16" and base: "ipval (IP p) = net_base p"
    using assms(1) by (auto simp: prefix_ok_def)
  have h: "?h \<le> 32" "prefix_Len p \<le> 32" "?h = 32 - prefix_Len p"
    using ok(1) assms(2) by (auto simp: net_ok_def host_bits_def addr_bits_def prefix_Len_def)
  have v: "mapped_base + unat ?a = ipval (IP p)" by (rule ipToIPv4Int_16 [OF ok(2) assms(2)])
  have "2 ^ ?h dvd mapped_base + unat ?a" unfolding v base by (simp add: net_base_def)
  then have "unat ?a div 2 ^ ?h * 2 ^ ?h = unat ?a"
    using mapped_base_dvd [OF h(1)] by (metis dvd_add_right_iff dvd_div_mult_self)
  then have "unat (?a OR mask ?h) = unat ?a + (2 ^ ?h - 1)"
    using unat_or_mask [of ?h ?a] h(1) by simp
  then have "cval (lastIPv4MappedIPv6Int p) = mapped_base + (unat ?a + (2 ^ ?h - 1))"
    unfolding lastIPv4MappedIPv6Int_def cval_mapped using h by (simp add: mask32_eq)
  then show ?thesis using v base unfolding net_last_def by linarith
qed

lemma round_dvd: "(d :: nat) dvd A \<Longrightarrow> (A + b) div d * d = A + b div d * d"
  by (simp add: div_plus_div_distrib_dvd_left add_mult_distrib)

lemma cval_or_low:
  assumes "h \<le> 64"
  shows "cval (a, b OR mask h) = cval (a, b) div 2 ^ h * 2 ^ h + (2 ^ h - 1)"
proof -
  have "(2 :: nat) ^ h dvd unat a * 2 ^ 64" using assms by (intro dvd_mult le_imp_power_dvd)
  from round_dvd [OF this, of "unat b"]
  have "cval (a, b) div 2 ^ h * 2 ^ h = unat a * 2 ^ 64 + unat b div 2 ^ h * 2 ^ h"
    unfolding cval_def fst_conv snd_conv .
  moreover have "unat (b OR mask h) = unat b div 2 ^ h * 2 ^ h + (2 ^ h - 1)"
    using unat_or_mask [of h b] assms by simp
  then have "cval (a, b OR mask h) = unat a * 2 ^ 64 + (unat b div 2 ^ h * 2 ^ h + (2 ^ h - 1))"
    unfolding cval_def fst_conv snd_conv by (simp only:)
  ultimately show ?thesis by (simp only: add.assoc)
qed

lemma pow_split: "0 < (K :: nat) \<Longrightarrow> 0 < M \<Longrightarrow> (x * K + (K - 1)) * M + (M - 1) = x * (M * K) + (M * K - 1)"
  by (cases K; cases M) (auto simp: algebra_simps)

lemma cval_or_high:
  assumes "64 \<le> h" "h \<le> 128"
  shows "cval (a OR mask (h - 64), -1) = cval (a, b) div 2 ^ h * 2 ^ h + (2 ^ h - 1)"
proof -
  let ?k = "h - 64"
  have "(2 :: nat) ^ (64 + ?k) = 2 ^ 64 * 2 ^ ?k" by (rule power_add)
  then have p: "(2 :: nat) ^ h = 2 ^ 64 * 2 ^ ?k" using assms(1) by (simp only: le_add_diff_inverse)
  have m: "unat (-1 :: 64 word) = 2 ^ 64 - 1" by (simp add: unsigned_minus_1_eq_mask mask_eq_exp_minus_1)
  have d: "cval (a, b) div 2 ^ h = unat a div 2 ^ ?k"
    using unat64_less [of b] by (simp add: cval_def p div_mult2_eq)
  have o: "unat (a OR mask ?k) = unat a div 2 ^ ?k * 2 ^ ?k + (2 ^ ?k - 1)"
    using unat_or_mask [of ?k a] assms(2) by simp
  have "cval (a OR mask ?k, -1) = (unat a div 2 ^ ?k * 2 ^ ?k + (2 ^ ?k - 1)) * 2 ^ 64 + (2 ^ 64 - 1)"
    unfolding cval_def fst_conv snd_conv m o by (rule refl)
  also have "\<dots> = unat a div 2 ^ ?k * (2 ^ 64 * 2 ^ ?k) + (2 ^ 64 * 2 ^ ?k - 1)"
    by (rule pow_split) simp_all
  finally show ?thesis unfolding p d [unfolded p] .
qed

lemma cval_lastIPv6:
  assumes "prefix_ok p" "\<not> is4 (IP p)"
  shows "cval (lastIPv6Int p) = net_last p"
proof -
  let ?h = "host_bits p" and ?i = "ipToIPv6Int (IP p)"
  have ok: "net_ok p" "length (IP p) = 16" and base: "ipval (IP p) = net_base p"
    using assms(1) by (auto simp: prefix_ok_def)
  have h: "?h \<le> 128" "prefix_Len p \<le> 128" "?h = 128 - prefix_Len p"
    using ok(1) assms(2) by (auto simp: net_ok_def host_bits_def addr_bits_def prefix_Len_def)
  have v: "cval ?i = ipval (IP p)" by (rule cval_ipToIPv6Int [OF ok(2)])
  have m64: "mask64 64 = -1" by (simp add: mask64_def)
  have "cval (lastIPv6Int p) = cval ?i div 2 ^ ?h * 2 ^ ?h + (2 ^ ?h - 1)"
  proof (cases "64 < prefix_Len p")
    case True
    then have "lastIPv6Int p = (fst ?i, snd ?i OR mask ?h)"
      using h by (simp add: lastIPv6Int_def invmask_def Let_def m64 mask64_eq)
    then show ?thesis using cval_or_low [of ?h "fst ?i" "snd ?i"] True h by simp
  next
    case False
    then have "lastIPv6Int p = (fst ?i OR mask (?h - 64), -1)"
      using h by (simp add: lastIPv6Int_def invmask_def Let_def m64 mask64_eq)
    then show ?thesis using cval_or_high [of ?h "fst ?i" "snd ?i"] False h by simp
  qed
  then show ?thesis unfolding v by (simp only: net_last_def net_base_def)
qed

subsection \<open>Families along a prefix\<close>

text \<open>Read as 16 bytes, the addresses of an IPv6 prefix that spans the block of IPv4-mapped
  addresses change family on the way; the others keep the family of the prefix.\<close>

definition family_ok :: "prefix \<Rightarrow> bool" where
  "family_ok p \<longleftrightarrow> is4 (IP p) \<or> net_last p < mapped_base \<or> mapped_base + 2 ^ 32 \<le> net_base p"

lemma is4_16_iff:
  assumes "length ip = 16"
  shows "is4 ip \<longleftrightarrow> mapped_base \<le> ipval ip \<and> ipval ip < mapped_base + 2 ^ 32"
proof -
  let ?t = "take 12 ip" and ?d = "drop 12 ip"
  have l: "length ?t = 12" "length ?d = 4" using assms by auto
  have v: "ipval ip = be_nat ?t * 2 ^ 32 + be_nat ?d"
    using be_nat_append [of ?t ?d] l assms by (simp add: ipval_16)
  have d: "be_nat ?d < 2 ^ 32" using be_nat_less [of ?d] l by simp
  have "is4 ip \<longleftrightarrow> ?t = v4InV6Prefix" using assms by (simp add: is4_def to4_def)
  also have "\<dots> \<longleftrightarrow> be_nat ?t = be_nat v4InV6Prefix" using l by (simp add: be_nat_inj)
  also have "be_nat v4InV6Prefix = 0xffff" using be_nat_prefix [of "[]"] by simp
  also have "be_nat ?t = 0xffff \<longleftrightarrow> mapped_base \<le> ipval ip \<and> ipval ip < mapped_base + 2 ^ 32"
    using d v by (simp add: mapped_base_def) arith
  finally show ?thesis .
qed

lemma net_v4_range:
  assumes "net_ok n" "is4 (IP n)"
  shows "mapped_base \<le> net_base n" "net_last n < mapped_base + 2 ^ 32"
proof -
  let ?h = "host_bits n"
  have h: "?h \<le> 32" using assms(2) host_bits_le [of n] by (simp add: addr_bits_def)
  obtain x where x: "to4 (IP n) = Some x" using assms(2) by (auto simp: is4_def)
  then have v: "ipval (IP n) = mapped_base + be_nat x" and "length x = 4" using to4_Some_ipval by auto
  then have bx: "be_nat x < 2 ^ 32" using be_nat_less [of x] by simp
  have base: "net_base n = mapped_base + be_nat x div 2 ^ ?h * 2 ^ ?h"
    unfolding net_base_def v by (rule round_dvd [OF mapped_base_dvd [OF h]])
  then show "mapped_base \<le> net_base n" by simp
  have "(2 :: nat) ^ 32 = 2 ^ (32 - ?h) * 2 ^ ?h" using h by (simp flip: power_add)
  then have "be_nat x div 2 ^ ?h < 2 ^ (32 - ?h)" using bx by (simp add: less_mult_imp_div_less)
  then have "Suc (be_nat x div 2 ^ ?h) * 2 ^ ?h \<le> 2 ^ (32 - ?h) * 2 ^ ?h"
    by (intro mult_le_mono1) simp
  then have "be_nat x div 2 ^ ?h * 2 ^ ?h + 2 ^ ?h \<le> 2 ^ 32"
    using \<open>(2 :: nat) ^ 32 = 2 ^ (32 - ?h) * 2 ^ ?h\<close> by simp
  moreover have "(1 :: nat) \<le> 2 ^ ?h" by simp
  ultimately show "net_last n < mapped_base + 2 ^ 32"
    unfolding net_last_def base by linarith
qed

lemma family_ok_is4:
  assumes "prefix_ok p" "family_ok p" "length ip = 16" "net_base p \<le> ipval ip" "ipval ip \<le> net_last p"
  shows "is4 ip = is4 (IP p)"
proof (cases "is4 (IP p)")
  case True
  then show ?thesis
    using net_v4_range [of p] assms is4_16_iff [OF assms(3)] by (auto simp: prefix_ok_def)
next
  case False
  then show ?thesis using assms is4_16_iff [OF assms(3)] by (auto simp: family_ok_def)
qed

subsection \<open>The cursor as a counter\<close>

definition cursor_at :: "cursor \<Rightarrow> prefix \<Rightarrow> nat \<Rightarrow> bool" where
  "cursor_at c p v \<longleftrightarrow> cur_ps c = [p] \<and> cur_pi c = 0 \<and> cval (curr c) = v \<and>
     cval (cur_end c) = net_last p \<and> net_base p \<le> v \<and> v \<le> net_last p"

lemma net_last_less: "prefix_ok p \<Longrightarrow> net_last p < 2 ^ 128"
proof -
  assume p: "prefix_ok p"
  have "cval i < 2 ^ 128" for i
    using ipval_less [of "ipv6Int_ip i"] by (simp add: ipval_ipv6Int_ip)
  then show ?thesis using cval_lastIPv4 [OF p] cval_lastIPv6 [OF p] by metis
qed

lemma cursor_Next_at:
  assumes "cursor_at c p v"
  shows "v = net_last p \<Longrightarrow> cursor_Next c = (None, c)"
    and "prefix_ok p \<Longrightarrow> v < net_last p \<Longrightarrow>
      \<exists>c'. cursor_Next c = (Some (cursor_Pos c'), c') \<and> cursor_at c' p (v + 1)"
proof -
  have c: "cur_ps c = [p]" "cur_pi c = 0" "cval (curr c) = v" "cval (cur_end c) = net_last p"
    "net_base p \<le> v" "v \<le> net_last p"
    using assms by (auto simp: cursor_at_def)
  then have eq: "ipv6Int_cmp (curr c) (cur_end c) = 0 \<longleftrightarrow> v = net_last p"
    by (metis ipv6Int_cmp_0 cval_inj)
  then show "v = net_last p \<Longrightarrow> cursor_Next c = (None, c)"
    using c by (simp add: cursor_Next_def)
  assume p: "prefix_ok p" and less: "v < net_last p"
  let ?c = "c\<lparr>curr := ipv6Int_incr (curr c)\<rparr>"
  have "cval (ipv6Int_incr (curr c)) = v + 1"
    using cval_incr [of "curr c"] c less net_last_less [OF p] by simp
  then have "cursor_at ?c p (v + 1)" using c less by (simp add: cursor_at_def)
  moreover have "cursor_Next c = (Some (cursor_Pos ?c), ?c)"
    using eq less by (simp add: cursor_Next_def Let_def)
  ultimately show "\<exists>c'. cursor_Next c = (Some (cursor_Pos c'), c') \<and> cursor_at c' p (v + 1)" by blast
qed

lemma cursor_Pos_at:
  assumes "cursor_at c p v"
  shows "ipval (pos_IP (cursor_Pos c)) = v" "length (pos_IP (cursor_Pos c)) = 16"
    "pos_Prefix (cursor_Pos c) = p"
  using assms by (simp_all add: cursor_at_def cursor_Pos_def ipval_ipv6Int_ip)

lemma prefix_Equal_iff [simp]: "prefix_Equal p q \<longleftrightarrow> (p :: prefix) = q"
  by (auto simp: prefix_Equal_def compareAscending_def split: if_splits)

lemma cursor_set_at:
  assumes p: "prefix_ok p" and ps: "cur_ps c = [p]"
    and ip: "length ip = 16" "contains p ip"
  shows "\<exists>c'. cursor_set c 0 ip = Inr c' \<and> cursor_at c' p (ipval ip)"
proof -
  have ok: "net_ok p" "length (IP p) = 16" using p by (auto simp: prefix_ok_def)
  have r: "is4 ip = is4 (IP p)" "net_base p \<le> ipval ip" "ipval ip \<le> net_last p"
    using contains_range [OF ok(1), of ip] ip by (auto simp: valid_ip_def)
  let ?c = "c\<lparr>cur_pi := 0, curr := ipToIPv6Int ip, cur_start := ipToIPv6Int (IP p),
              cur_end := cursor_end ip p (cur_end c)\<rparr>"
  have "cursor_set c 0 ip = Inr ?c"
    using ps ip ok by (simp add: cursor_set_def to16_16)
  moreover have "cval (cursor_end ip p (cur_end c)) = net_last p"
    using r(1) cval_lastIPv4 [OF p] cval_lastIPv6 [OF p] ip(1)
    by (auto simp: cursor_end_def is4_def to16_16)
  then have "cursor_at ?c p (ipval ip)"
    using r ps ip(1) by (simp add: cursor_at_def cval_ipToIPv6Int)
  ultimately show ?thesis by blast
qed

lemma prefix_contains_own: "prefix_ok p \<Longrightarrow> contains p (IP p)"
  using contains_range [of p "IP p"] net_base_le_last [of p]
  by (auto simp: prefix_ok_def valid_ip_def)

lemma cursor_Set_at:
  assumes "prefix_ok p" "cursor_at c p v" "length ip = 16" "contains p ip"
  shows "\<exists>c'. cursor_Set c (Some \<lparr>pos_IP = ip, pos_Prefix = p\<rparr>) = Inr c' \<and> cursor_at c' p (ipval ip)"
  using cursor_set_at [OF assms(1) _ assms(3,4), of c] assms
  by (auto simp: cursor_at_def to16_16)

lemma NewCursor_at:
  assumes "prefix_ok p"
  shows "\<exists>c. NewCursor [p] = Inr (Some c) \<and> cursor_at c p (net_base p)"
proof -
  have l: "length (IP p) = 16" and b: "ipval (IP p) = net_base p" using assms by (auto simp: prefix_ok_def)
  have "clonePrefix p = p" using l by (simp add: clonePrefix_def to16_16)
  then have "newSortedPrefixes [p] = [p]"
    by (simp add: newSortedPrefixes_def sortByAscending_def)
  moreover let ?c = "\<lparr>curr = (0, 0), cur_start = (0, 0), cur_end = (0, 0), cur_pi = 0, cur_ps = [p]\<rparr>"
  obtain c where "cursor_set ?c 0 (IP p) = Inr c" "cursor_at c p (net_base p)"
    using cursor_set_at [OF assms, of ?c "IP p"] l b prefix_contains_own [OF assms] by auto
  ultimately show ?thesis by (simp add: NewCursor_def)
qed

section \<open>A property of the cursor\<close>

fun cursor_walk :: "nat \<Rightarrow> cursor \<Rightarrow> position option list" where
  "cursor_walk 0 c = []"
| "cursor_walk (Suc n) c = (case cursor_Next c of (r, c') \<Rightarrow> r # cursor_walk n c')"

lemma cursor_walk_at:
  assumes "prefix_ok p"
  shows "cursor_at c p v \<Longrightarrow> v + n = net_last p \<Longrightarrow>
    map (map_option (\<lambda>q. ipval (pos_IP q))) (cursor_walk (Suc n) c) = map Some [Suc v..<Suc (net_last p)] @ [None]"
proof (induction n arbitrary: c v)
  case 0
  then show ?case using cursor_Next_at(1) [OF 0(1)] by simp
next
  case (Suc n)
  obtain c' where c': "cursor_Next c = (Some (cursor_Pos c'), c')" "cursor_at c' p (Suc v)"
    using cursor_Next_at(2) [OF Suc.prems(1) assms] Suc.prems(2) by auto
  have "[Suc v..<Suc (net_last p)] = Suc v # [Suc (Suc v)..<Suc (net_last p)]"
    using Suc.prems(2) by (intro upt_conv_Cons) simp
  then show ?case
    using c' cursor_Pos_at(1) [OF c'(2)] Suc.IH [OF c'(2)] Suc.prems(2)
    by (simp del: upt_Suc cursor_walk.simps add: cursor_walk.simps(2) [of "Suc n"])
qed

definition demo_prefix :: prefix where
  "demo_prefix = \<lparr>IP = v4InV6Prefix @ [10, 0, 0, 0], Mask = CIDRMask 30 32\<rparr>"

text \<open>C32: A new cursor over one prefix stands on its first address, and \<open>Next\<close> visits every address of the
  prefix up to the last one in order, then returns nil.\<close>

theorem cursor_visits_prefix:
  assumes "prefix_ok p"
  shows "\<exists>c. NewCursor [p] = Inr (Some c) \<and>
    map (map_option (\<lambda>q. ipval (pos_IP q)))
      (Some (cursor_Pos c) # cursor_walk (Suc (net_last p - net_base p)) c) =
    map Some [net_base p..<Suc (net_last p)] @ [None]"
proof -
  obtain c where c: "NewCursor [p] = Inr (Some c)" "cursor_at c p (net_base p)"
    using NewCursor_at [OF assms] by blast
  have "net_base p + (net_last p - net_base p) = net_last p" using net_base_le_last [of p] by simp
  moreover have "[net_base p..<Suc (net_last p)] = net_base p # [Suc (net_base p)..<Suc (net_last p)]"
    using net_base_le_last [of p] by (intro upt_conv_Cons) simp
  ultimately show ?thesis
    using c cursor_Pos_at(1) [OF c(2)] cursor_walk_at [OF assms c(2)]
    by (simp del: upt_Suc cursor_walk.simps)
qed

theorem cursor_visits_prefix_witness:
  "\<exists>c. NewCursor [demo_prefix] = Inr (Some c) \<and>
    length (cursor_walk (Suc (net_last demo_prefix - net_base demo_prefix)) c) = 4"
proof -
  have ok: "prefix_ok demo_prefix" by code_simp
  have n: "net_last demo_prefix - net_base demo_prefix = 3" by code_simp
  have b: "net_base demo_prefix \<le> net_last demo_prefix" by (rule net_base_le_last)
  obtain c where c: "NewCursor [demo_prefix] = Inr (Some c)"
    "map (map_option (\<lambda>q. ipval (pos_IP q)))
      (Some (cursor_Pos c) # cursor_walk (Suc (net_last demo_prefix - net_base demo_prefix)) c) =
    map Some [net_base demo_prefix..<Suc (net_last demo_prefix)] @ [None]"
    using cursor_visits_prefix [OF ok] by blast
  have "Suc (length (cursor_walk (Suc (net_last demo_prefix - net_base demo_prefix)) c)) =
      Suc (Suc (net_last demo_prefix) - net_base demo_prefix)"
    using arg_cong [OF c(2), of length] by (simp del: upt_Suc cursor_walk.simps)
  then have "length (cursor_walk (Suc (net_last demo_prefix - net_base demo_prefix)) c) = 4"
    using n b by linarith
  then show ?thesis using c(1) by blast
qed

end
