(* ===== verification/Allocator.thy ===== *)
theory Allocator
  imports Memory_Store Ipaddr
begin

text \<open>
  The allocator for one subnet, \<open>simpleIPAllocator\<close> of ipallocator.go: it walks the subnet with a
  cursor, skips the reserved addresses and takes the first one its store accepts.  The store is an
  argument (an \<open>IPStore\<close> record and its state).  An outer \<open>None\<close> is a loop that never
  ends; \<open>Inl (Panic p)\<close> is a run-time panic.
\<close>

section \<open>Families and subnets\<close>

type_synonym Family = int

definition IPv4 :: Family where "IPv4 = 1"
definition IPv6 :: Family where "IPv6 = 2"
definition DualStack :: Family where "DualStack = IPv4 OR IPv6"

record Subnet =
  Subnet_Subnet :: ipnet
  Subnet_Start :: "ip option"
  Subnet_End :: "ip option"
  Subnet_Reserved :: "ip list"

definition Validate :: "Subnet \<Rightarrow> goerr + unit" where
  "Validate s =
     (let n = Subnet_Subnet s; sub = \<lparr>IP = ip_mask (IP n) (Mask n), Mask = Mask n\<rparr>
      in if \<not> ip_equal (IP n) (IP sub) then Inl NotASubnet
         else if (case Subnet_Start s of None \<Rightarrow> False | Some a \<Rightarrow> \<not> contains sub a) then Inl StartNotContained
         else if (case Subnet_End s of None \<Rightarrow> False | Some b \<Rightarrow> \<not> contains sub b) then Inl EndNotContained
         else if (case (Subnet_Start s, Subnet_End s) of (Some a, Some b) \<Rightarrow> b < a | _ \<Rightarrow> False)
         then Inl EndBeforeStart
         else if list_ex (\<lambda>r. \<not> contains sub r) (Subnet_Reserved s) then Inl ReservedNotContained
         else Inr ())"

definition ipFamily :: "ipnet \<Rightarrow> fault + Family" where
  "ipFamily ip =
     (if to16 (IP ip) \<noteq> None \<and> to4 (IP ip) \<noteq> None then Inr IPv4
      else if to16 (IP ip) \<noteq> None \<and> to4 (IP ip) = None then Inr IPv6
      else Inl (Panic InvalidAddress))"

definition ipMask :: "ipnet \<Rightarrow> fault + ipmask" where
  "ipMask ip =
     (case ipFamily ip of
        Inl e \<Rightarrow> Inl e
      | Inr f \<Rightarrow> if f = IPv4 then Inr (CIDRMask 32 32)
                 else if f = IPv6 then Inr (CIDRMask 128 128)
                 else Inl (Panic (InvalidFamily f)))"

section \<open>One subnet\<close>

record simpleIPAllocator =
  sia_f :: Family
  sia_sub :: Subnet
  sia_c :: cursor
  sia_start :: position
  sia_end :: "position option"

text \<open>The cursor, placed on the first address of the range.\<close>

definition start_cursor :: "Subnet \<Rightarrow> prefix \<Rightarrow> fault + cursor \<times> position" where
  "start_cursor subnet p =
     (case NewCursor [p] of
        Inl e \<Rightarrow> Inl e
      | Inr None \<Rightarrow> Inl (Panic NilDereference)
      | Inr (Some c) \<Rightarrow>
          (case Subnet_Start subnet of
             None \<Rightarrow> Inr (c, cursor_First c)
           | Some a \<Rightarrow>
               (let start = \<lparr>pos_IP = a, pos_Prefix = p\<rparr>
                in case cursor_Set c (Some start) of Inl e \<Rightarrow> Inl e | Inr c' \<Rightarrow> Inr (c', start))))"

text \<open>The position after the last address of the range; nil when there is none.\<close>

definition end_position :: "Subnet \<Rightarrow> prefix \<Rightarrow> fault + position option" where
  "end_position subnet p =
     (case Subnet_End subnet of
        None \<Rightarrow> Inr None
      | Some b \<Rightarrow>
          (case NewCursor [p] of
             Inl e \<Rightarrow> Inl e
           | Inr None \<Rightarrow> Inl (Panic NilDereference)
           | Inr (Some ctmp) \<Rightarrow>
               (case cursor_Set ctmp (Some \<lparr>pos_IP = b, pos_Prefix = p\<rparr>) of
                  Inl e \<Rightarrow> Inl e
                | Inr ctmp' \<Rightarrow> Inr (fst (cursor_Next ctmp')))))"

definition new_simple :: "Subnet \<Rightarrow> fault + simpleIPAllocator" where
  "new_simple subnet =
     (let p = NewPrefix (Subnet_Subnet subnet)
      in case start_cursor subnet p of
           Inl e \<Rightarrow> Inl e
         | Inr (c, start) \<Rightarrow>
             (case end_position subnet p of
                Inl e \<Rightarrow> Inl e
              | Inr end \<Rightarrow>
                  (case ipFamily p of
                     Inl e \<Rightarrow> Inl e
                   | Inr f \<Rightarrow> Inr \<lparr>sia_f = f, sia_sub = subnet\<lparr>Subnet_Subnet := p\<rparr>, sia_c = c,
                                  sia_start = start, sia_end = end\<rparr>)))"

definition SimpleIPAllocator :: "'s IPStore \<Rightarrow> Subnet \<Rightarrow> 's \<Rightarrow> (fault + simpleIPAllocator) \<times> 's" where
  "SimpleIPAllocator st subnet s =
     (case Validate subnet of
        Inl e \<Rightarrow> (Inl (Err (InvalidSubnet e)), s)
      | Inr _ \<Rightarrow>
          (case ip_SaveSubnet st (Subnet_Subnet subnet) s of
             (Inl e, s') \<Rightarrow> (Inl (Err e), s')
           | (Inr _, s') \<Rightarrow> (new_simple subnet, s')))"

text \<open>The loop over the reserved addresses, with the position \<open>p\<close> to try, the \<open>next\<close> one and the
  cursor.  A nil \<open>p\<close> is dereferenced by the following round.\<close>

fun skip_reserved :: "ip list \<Rightarrow> position option \<Rightarrow> position option \<Rightarrow> cursor \<Rightarrow>
    (fault + position option \<times> position option) \<times> cursor" where
  "skip_reserved [] p next c = (Inr (p, next), c)"
| "skip_reserved (r # rs) None next c = (Inl (Panic NilDereference), c)"
| "skip_reserved (r # rs) (Some p) next c =
     (let (p1, next1, c1) = (if ip_equal (pos_IP p) r then (next, cursor_Next c) else (Some p, next, c));
          (next2, c2) = (case next1 of
                           Some n \<Rightarrow> if ip_equal (pos_IP n) r then cursor_Next c1 else (next1, c1)
                         | None \<Rightarrow> (next1, c1))
      in skip_reserved rs p1 next2 c2)"

type_synonym 's alloc_result = "(fault + ipnet list option) \<times> simpleIPAllocator \<times> 's"

text \<open>The last part of the loop body: try the address at \<open>p\<close>.  \<open>Inl\<close> returns from \<open>Allocate\<close>,
  \<open>Inr\<close> goes round again.\<close>

definition try_address :: "'s IPStore \<Rightarrow> simpleIPAllocator \<Rightarrow> bool \<Rightarrow> position option \<Rightarrow> 's \<Rightarrow>
    's alloc_result + bool \<times> simpleIPAllocator \<times> 's" where
  "try_address st a out p s =
     (case p of
        None \<Rightarrow> Inl (Inl (Panic NilDereference), a, s)
      | Some q \<Rightarrow>
          (case ipMask (pos_Prefix q) of
             Inl e \<Rightarrow> Inl (Inl e, a, s)
           | Inr m \<Rightarrow>
               (let ip = \<lparr>IP = pos_IP q, Mask = m\<rparr>
                in case ip_AllocateIP st (pos_Prefix q) ip s of
                     (Inl e, s') \<Rightarrow> Inl (Inl (Err e), a, s')
                   | (Inr True, s') \<Rightarrow> Inl (Inr (Some [ip]), a, s')
                   | (Inr False, s') \<Rightarrow> Inr (out, a, s'))))"

definition at_end :: "position option \<Rightarrow> position option \<Rightarrow> bool" where
  "at_end next end =
     (case next of
        None \<Rightarrow> True
      | Some n \<Rightarrow> (case end of None \<Rightarrow> False | Some e \<Rightarrow> ip_equal (pos_IP n) (pos_IP e)))"

definition alloc_step :: "'s IPStore \<Rightarrow> bool \<Rightarrow> simpleIPAllocator \<Rightarrow> 's \<Rightarrow>
    's alloc_result + bool \<times> simpleIPAllocator \<times> 's" where
  "alloc_step st out a s =
     (let (next0, c1) = cursor_Next (sia_c a)
      in case skip_reserved (Subnet_Reserved (sia_sub a)) (Some (cursor_Pos (sia_c a))) next0 c1 of
           (Inl e, c2) \<Rightarrow> Inl (Inl e, a\<lparr>sia_c := c2\<rparr>, s)
         | (Inr (p, next), c2) \<Rightarrow>
             if at_end next (sia_end a) then
               (if out then Inl (Inr None, a\<lparr>sia_c := c2\<rparr>, s)
                else case cursor_Set c2 (Some (sia_start a)) of
                       Inl e \<Rightarrow> Inl (Inl e, a\<lparr>sia_c := c2\<rparr>, s)
                     | Inr c3 \<Rightarrow> try_address st (a\<lparr>sia_c := c3\<rparr>) True p s)
             else try_address st (a\<lparr>sia_c := c2\<rparr>) out p s)"

partial_function (option) alloc_loop ::
  "'s IPStore \<Rightarrow> bool \<Rightarrow> simpleIPAllocator \<Rightarrow> 's \<Rightarrow> 's alloc_result option" where
  "alloc_loop st out a s =
     (case alloc_step st out a s of
        Inl r \<Rightarrow> Some r
      | Inr (out', a', s') \<Rightarrow> alloc_loop st out' a' s')"

declare alloc_loop.simps [code]

text \<open>\<open>Inr None\<close> is the code's \<open>nil, false, nil\<close>.\<close>

definition simple_Allocate ::
  "'s IPStore \<Rightarrow> Family \<Rightarrow> simpleIPAllocator \<Rightarrow> 's \<Rightarrow> 's alloc_result option" where
  "simple_Allocate st family a s =
     (if family \<noteq> sia_f a then Some (Inl (Err WrongFamily), a, s) else alloc_loop st False a s)"

definition simple_Free :: "'s IPStore \<Rightarrow> simpleIPAllocator \<Rightarrow> ipnet \<Rightarrow> 's \<Rightarrow> (goerr + unit) \<times> 's" where
  "simple_Free st a ip s =
     (if \<not> contains (Subnet_Subnet (sia_sub a)) (IP ip) then (Inr (), s)
      else ip_FreeIP st (Subnet_Subnet (sia_sub a)) ip s)"

section \<open>Positions as numbers\<close>

definition pos_of :: "prefix \<Rightarrow> nat \<Rightarrow> position option" where
  "pos_of p x = (if x \<le> net_last p then Some \<lparr>pos_IP = be_bytes 16 x, pos_Prefix = p\<rparr> else None)"

definition alloc_addr :: "prefix \<Rightarrow> nat \<Rightarrow> ipnet" where
  "alloc_addr p x =
     \<lparr>IP = be_bytes 16 x, Mask = (if is4 (IP p) then CIDRMask 32 32 else CIDRMask 128 128)\<rparr>"

lemma ipv6Int_ip_cval: "ipv6Int_ip i = be_bytes 16 (cval i)"
proof -
  have "be_nat (be_bytes 16 (cval i)) = be_nat (ipv6Int_ip i)"
    using ipval_less [of "ipv6Int_ip i"]
    by (simp add: be_nat_be_bytes be_nat_ipv6Int_ip ipval_ipv6Int_ip)
  then show ?thesis using be_nat_inj [of "be_bytes 16 (cval i)" "ipv6Int_ip i"] by simp
qed

lemma ipval_be_bytes: "x < 2 ^ 128 \<Longrightarrow> ipval (be_bytes 16 x) = x"
  by (simp add: ipval_16 be_nat_be_bytes)

lemma cursor_Pos_of: "cursor_at c p v \<Longrightarrow> Some (cursor_Pos c) = pos_of p v"
  by (simp add: cursor_at_def cursor_Pos_def pos_of_def ipv6Int_ip_cval)

lemma cursor_Next_of:
  assumes "prefix_ok p" "cursor_at c p (min y (net_last p))"
  shows "\<exists>c'. cursor_Next c = (pos_of p (min (Suc y) (Suc (net_last p))), c') \<and>
    cursor_at c' p (min (min (Suc y) (Suc (net_last p))) (net_last p))"
proof (cases "y < net_last p")
  case True
  then obtain c' where "cursor_Next c = (Some (cursor_Pos c'), c')" "cursor_at c' p (Suc y)"
    using cursor_Next_at(2) [OF assms(2,1)] by auto
  then show ?thesis using True cursor_Pos_of [of c' p "Suc y"] by (simp add: min_def)
next
  case False
  then have "min y (net_last p) = net_last p" by simp
  then show ?thesis using cursor_Next_at(1) [OF assms(2)] assms(2) False by (simp add: pos_of_def)
qed

lemma valid_ip_to16:
  "valid_ip ip \<Longrightarrow> \<exists>x. to16 ip = Some x \<and> length x = 16 \<and> ipval x = ipval ip \<and> is4 x = is4 ip"
  by (cases ip rule: to4_cases) (auto simp: valid_ip_def ipval_def to16_def is4_def to4_def)

lemma cursor_Set_valid:
  assumes "prefix_ok p" "cursor_at c p v" "valid_ip ip" "contains p ip"
  shows "\<exists>c'. cursor_Set c (Some \<lparr>pos_IP = ip, pos_Prefix = p\<rparr>) = Inr c' \<and> cursor_at c' p (ipval ip)"
proof -
  obtain x where x: "to16 ip = Some x" "length x = 16" "ipval x = ipval ip" "is4 x = is4 ip"
    using valid_ip_to16 [OF assms(3)] by blast
  have "net_ok p" using assms(1) by (simp add: prefix_ok_def)
  then have "contains p x"
    using assms(3,4) x by (simp add: contains_range valid_ip_def)
  then obtain c' where "cursor_set c 0 x = Inr c'" "cursor_at c' p (ipval ip)"
    using cursor_set_at [OF assms(1) _ x(2), of c] assms(2) x by (auto simp: cursor_at_def)
  then show ?thesis using assms(2,4) x by (simp add: cursor_at_def)
qed

subsection \<open>The reserved addresses\<close>

text \<open>The loop over the reserved addresses on numbers: \<open>L\<close> is the last address, \<open>Suc L\<close> is nil.\<close>

fun walk_skip :: "nat \<Rightarrow> nat list \<Rightarrow> nat \<Rightarrow> nat \<Rightarrow> (nat \<times> nat) option" where
  "walk_skip L [] x y = Some (x, y)"
| "walk_skip L (r # rs) x y =
     (if L < x then None
      else if x = r then walk_skip L rs y (min (Suc y) (Suc L))
      else walk_skip L rs x (if y \<le> L \<and> y = r then Suc y else y))"

lemma ip_equal_be_bytes:
  "x < 2 ^ 128 \<Longrightarrow> valid_ip r \<Longrightarrow> ip_equal (be_bytes 16 x) r \<longleftrightarrow> x = ipval r"
  by (simp add: ip_equal_iff valid_ip_def ipval_be_bytes)

lemma skip_reserved_walk:
  assumes p: "prefix_ok p"
  shows "\<forall>r\<in>set rs. valid_ip r \<Longrightarrow> cursor_at c p (min y (net_last p)) \<Longrightarrow> x < y \<or> net_last p < x \<Longrightarrow>
    y \<le> Suc (net_last p) \<Longrightarrow>
    \<exists>c' w. skip_reserved rs (pos_of p x) (pos_of p y) c =
      ((case walk_skip (net_last p) (map ipval rs) x y of
          None \<Rightarrow> Inl (Panic NilDereference)
        | Some (x', y') \<Rightarrow> Inr (pos_of p x', pos_of p y')), c') \<and> cursor_at c' p w \<and>
      (\<forall>x' y'. walk_skip (net_last p) (map ipval rs) x y = Some (x', y') \<longrightarrow> w = min y' (net_last p))"
proof (induction rs arbitrary: c x y)
  case (Cons r rs)
  let ?L = "net_last p"
  have L: "?L < 2 ^ 128" using net_last_less [OF p] .
  have eq: "ip_equal (be_bytes 16 z) r \<longleftrightarrow> z = ipval r" if "z \<le> ?L" for z
    using that L Cons.prems(1) by (intro ip_equal_be_bytes) auto
  obtain c1 where c1: "cursor_Next c = (pos_of p (min (Suc y) (Suc ?L)), c1)"
    "cursor_at c1 p (min (min (Suc y) (Suc ?L)) ?L)"
    using cursor_Next_of [OF p Cons.prems(2)] by blast
  obtain c2 where c2: "cursor_Next c1 = (pos_of p (min (Suc (min (Suc y) (Suc ?L))) (Suc ?L)), c2)"
    "cursor_at c2 p (min (min (Suc (min (Suc y) (Suc ?L))) (Suc ?L)) ?L)"
    using cursor_Next_of [OF p c1(2)] by blast
  have v: "\<forall>r\<in>set rs. valid_ip r" using Cons.prems(1) by simp
  show ?case
  proof (cases "?L < x")
    case True
    then show ?thesis using Cons.prems(2) by (auto simp: pos_of_def)
  next
    case nil: False
    then have xy: "x < y" using Cons.prems(3) by simp
    show ?thesis
    proof (cases "x = ipval r")
      case True
      consider "y < ?L" | "y = ?L" | "y = Suc ?L" using Cons.prems(4) by linarith
      then show ?thesis
        using c1 Cons.IH [OF v, of c1 "min (Suc y) (Suc ?L)" y] nil True xy eq [of x] eq [of "Suc y"]
        by cases (auto simp: pos_of_def min_def split: if_splits)
    next
      case False
      then show ?thesis
        using c1 Cons.IH [OF v, of c y x] Cons.IH [OF v, of c1 "min (Suc y) (Suc ?L)" x] Cons.prems(2,4)
          nil xy eq [of x] eq [of y]
        by (cases "y \<le> ?L") (auto simp: pos_of_def min_def split: if_splits)
    qed
  qed
qed auto

lemma walk_skip_bounds:
  "walk_skip L rs x y = Some (x', y') \<Longrightarrow> x < y \<or> L < x \<and> L < y \<Longrightarrow> y \<le> Suc L \<Longrightarrow>
    x \<le> x' \<and> y \<le> y' \<and> y' \<le> Suc L \<and> (x' < y' \<or> L < x' \<and> L < y')"
proof (induction L rs x y rule: walk_skip.induct)
  case (2 L r rs x y)
  consider "L < x" | "\<not> L < x" "x = r" | "\<not> L < x" "x \<noteq> r" by blast
  then show ?case
  proof cases
    case 1
    then show ?thesis using 2 by simp
  next
    case 2
    then show ?thesis using "2.prems" "2.IH"(1) by (fastforce simp: min_def split: if_splits)
  next
    case 3
    then show ?thesis using "2.prems" "2.IH"(2) by (fastforce split: if_splits)
  qed
qed auto

text \<open>In ascending order the loop finds the first address that is not reserved, and the one after
  it, as long as there is one: \<open>D\<close> are the reserved addresses the loop has passed.\<close>

lemma walk_skip_sorted:
  "sorted_wrt (<) rs \<Longrightarrow> \<forall>d\<in>D. \<forall>r\<in>set rs. d < r \<Longrightarrow> x < y \<Longrightarrow> y \<le> Suc L \<Longrightarrow> x \<notin> D \<Longrightarrow>
    y \<le> L \<longrightarrow> y \<notin> D \<Longrightarrow> \<forall>z. x < z \<and> z < y \<longrightarrow> z \<in> D \<Longrightarrow> \<exists>z. x \<le> z \<and> z \<le> L \<and> z \<notin> D \<union> set rs \<Longrightarrow>
    \<exists>x' y'. walk_skip L rs x y = Some (x', y') \<and> x \<le> x' \<and> x' < y' \<and> y' \<le> Suc L \<and>
      x' \<notin> D \<union> set rs \<and> (y' \<le> L \<longrightarrow> y' \<notin> D \<union> set rs) \<and>
      (\<forall>z. x \<le> z \<and> z < x' \<longrightarrow> z \<in> D \<union> set rs) \<and> (\<forall>z. x' < z \<and> z < y' \<longrightarrow> z \<in> D \<union> set rs)"
proof (induction rs arbitrary: D x y)
  case (Cons r rs)
  have D: "\<forall>d\<in>insert r D. \<forall>r'\<in>set rs. d < r'" "sorted_wrt (<) rs"
    and Dr: "\<forall>d\<in>D. d < r" and un: "insert r D \<union> set rs = D \<union> set (r # rs)"
    using Cons.prems(1,2) by auto
  obtain z where z: "x \<le> z" "z \<le> L" "z \<notin> D \<union> set (r # rs)" using Cons.prems(8) by blast
  have x: "x \<le> L" using Cons.prems(3,4) by simp
  show ?case
  proof (cases "x = r")
    case True
    have "y \<le> z" using z True Cons.prems(7) by (metis UnCI linorder_not_less list.set_intros(1) order_le_less)
    then have y: "y \<le> L" using z(2) by simp
    have dy: "y \<notin> insert r D" "Suc y \<notin> insert r D"
      using Cons.prems(3,6) y True Dr by auto
    obtain x' y' where "walk_skip L rs y (Suc y) = Some (x', y') \<and> y \<le> x' \<and> x' < y' \<and> y' \<le> Suc L \<and>
      x' \<notin> insert r D \<union> set rs \<and> (y' \<le> L \<longrightarrow> y' \<notin> insert r D \<union> set rs) \<and>
      (\<forall>z. y \<le> z \<and> z < x' \<longrightarrow> z \<in> insert r D \<union> set rs) \<and>
      (\<forall>z. x' < z \<and> z < y' \<longrightarrow> z \<in> insert r D \<union> set rs)"
      using Cons.IH [of "insert r D" y "Suc y"] dy y D \<open>y \<le> z\<close> z by auto
    moreover have "walk_skip L (r # rs) x y = walk_skip L rs y (Suc y)"
      using True x y by (simp add: min_def)
    moreover have "w \<in> D \<union> set (r # rs)" if "x \<le> w" "w < y" for w
      using that True Cons.prems(7) by (cases "w = x") auto
    moreover have "\<forall>z. x \<le> z \<and> z < x' \<longrightarrow> z \<in> D \<union> set (r # rs)"
    proof (intro allI impI)
      fix w assume "x \<le> w \<and> w < x'"
      then show "w \<in> D \<union> set (r # rs)" using calculation by (cases "w < y") auto
    qed
    ultimately show ?thesis
      unfolding un using Cons.prems(3) by (intro exI [of _ x'] exI [of _ y']) simp
  next
    case False
    let ?y = "if y \<le> L \<and> y = r then Suc y else y"
    have "\<exists>x' y'. walk_skip L rs x ?y = Some (x', y') \<and> x \<le> x' \<and> x' < y' \<and> y' \<le> Suc L \<and>
      x' \<notin> insert r D \<union> set rs \<and> (y' \<le> L \<longrightarrow> y' \<notin> insert r D \<union> set rs) \<and>
      (\<forall>z. x \<le> z \<and> z < x' \<longrightarrow> z \<in> insert r D \<union> set rs) \<and>
      (\<forall>z. x' < z \<and> z < y' \<longrightarrow> z \<in> insert r D \<union> set rs)"
    proof (rule Cons.IH [OF D(2,1)])
      show "x < ?y" "?y \<le> Suc L" "x \<notin> insert r D" using Cons.prems(3,4,5) False by auto
      show "?y \<le> L \<longrightarrow> ?y \<notin> insert r D" using Cons.prems(6) Dr by auto
      show "\<forall>z. x < z \<and> z < ?y \<longrightarrow> z \<in> insert r D"
        using Cons.prems(7) by (auto simp: less_Suc_eq split: if_splits)
      show "\<exists>z. x \<le> z \<and> z \<le> L \<and> z \<notin> insert r D \<union> set rs" using z by auto
    qed
    then show ?thesis unfolding un using False x by simp
  qed
qed auto

section \<open>One round of the allocation loop\<close>

text \<open>What an allocator never changes, and that fits its prefix \<open>p\<close>.\<close>

definition alloc_static :: "simpleIPAllocator \<Rightarrow> prefix \<Rightarrow> bool" where
  "alloc_static a p \<longleftrightarrow> prefix_ok p \<and> family_ok p \<and> Subnet_Subnet (sia_sub a) = p \<and>
     (\<forall>r\<in>set (Subnet_Reserved (sia_sub a)). valid_ip r) \<and>
     sia_f a = (if is4 (IP p) then IPv4 else IPv6) \<and>
     pos_Prefix (sia_start a) = p \<and> valid_ip (pos_IP (sia_start a)) \<and> contains p (pos_IP (sia_start a)) \<and>
     (\<forall>e. sia_end a = Some e \<longrightarrow> valid_ip (pos_IP e) \<and>
        net_base p < ipval (pos_IP e) \<and> ipval (pos_IP e) \<le> net_last p)"

definition a_start :: "simpleIPAllocator \<Rightarrow> nat" where
  "a_start a = ipval (pos_IP (sia_start a))"

text \<open>The last address of the range.\<close>

definition a_last :: "simpleIPAllocator \<Rightarrow> nat" where
  "a_last a = (case sia_end a of
     None \<Rightarrow> net_last (Subnet_Subnet (sia_sub a)) | Some e \<Rightarrow> ipval (pos_IP e) - 1)"

definition a_reserved :: "simpleIPAllocator \<Rightarrow> nat list" where
  "a_reserved a = map ipval (Subnet_Reserved (sia_sub a))"

lemma alloc_static_cursor [simp]: "alloc_static (a\<lparr>sia_c := c\<rparr>) p \<longleftrightarrow> alloc_static a p"
  by (simp add: alloc_static_def)

lemma a_numbers_cursor [simp]:
  "a_start (a\<lparr>sia_c := c\<rparr>) = a_start a" "a_last (a\<lparr>sia_c := c\<rparr>) = a_last a"
  "a_reserved (a\<lparr>sia_c := c\<rparr>) = a_reserved a"
  by (simp_all add: a_start_def a_last_def a_reserved_def split: option.split)

lemma alloc_static_range:
  assumes "alloc_static a p"
  shows "net_base p \<le> a_start a" "a_start a \<le> net_last p" "a_last a \<le> net_last p" "net_ok p"
    "prefix_ok p" "Subnet_Subnet (sia_sub a) = p"
  using assms contains_range [of p "pos_IP (sia_start a)"]
  by (auto simp: alloc_static_def a_start_def a_last_def prefix_ok_def split: option.splits)

lemma at_end_of:
  assumes "alloc_static a p" "y \<le> Suc (net_last p)"
  shows "at_end (pos_of p y) (sia_end a) \<longleftrightarrow> y = Suc (net_last p) \<or> y = Suc (a_last a)"
proof (cases "y \<le> net_last p")
  case True
  have p: "prefix_ok p" using assms(1) by (simp add: alloc_static_def)
  then have "y < 2 ^ 128" using True net_last_less [OF p] by simp
  then show ?thesis
    using True assms(1) ip_equal_be_bytes [of y]
    by (auto simp: at_end_def pos_of_def alloc_static_def a_last_def split: option.splits)
next
  case False
  then show ?thesis using assms(2) by (simp add: at_end_def pos_of_def)
qed

lemma alloc_addr_ok:
  assumes "prefix_ok p" "family_ok p" "net_base p \<le> x" "x \<le> net_last p"
  shows "net_ok (alloc_addr p x)" "contains p (IP (alloc_addr p x))" "ipval (IP (alloc_addr p x)) = x"
    "valid_ip (IP (alloc_addr p x))" "is4 (IP (alloc_addr p x)) = is4 (IP p)"
proof -
  let ?ip = "be_bytes 16 x"
  have v: "ipval ?ip = x" using assms(4) net_last_less [OF assms(1)] by (intro ipval_be_bytes) simp
  have f: "is4 ?ip = is4 (IP p)" using family_ok_is4 [OF assms(1,2), of ?ip] assms v by simp
  show "valid_ip (IP (alloc_addr p x))" by (simp add: valid_ip_def alloc_addr_def)
  show "ipval (IP (alloc_addr p x)) = x" using v by (simp add: alloc_addr_def)
  show "is4 (IP (alloc_addr p x)) = is4 (IP p)" using f by (simp add: alloc_addr_def)
  show "contains p (IP (alloc_addr p x))"
    using assms v f by (simp add: contains_range prefix_ok_def valid_ip_def alloc_addr_def)
  show "net_ok (alloc_addr p x)"
    using f by (simp add: net_ok_def alloc_addr_def valid_ip_def addr_bits_def CIDRMask_32 CIDRMask_128
        mask_ones_cidr)
qed

lemma ipMask_of: "alloc_static a p \<Longrightarrow>
    ipMask p = Inr (if is4 (IP p) then CIDRMask 32 32 else CIDRMask 128 128)"
  by (auto simp: alloc_static_def prefix_ok_def ipMask_def ipFamily_def is4_def to16_16 IPv4_def IPv6_def)

lemma try_address_of:
  assumes "alloc_static a p"
  shows "try_address st a' out (pos_of p x) s =
    (if net_last p < x then Inl (Inl (Panic NilDereference), a', s)
     else case ip_AllocateIP st p (alloc_addr p x) s of
            (Inl e, s') \<Rightarrow> Inl (Inl (Err e), a', s')
          | (Inr True, s') \<Rightarrow> Inl (Inr (Some [alloc_addr p x]), a', s')
          | (Inr False, s') \<Rightarrow> Inr (out, a', s'))"
  unfolding try_address_def pos_of_def alloc_addr_def using ipMask_of [OF assms] by (simp add: Let_def)

text \<open>One round from the address \<open>v\<close>, on numbers.\<close>

lemma alloc_step_of:
  assumes a: "alloc_static a p" and v: "cursor_at (sia_c a) p v"
  shows "\<exists>c' w. cursor_at c' p w \<and> alloc_step st out a s =
    (case walk_skip (net_last p) (a_reserved a) v (Suc v) of
       None \<Rightarrow> Inl (Inl (Panic NilDereference), a\<lparr>sia_c := c'\<rparr>, s)
     | Some (x, y) \<Rightarrow>
         if (y = Suc (net_last p) \<or> y = Suc (a_last a)) \<and> out then Inl (Inr None, a\<lparr>sia_c := c'\<rparr>, s)
         else if y = Suc (net_last p) \<or> y = Suc (a_last a) then try_address st (a\<lparr>sia_c := c'\<rparr>) True (pos_of p x) s
         else try_address st (a\<lparr>sia_c := c'\<rparr>) out (pos_of p x) s) \<and>
    (\<forall>x y. walk_skip (net_last p) (a_reserved a) v (Suc v) = Some (x, y) \<longrightarrow>
       w = (if y = Suc (net_last p) \<or> y = Suc (a_last a) then if out then min y (net_last p) else a_start a else y))"
proof -
  let ?L = "net_last p" and ?rs = "Subnet_Reserved (sia_sub a)"
  have p: "prefix_ok p" and vL: "v \<le> ?L"
    using a v by (auto simp: alloc_static_def cursor_at_def)
  obtain c1 where c1: "cursor_Next (sia_c a) = (pos_of p (Suc v), c1)" "cursor_at c1 p (min (Suc v) ?L)"
    using cursor_Next_of [OF p, of "sia_c a" v] v vL by (auto simp: min_def split: if_splits)
  obtain c2 w where c2: "skip_reserved ?rs (Some (cursor_Pos (sia_c a))) (pos_of p (Suc v)) c1 =
      ((case walk_skip ?L (a_reserved a) v (Suc v) of
          None \<Rightarrow> Inl (Panic NilDereference)
        | Some (x', y') \<Rightarrow> Inr (pos_of p x', pos_of p y')), c2)" "cursor_at c2 p w"
    "\<forall>x' y'. walk_skip ?L (a_reserved a) v (Suc v) = Some (x', y') \<longrightarrow> w = min y' ?L"
    using skip_reserved_walk [OF p, of ?rs c1 "Suc v" v] c1(2) a vL
    unfolding cursor_Pos_of [OF v] a_reserved_def alloc_static_def by auto
  show ?thesis
  proof (cases "walk_skip ?L (a_reserved a) v (Suc v)")
    case None
    then show ?thesis using c1 c2 by (intro exI [of _ c2] exI [of _ w]) (simp add: alloc_step_def)
  next
    case (Some xy)
    then obtain x y where xy: "walk_skip ?L (a_reserved a) v (Suc v) = Some (x, y)" by (cases xy) auto
    have y: "y \<le> Suc ?L" using walk_skip_bounds [OF xy] vL by simp
    note e = at_end_of [OF a y]
    have w: "w = min y ?L" using c2(3) xy by blast
    have step: "alloc_step st out a s =
      (if at_end (pos_of p y) (sia_end a) then
         (if out then Inl (Inr None, a\<lparr>sia_c := c2\<rparr>, s)
          else case cursor_Set c2 (Some (sia_start a)) of
                 Inl e \<Rightarrow> Inl (Inl e, a\<lparr>sia_c := c2\<rparr>, s)
               | Inr c3 \<Rightarrow> try_address st (a\<lparr>sia_c := c3\<rparr>) True (pos_of p x) s)
       else try_address st (a\<lparr>sia_c := c2\<rparr>) out (pos_of p x) s)"
      using c1 c2 xy by (simp add: alloc_step_def)
    obtain c3 where c3: "cursor_Set c2 (Some (sia_start a)) = Inr c3" "cursor_at c3 p (a_start a)"
    proof -
      have "sia_start a = \<lparr>pos_IP = pos_IP (sia_start a), pos_Prefix = p\<rparr>"
        "valid_ip (pos_IP (sia_start a))" "contains p (pos_IP (sia_start a))"
        using a by (auto simp: alloc_static_def)
      then show ?thesis using cursor_Set_valid [OF p c2(2)] that by (metis a_start_def)
    qed
    show ?thesis
    proof (cases "(y = Suc ?L \<or> y = Suc (a_last a)) \<and> \<not> out")
      case True
      then show ?thesis using step c3 e xy by (intro exI [of _ c3] exI [of _ "a_start a"]) simp
    next
      case False
      then show ?thesis using step c2(2) e xy w y by (intro exI [of _ c2] exI [of _ w]) (auto simp: min_def)
    qed
  qed
qed

section \<open>The loop ends and hands out a free address\<close>

definition alloc_safe :: "prefix \<Rightarrow> alloc_view \<Rightarrow> alloc_view \<Rightarrow> fault + ipnet list option \<Rightarrow> bool" where
  "alloc_safe p v v' r =
     (case r of
        Inr (Some ips) \<Rightarrow> (\<exists>x. ips = [alloc_addr p x] \<and> net_base p \<le> x \<and> x \<le> net_last p \<and>
          v (ipnet_String p) \<noteq> None \<and> \<not> allocated v p (alloc_addr p x) \<and>
          v' = view_insert p (alloc_addr p x) v)
      | _ \<Rightarrow> v' = v)"

text \<open>\<open>alloc_at a p v\<close>: an allocator for \<open>p\<close> whose cursor is on \<open>v\<close>.\<close>

definition alloc_at :: "simpleIPAllocator \<Rightarrow> prefix \<Rightarrow> nat \<Rightarrow> bool" where
  "alloc_at a p v \<longleftrightarrow> alloc_static a p \<and> cursor_at (sia_c a) p v"

definition same_static :: "simpleIPAllocator \<Rightarrow> simpleIPAllocator \<Rightarrow> bool" where
  "same_static a b \<longleftrightarrow> a\<lparr>sia_c := sia_c b\<rparr> = b"

lemma same_static_trans: "same_static a b \<Longrightarrow> same_static b c \<Longrightarrow> same_static a c"
  by (cases a; cases b; cases c) (simp add: same_static_def)

lemma same_static_cursor [simp]: "same_static a (a\<lparr>sia_c := c\<rparr>)"
  by (simp add: same_static_def)

lemma same_static_numbers:
  "same_static a b \<Longrightarrow> a_start b = a_start a \<and> a_last b = a_last a \<and> a_reserved b = a_reserved a \<and>
    sia_f b = sia_f a \<and> sia_sub b = sia_sub a \<and> sia_end b = sia_end a"
  unfolding same_static_def by (metis a_numbers_cursor simpleIPAllocator.ext_inject
      simpleIPAllocator.surjective simpleIPAllocator.update_convs(3))

lemma try_address_state: "try_address st a out p s = Inr (out', a', s') \<Longrightarrow> a' = a"
  by (auto simp: try_address_def Let_def split: option.splits sum.splits prod.splits bool.splits)

lemma alloc_step_state:
  assumes "alloc_at a p v" "alloc_step st out a s = Inr (out', a', s')"
  shows "\<exists>c w. cursor_at c p w \<and> a' = a\<lparr>sia_c := c\<rparr>"
proof -
  have st: "alloc_static a p" "cursor_at (sia_c a) p v" using assms(1) by (auto simp: alloc_at_def)
  obtain c w where c: "cursor_at c p w" and step: "alloc_step st out a s =
    (case walk_skip (net_last p) (a_reserved a) v (Suc v) of
       None \<Rightarrow> Inl (Inl (Panic NilDereference), a\<lparr>sia_c := c\<rparr>, s)
     | Some (x, y) \<Rightarrow>
         if (y = Suc (net_last p) \<or> y = Suc (a_last a)) \<and> out then Inl (Inr None, a\<lparr>sia_c := c\<rparr>, s)
         else if y = Suc (net_last p) \<or> y = Suc (a_last a) then try_address st (a\<lparr>sia_c := c\<rparr>) True (pos_of p x) s
         else try_address st (a\<lparr>sia_c := c\<rparr>) out (pos_of p x) s)"
    using alloc_step_of [OF st, of st out s] by blast
  have "a' = a\<lparr>sia_c := c\<rparr>"
    using assms(2) unfolding step by (auto split: option.splits if_splits prod.splits dest: try_address_state)
  then show ?thesis using c by blast
qed

context ip_store
begin

lemma try_address_cases:
  assumes "alloc_static a p" "inv s" "net_base p \<le> x"
  obtains (nil) "net_last p < x" "try_address st a' out (pos_of p x) s = Inl (Inl (Panic NilDereference), a', s)"
  | (failed) e s' where "x \<le> net_last p" "try_address st a' out (pos_of p x) s = Inl (Inl (Err e), a', s')"
      "inv s'" "other s' = other s" "view s' = view s" "ip_AllocateIP st p (alloc_addr p x) s = (Inl e, s')"
  | (fresh) s' where "x \<le> net_last p" "try_address st a' out (pos_of p x) s = Inl (Inr (Some [alloc_addr p x]), a', s')"
      "inv s'" "other s' = other s" "view s (ipnet_String p) \<noteq> None" "\<not> allocated (view s) p (alloc_addr p x)"
      "view s' = view_insert p (alloc_addr p x) (view s)"
  | (taken) s' where "x \<le> net_last p" "try_address st a' out (pos_of p x) s = Inr (out, a', s')"
      "inv s'" "other s' = other s" "allocated (view s) p (alloc_addr p x)" "view s' = view s"
proof (cases "net_last p < x")
  case True
  then show ?thesis using nil try_address_of [OF assms(1), of st a' out x s] by simp
next
  case False
  then have x: "x \<le> net_last p" by simp
  have ok: "prefix_ok p" "family_ok p" "net_ok p" using assms(1) by (auto simp: alloc_static_def prefix_ok_def)
  obtain r s' where r: "ip_AllocateIP st p (alloc_addr p x) s = (r, s')" by fastforce
  have i: "inv s'" "other s' = other s"
    using AllocateIP_inv [OF assms(2) ok(3) alloc_addr_ok(1) [OF ok(1,2) assms(3) x]]
      AllocateIP_other [of p "alloc_addr p x" s] r by auto
  have t: "try_address st a' out (pos_of p x) s =
    (case r of Inl e \<Rightarrow> Inl (Inl (Err e), a', s')
     | Inr b \<Rightarrow> if b then Inl (Inr (Some [alloc_addr p x]), a', s') else Inr (out, a', s'))"
    using x r try_address_of [OF assms(1), of st a' out x s] by (auto split: sum.split)
  show ?thesis
  proof (cases r)
    case (Inl e)
    then show ?thesis
      using failed [OF x _ i, of e] r t AllocateIP_error [OF assms(2), of p "alloc_addr p x" e s'] by simp
  next
    case (Inr b)
    show ?thesis
    proof (cases b)
      case True
      then show ?thesis
        using fresh [OF x _ i] r t Inr AllocateIP_done [OF assms(2), of p "alloc_addr p x" s'] by simp
    next
      case False
      then show ?thesis
        using taken [OF x _ i] r t Inr AllocateIP_taken [OF assms(2), of p "alloc_addr p x" s'] by simp
    qed
  qed
qed

lemma alloc_loop_safe:
  assumes "alloc_at a p v" "inv s"
  shows "\<exists>r a' s' w. alloc_loop st out a s = Some (r, a', s') \<and> alloc_at a' p w \<and> same_static a a' \<and>
    inv s' \<and> other s' = other s \<and> alloc_safe p (view s) (view s') r"
  using assms
proof (induction "(if out then 0 else Suc (net_last p)) + (net_last p - v)" arbitrary: out a s v rule: less_induct)
  case less
  let ?L = "net_last p"
  have a: "alloc_static a p" and c: "cursor_at (sia_c a) p v" and v: "net_base p \<le> v" "v \<le> ?L"
    using less.prems(1) by (auto simp: alloc_at_def cursor_at_def)
  obtain c' w where c': "cursor_at c' p w" and step: "alloc_step st out a s =
    (case walk_skip ?L (a_reserved a) v (Suc v) of
       None \<Rightarrow> Inl (Inl (Panic NilDereference), a\<lparr>sia_c := c'\<rparr>, s)
     | Some (x, y) \<Rightarrow>
         if (y = Suc ?L \<or> y = Suc (a_last a)) \<and> out then Inl (Inr None, a\<lparr>sia_c := c'\<rparr>, s)
         else if y = Suc ?L \<or> y = Suc (a_last a) then try_address st (a\<lparr>sia_c := c'\<rparr>) True (pos_of p x) s
         else try_address st (a\<lparr>sia_c := c'\<rparr>) out (pos_of p x) s)"
    and w: "\<And>x y. walk_skip ?L (a_reserved a) v (Suc v) = Some (x, y) \<Longrightarrow>
       w = (if y = Suc ?L \<or> y = Suc (a_last a) then if out then min y ?L else a_start a else y)"
    using alloc_step_of [OF a c, of st out s] by blast
  let ?a = "a\<lparr>sia_c := c'\<rparr>"
  have at: "alloc_at ?a p w" using a c' by (simp add: alloc_at_def)
  have stop: ?case if "alloc_step st out a s = Inl (r, ?a, s')" "inv s'" "other s' = other s"
    "alloc_safe p (view s) (view s') r" for r s'
    using that at by (intro exI [of _ r] exI [of _ ?a] exI [of _ s'] exI [of _ w])
      (simp add: alloc_loop.simps)
  show ?case
  proof (cases "walk_skip ?L (a_reserved a) v (Suc v)")
    case None
    then show ?thesis using step less.prems(2) by (intro stop) (auto simp: alloc_safe_def)
  next
    case (Some xy)
    then obtain x y where xy: "walk_skip ?L (a_reserved a) v (Suc v) = Some (x, y)" by (cases xy) auto
    have b: "v \<le> x" "v < y" using walk_skip_bounds [OF xy] v by auto
    let ?e = "y = Suc ?L \<or> y = Suc (a_last a)"
    show ?thesis
    proof (cases "?e \<and> out")
      case True
      then show ?thesis using step xy less.prems(2) by (intro stop) (auto simp: alloc_safe_def)
    next
      case False
      then have t: "alloc_step st out a s = try_address st ?a (out \<or> ?e) (pos_of p x) s"
        using step xy by auto
      have wL: "w \<le> ?L" using c' by (simp add: cursor_at_def)
      have m: "(if out \<or> ?e then 0 else Suc ?L) + (?L - w) < (if out then 0 else Suc ?L) + (?L - v)"
        using False w [OF xy] b wL by (cases ?e; cases out) auto
      have "net_base p \<le> x" using b v by simp
      with a less.prems(2) show ?thesis
      proof (cases rule: try_address_cases [where a' = ?a and out = "out \<or> ?e"])
        case nil
        then show ?thesis using t less.prems(2) by (intro stop) (auto simp: alloc_safe_def)
      next
        case (failed e s')
        then show ?thesis using t by (intro stop [of _ s']) (auto simp: alloc_safe_def)
      next
        case (fresh s')
        then show ?thesis using t b v by (intro stop [of _ s']) (auto simp: alloc_safe_def intro!: exI [of _ x])
      next
        case (taken s')
        obtain r a' s'' w' where "alloc_loop st (out \<or> ?e) ?a s' = Some (r, a', s'')" "alloc_at a' p w'"
          "same_static ?a a'" "inv s''" "other s'' = other s'" "alloc_safe p (view s') (view s'') r"
          using less.hyps [OF m at taken(3)] by blast
        then show ?thesis
          using taken t same_static_trans [of a ?a a']
          by (intro exI [of _ r] exI [of _ a'] exI [of _ s''] exI [of _ w'])
            (simp add: alloc_loop.simps [of st out a s])
      qed
    qed
  qed
qed

end

section \<open>The addresses in the order the loop tries them\<close>

definition candidates :: "nat set \<Rightarrow> nat \<Rightarrow> nat \<Rightarrow> nat list" where
  "candidates R lo hi = filter (\<lambda>n. n \<notin> R) [lo..<Suc hi]"

text \<open>The conditions under which the loop skips the reserved addresses and only those: they are
  listed in ascending order, the one after the range is not among them, and there is an address to
  hand out from the cursor on and from the start on.\<close>

definition alloc_ready :: "simpleIPAllocator \<Rightarrow> prefix \<Rightarrow> nat \<Rightarrow> bool" where
  "alloc_ready a p v \<longleftrightarrow> alloc_at a p v \<and> sorted_wrt (<) (a_reserved a) \<and>
     (sia_end a \<noteq> None \<longrightarrow> Suc (a_last a) \<notin> set (a_reserved a)) \<and>
     candidates (set (a_reserved a)) v (a_last a) \<noteq> [] \<and>
     candidates (set (a_reserved a)) (a_start a) (a_last a) \<noteq> []"

lemma candidates_empty: "candidates R lo hi = [] \<longleftrightarrow> (\<forall>z. lo \<le> z \<and> z \<le> hi \<longrightarrow> z \<in> R)"
  by (auto simp: candidates_def filter_empty_conv less_Suc_eq_le simp del: upt_Suc)

lemma set_candidates: "set (candidates R lo hi) = {z. lo \<le> z \<and> z \<le> hi \<and> z \<notin> R}"
  by (auto simp: candidates_def simp del: upt_Suc)

lemma upt_split: "i \<le> j \<Longrightarrow> j \<le> k \<Longrightarrow> [i..<k] = [i..<j] @ [j..<k]"
  using upt_add_eq_append [of i j "k - j"] by simp

lemma candidates_Cons:
  assumes "v \<le> x" "x < y" "y \<le> Suc U" "x \<notin> R" "\<forall>z. v \<le> z \<and> z < x \<longrightarrow> z \<in> R"
    "\<forall>z. x < z \<and> z < y \<longrightarrow> z \<in> R"
  shows "candidates R v U = x # candidates R y U"
proof -
  have "[v..<Suc U] = [v..<x] @ x # [Suc x..<y] @ [y..<Suc U]"
    using assms(1-3) upt_split [of v x "Suc U"] upt_split [of "Suc x" y "Suc U"]
      upt_conv_Cons [of x "Suc U"] by (simp del: upt_Suc)
  moreover have "filter (\<lambda>n. n \<notin> R) [v..<x] = []" "filter (\<lambda>n. n \<notin> R) [Suc x..<y] = []"
    using assms(5,6) by (auto simp: filter_empty_conv)
  ultimately show ?thesis using assms(4) by (simp add: candidates_def del: upt_Suc)
qed

lemma candidates_Suc:
  assumes "candidates R v U = x # cs"
  shows "candidates R (Suc x) U = cs"
proof -
  have x: "v \<le> x" "x \<le> U" "x \<notin> R" using set_candidates [of R v U] assms by auto
  have "candidates R v U = filter (\<lambda>n. n \<notin> R) [v..<x] @ x # candidates R (Suc x) U"
    using x upt_split [of v x "Suc U"] upt_conv_Cons [of x "Suc U"]
    by (simp add: candidates_def del: upt_Suc)
  moreover have "filter (\<lambda>n. n \<notin> R) [v..<x] = []"
  proof (rule ccontr)
    assume "filter (\<lambda>n. n \<notin> R) [v..<x] \<noteq> []"
    then have "hd (candidates R v U) \<in> set (filter (\<lambda>n. n \<notin> R) [v..<x])"
      unfolding calculation by (metis hd_append2 hd_in_set)
    then show False using assms by simp
  qed
  ultimately show ?thesis using assms by simp
qed

lemma last_candidates:
  assumes "candidates R v U \<noteq> []" "candidates R w U \<noteq> []"
  shows "last (candidates R v U) = last (candidates R w U)"
proof -
  have last: "last (candidates R v U) = Max {z. z \<le> U \<and> z \<notin> R}" if "candidates R v U \<noteq> []" for v
  proof -
    let ?c = "candidates R v U"
    have srt: "sorted_wrt (<) ?c" unfolding candidates_def by (intro sorted_wrt_filter) (simp del: upt_Suc)
    have mem: "last ?c \<in> set ?c" using that by simp
    have le: "z \<le> last ?c" if "z \<in> set ?c" for z
    proof -
      have "?c = butlast ?c @ [last ?c]" using \<open>?c \<noteq> []\<close> by simp
      then have "sorted_wrt (<) (butlast ?c @ [last ?c])" "z \<in> set (butlast ?c @ [last ?c])"
        using srt that by metis+
      then show ?thesis by (auto simp: sorted_wrt_append)
    qed
    show ?thesis
    proof (rule Max_eqI [symmetric])
      show "finite {z. z \<le> U \<and> z \<notin> R}" by (rule finite_subset [of _ "{..U}"]) auto
      show "last ?c \<in> {z. z \<le> U \<and> z \<notin> R}" using mem by (simp add: set_candidates)
      show "z \<le> last ?c" if "z \<in> {z. z \<le> U \<and> z \<notin> R}" for z
        using that le [of z] mem by (cases "v \<le> z") (auto simp: set_candidates)
    qed
  qed
  show ?thesis using last [OF assms(1)] last [OF assms(2)] by simp
qed

lemma find_append: "find P (xs @ ys) = (case find P xs of None \<Rightarrow> find P ys | Some x \<Rightarrow> Some x)"
  by (induction xs) auto

text \<open>The last address is tried in the first pass, so the second may stop before it.\<close>

lemma find_candidates:
  assumes "candidates R v U \<noteq> []" "candidates R w U \<noteq> []"
  shows "find P (candidates R v U @ butlast (candidates R w U)) = find P (candidates R v U @ candidates R w U)"
proof (cases "find P (candidates R v U)")
  case None
  then have "\<not> P (last (candidates R w U))"
    using last_candidates [OF assms] assms(1) by (metis find_None_iff last_in_set)
  moreover have "candidates R w U = butlast (candidates R w U) @ [last (candidates R w U)]"
    using assms(2) by simp
  ultimately have "find P (candidates R w U) = find P (butlast (candidates R w U))"
    by (metis find_append find.simps option.case_eq_if option.collapse)
  then show ?thesis using None by (simp add: find_append)
qed (simp add: find_append)

lemma walk_ready:
  assumes r: "alloc_ready a p v"
  shows "\<exists>x y. walk_skip (net_last p) (a_reserved a) v (Suc v) = Some (x, y) \<and> v \<le> x \<and> x \<le> a_last a \<and>
    v < y \<and> y \<le> Suc (a_last a) \<and> candidates (set (a_reserved a)) v (a_last a) = x # candidates (set (a_reserved a)) y (a_last a) \<and>
    (y = Suc (net_last p) \<or> y = Suc (a_last a) \<longleftrightarrow> candidates (set (a_reserved a)) y (a_last a) = [])"
proof -
  let ?R = "set (a_reserved a)" and ?L = "net_last p" and ?U = "a_last a"
  have a: "alloc_static a p" and v: "v \<le> ?L"
    using r by (auto simp: alloc_ready_def alloc_at_def cursor_at_def)
  have U: "?U \<le> ?L" using alloc_static_range [OF a] by simp
  obtain z where z: "v \<le> z" "z \<le> ?U" "z \<notin> ?R"
    using r by (auto simp: alloc_ready_def candidates_empty)
  obtain x y where w: "walk_skip ?L (a_reserved a) v (Suc v) = Some (x, y)" "v \<le> x" "x < y" "y \<le> Suc ?L"
    "x \<notin> ?R" "y \<le> ?L \<longrightarrow> y \<notin> ?R" "\<forall>z. v \<le> z \<and> z < x \<longrightarrow> z \<in> ?R" "\<forall>z. x < z \<and> z < y \<longrightarrow> z \<in> ?R"
    using walk_skip_sorted [of "a_reserved a" "{}" v "Suc v" ?L] r v z(1,3) order_trans [OF z(2) U]
    by (auto simp: alloc_ready_def)
  have x: "x \<le> z" using w(7) z by (meson linorder_not_less)
  have y: "y \<le> Suc ?U"
  proof (cases "sia_end a")
    case None
    then show ?thesis using w(4) a by (simp add: a_last_def alloc_static_def)
  next
    case (Some e)
    then have "Suc ?U \<notin> ?R" using r by (simp add: alloc_ready_def)
    then show ?thesis using w(8) x z(2) by (metis Suc_le_lessD Suc_le_mono le_trans linorder_not_less)
  qed
  have c: "candidates ?R v ?U = x # candidates ?R y ?U"
    by (rule candidates_Cons) (use w y in auto)
  have e: "y = Suc ?L \<or> y = Suc ?U \<longleftrightarrow> candidates ?R y ?U = []"
  proof
    assume "y = Suc ?L \<or> y = Suc ?U"
    then have "y = Suc ?U" using y U by auto
    then show "candidates ?R y ?U = []" by (auto simp: candidates_empty)
  next
    assume h: "candidates ?R y ?U = []"
    show "y = Suc ?L \<or> y = Suc ?U"
    proof (rule ccontr)
      assume "\<not> (y = Suc ?L \<or> y = Suc ?U)"
      then have "y \<le> ?U" "y \<le> ?L" using y U by auto
      then show False using h w(6) by (auto simp: candidates_empty)
    qed
  qed
  have "v < y" using w(2,3) by simp
  then show ?thesis using w(1,2) x y z(2) c e by (intro exI [of _ x] exI [of _ y]) auto
qed

section \<open>The loop finds the first free address\<close>

definition first_free :: "prefix \<Rightarrow> alloc_view \<Rightarrow> nat list \<Rightarrow> nat option" where
  "first_free p v xs = find (\<lambda>x. \<not> allocated v p (alloc_addr p x)) xs"

text \<open>What \<open>Allocate\<close> returns, and the view it leaves, when \<open>f\<close> is the first free address; \<open>after\<close>
  holds of the address it handed out.\<close>

definition alloc_outcome ::
  "prefix \<Rightarrow> nat option \<Rightarrow> (nat \<Rightarrow> bool) \<Rightarrow> alloc_view \<Rightarrow> alloc_view \<Rightarrow> fault + ipnet list option \<Rightarrow> bool" where
  "alloc_outcome p f after v v' r =
     (case r of
        Inl e \<Rightarrow> (\<exists>x. e = Err x) \<and> v' = v
      | Inr None \<Rightarrow> f = None \<and> v' = v
      | Inr (Some ips) \<Rightarrow> (\<exists>x. f = Some x \<and> ips = [alloc_addr p x] \<and> after x \<and>
          v' = view_insert p (alloc_addr p x) v))"

definition ready_after :: "simpleIPAllocator \<Rightarrow> prefix \<Rightarrow> bool \<Rightarrow> bool" where
  "ready_after a p ok \<longleftrightarrow>
     (\<exists>w. if ok \<or> sia_end a = None \<and> net_last p \<notin> set (a_reserved a) then alloc_ready a p w
          else w = min (Suc (a_last a)) (net_last p) \<and> alloc_at a p w)"

text \<open>Where the cursor stands after the address \<open>x\<close> was handed out: on the next candidate, or back at
  the start.\<close>

definition next_candidates :: "simpleIPAllocator \<Rightarrow> nat \<Rightarrow> nat list" where
  "next_candidates a x =
     (let R = set (a_reserved a); c = candidates R (Suc x) (a_last a)
      in if c = [] then candidates R (a_start a) (a_last a) else c)"

definition ready_next :: "simpleIPAllocator \<Rightarrow> simpleIPAllocator \<Rightarrow> prefix \<Rightarrow> nat \<Rightarrow> bool" where
  "ready_next a b p x \<longleftrightarrow> (\<exists>w. alloc_ready b p w \<and>
     candidates (set (a_reserved a)) w (a_last a) = next_candidates a x)"

lemma alloc_ready_same:
  assumes "alloc_ready a p v" "same_static a b" "cursor_at (sia_c b) p w"
    "candidates (set (a_reserved a)) w (a_last a) \<noteq> []"
  shows "alloc_ready b p w"
proof -
  obtain c where b: "b = a\<lparr>sia_c := c\<rparr>" using assms(2) by (metis same_static_def)
  then show ?thesis using assms by (simp add: alloc_ready_def alloc_at_def)
qed

context ip_store
begin

lemma alloc_loop_first:
  assumes "alloc_ready a p v" "inv s" "net_base p \<le> v"
  shows "\<exists>r a' s'. alloc_loop st out a s = Some (r, a', s') \<and> same_static a a' \<and> inv s' \<and>
    other s' = other s \<and> ready_after a' p (r \<noteq> Inr None) \<and>
    alloc_outcome p
      (first_free p (view s)
        (let R = set (a_reserved a); U = a_last a
         in if out then butlast (candidates R v U) else candidates R v U @ butlast (candidates R (a_start a) U)))
      (ready_next a a' p) (view s) (view s') r \<and>
    (\<forall>e. r = Inl (Err e) \<longrightarrow> (\<exists>x t t'. net_base p \<le> x \<and> x \<le> net_last p \<and> inv t \<and> view t = view s \<and>
       ip_AllocateIP st p (alloc_addr p x) t = (Inl e, t')))"
  using assms
proof (induction "(if out then 0 else Suc (net_last p)) + (net_last p - v)" arbitrary: out a s v rule: less_induct)
  case less
  let ?L = "net_last p" and ?R = "set (a_reserved a)" and ?U = "a_last a"
  have a: "alloc_static a p" and c: "cursor_at (sia_c a) p v" and v: "v \<le> ?L"
    using less.prems(1) by (auto simp: alloc_ready_def alloc_at_def cursor_at_def)
  obtain x y where xy: "walk_skip ?L (a_reserved a) v (Suc v) = Some (x, y)" "v \<le> x" "x \<le> ?U" "v < y"
    "candidates ?R v ?U = x # candidates ?R y ?U"
    and yU: "y \<le> Suc ?U" and xy6: "y = Suc ?L \<or> y = Suc ?U \<longleftrightarrow> candidates ?R y ?U = []"
    using walk_ready [OF less.prems(1)] by blast
  have y: "candidates ?R y ?U = candidates ?R (Suc x) ?U"
    using candidates_Suc [OF xy(5)] by simp
  let ?e = "candidates ?R y ?U = []"
  obtain c' w where c': "cursor_at c' p w" and step: "alloc_step st out a s =
       (if ?e \<and> out then Inl (Inr None, a\<lparr>sia_c := c'\<rparr>, s)
        else try_address st (a\<lparr>sia_c := c'\<rparr>) (out \<or> ?e) (pos_of p x) s)"
    and w: "w = (if ?e then if out then min y ?L else a_start a else y)"
  proof -
    obtain c' w where "cursor_at c' p w" "alloc_step st out a s =
        (if ?e \<and> out then Inl (Inr None, a\<lparr>sia_c := c'\<rparr>, s)
         else if ?e then try_address st (a\<lparr>sia_c := c'\<rparr>) True (pos_of p x) s
         else try_address st (a\<lparr>sia_c := c'\<rparr>) out (pos_of p x) s)"
      "w = (if ?e then if out then min y ?L else a_start a else y)"
      using alloc_step_of [OF a c, of st out s]
      unfolding xy(1) option.case prod.case option.inject prod.inject xy6 [symmetric] by blast
    then show ?thesis using that by (cases ?e; cases out) auto
  qed
  let ?a = "a\<lparr>sia_c := c'\<rparr>"
  show ?case
  proof (cases "?e \<and> out")
    case True
    have "ready_after ?a p False"
    proof (cases "sia_end a = None \<and> ?L \<notin> ?R")
      case stays: True
      then have U: "?U = ?L" using a by (simp add: a_last_def alloc_static_def)
      have "w = ?L" using True xy6 w U by auto
      then have "alloc_ready ?a p w"
        using stays U c' by (intro alloc_ready_same [OF less.prems(1)]) (auto simp: candidates_empty)
      then show ?thesis unfolding ready_after_def using stays by auto
    next
      case False
      have "w = min (Suc ?U) ?L" using True xy6 w yU alloc_static_range(3) [OF a] by (auto simp: min_def)
      then show ?thesis using a c' False by (auto simp: ready_after_def alloc_at_def)
    qed
    then show ?thesis
      using True step xy(5) less.prems(2)
      by (intro exI [of _ "Inr None"] exI [of _ ?a] exI [of _ s])
        (simp add: alloc_loop.simps [of st True a s] alloc_outcome_def first_free_def Let_def)
  next
    case False
    have ready: "alloc_ready ?a p w"
      using False c' w less.prems(1) by (intro alloc_ready_same [OF less.prems(1)]) (auto simp: alloc_ready_def)
    then have ra: "ready_after ?a p True" by (auto simp: ready_after_def)
    have t: "alloc_step st out a s = try_address st ?a (out \<or> ?e) (pos_of p x) s"
      using False step by auto
    have wL: "w \<le> ?L" "net_base p \<le> w" using c' by (auto simp: cursor_at_def)
    have m: "(if out \<or> ?e then 0 else Suc ?L) + (?L - w) < (if out then 0 else Suc ?L) + (?L - v)"
      using False w xy(4) wL by (cases ?e; cases out) auto
    let ?C = "\<lambda>out v. if out then butlast (candidates ?R v ?U)
                      else candidates ?R v ?U @ butlast (candidates ?R (a_start a) ?U)"
    have C: "?C out v = x # ?C (out \<or> ?e) w"
      using False w xy(5) by (cases ?e; cases out) auto
    have b: "net_base p \<le> x" "x \<le> ?L" using less.prems(3) xy(2,3) alloc_static_range [OF a] by auto
    from a less.prems(2) b(1) show ?thesis
    proof (cases rule: try_address_cases [where a' = ?a and out = "out \<or> ?e"])
      case nil
      then show ?thesis using b by simp
    next
      case (failed e s')
      then show ?thesis using t ra b less.prems(2)
        by (intro exI [of _ "Inl (Err e)"] exI [of _ ?a] exI [of _ s'])
          (auto simp: alloc_loop.simps [of st out a s] alloc_outcome_def)
    next
      case (fresh s')
      have "ready_next a ?a p x"
        using ready w False y unfolding ready_next_def next_candidates_def Let_def
        by (intro exI [of _ w]) auto
      with fresh show ?thesis using t ra C
        by (intro exI [of _ "Inr (Some [alloc_addr p x])"] exI [of _ ?a] exI [of _ s'])
          (simp add: alloc_loop.simps [of st out a s] alloc_outcome_def first_free_def Let_def)
    next
      case (taken s')
      obtain r a' s'' where ih: "alloc_loop st (out \<or> ?e) ?a s' = Some (r, a', s'')" "same_static ?a a'"
        "inv s''" "other s'' = other s'" "ready_after a' p (r \<noteq> Inr None)"
        "alloc_outcome p (first_free p (view s') (?C (out \<or> ?e) w)) (ready_next ?a a' p)
          (view s') (view s'') r"
        "\<forall>e. r = Inl (Err e) \<longrightarrow> (\<exists>x t t'. net_base p \<le> x \<and> x \<le> net_last p \<and> inv t \<and> view t = view s' \<and>
           ip_AllocateIP st p (alloc_addr p x) t = (Inl e, t'))"
        using less.hyps [OF m ready taken(3) wL(2)] unfolding Let_def a_numbers_cursor by blast
      have rn: "ready_next ?a a' p = ready_next a a' p"
        by (simp add: ready_next_def next_candidates_def fun_eq_iff Let_def)
      have "first_free p (view s) (?C out v) = first_free p (view s') (?C (out \<or> ?e) w)"
        unfolding C using taken by (simp add: first_free_def)
      then show ?thesis
        using taken t ih [unfolded rn] same_static_trans [of a ?a a']
        by (intro exI [of _ r] exI [of _ a'] exI [of _ s''])
          (simp add: alloc_loop.simps [of st out a s] Let_def)
    qed
  qed
qed

end

section \<open>Making an allocator\<close>

lemma is4_iff_range:
  assumes "valid_ip ip"
  shows "is4 ip \<longleftrightarrow> mapped_base \<le> ipval ip \<and> ipval ip < mapped_base + 2 ^ 32"
proof -
  obtain x where "length x = 16" "ipval x = ipval ip" "is4 x = is4 ip" using valid_ip_to16 [OF assms] by blast
  then show ?thesis using is4_16_iff [of x] by simp
qed

lemma ip_mask_net:
  assumes "net_ok n"
  shows "valid_ip (ip_mask (IP n) (Mask n)) \<and> ipval (ip_mask (IP n) (Mask n)) = net_base n"
proof -
  let ?l = "mask_ones (Mask n)"
  have m: "Mask n = CIDRMask ?l (addr_bits (IP n))" "?l \<le> addr_bits (IP n)"
    using assms by (auto simp: net_ok_def)
  show ?thesis
  proof (cases "to4 (IP n)")
    case (Some x)
    then have x: "length x = 4" "ipval (IP n) = mapped_base + be_nat x" "is4 (IP n)"
      using to4_Some_ipval by (auto simp: is4_def)
    have h: "host_bits n = 32 - ?l" "?l \<le> 32" "Mask n = cidr_bytes 4 ?l"
      using x m by (simp_all add: host_bits_def addr_bits_def CIDRMask_32)
    let ?y = "bytes_and x (cidr_bytes 4 ?l)"
    have "ip_mask (IP n) (cidr_bytes 4 ?l) = ?y"
      using Some by (auto simp: ip_mask_def to4_def split: if_splits)
    then have y: "ip_mask (IP n) (Mask n) = ?y" using h(3) by simp
    have "be_nat ?y = be_nat x div 2 ^ (32 - ?l) * 2 ^ (32 - ?l)"
      using be_nat_bytes_and_cidr [of x 4 ?l] x h by simp
    moreover have "net_base n = mapped_base + be_nat x div 2 ^ (32 - ?l) * 2 ^ (32 - ?l)"
      unfolding net_base_def x(2) h(1) by (rule round_dvd [OF mapped_base_dvd]) simp
    moreover have "ipval ?y = mapped_base + be_nat ?y"
      using to4_Some_ipval [of ?y ?y] x by (simp add: to4_def)
    ultimately show ?thesis unfolding y using x by (simp add: valid_ip_def)
  next
    case None
    then have x: "length (IP n) = 16" "take 12 (IP n) \<noteq> v4InV6Prefix" "\<not> is4 (IP n)"
      using assms by (auto simp: net_ok_def valid_ip_def to4_def is4_def split: if_splits)
    have h: "host_bits n = 128 - ?l" "?l \<le> 128" "Mask n = cidr_bytes 16 ?l"
      using x m by (simp_all add: host_bits_def addr_bits_def CIDRMask_128)
    let ?y = "bytes_and (IP n) (cidr_bytes 16 ?l)"
    have "ip_mask (IP n) (cidr_bytes 16 ?l) = ?y" using x by (simp add: ip_mask_def)
    then have y: "ip_mask (IP n) (Mask n) = ?y" using h(3) by simp
    have "be_nat ?y = net_base n"
      using be_nat_bytes_and_cidr [of "IP n" 16 ?l] x h by (simp add: net_base_def ipval_16)
    then show ?thesis unfolding y using x by (simp add: valid_ip_def ipval_16)
  qed
qed

text \<open>\<open>NewPrefix\<close> changes how the address is written and nothing else.\<close>

lemma NewPrefix_same:
  assumes "net_ok n"
  shows "net_ok (NewPrefix n)" "length (IP (NewPrefix n)) = 16" "ipval (IP (NewPrefix n)) = ipval (IP n)"
    "is4 (IP (NewPrefix n)) = is4 (IP n)" "net_base (NewPrefix n) = net_base n"
    "net_last (NewPrefix n) = net_last n" "contains (NewPrefix n) = contains n"
    "ipnet_String (NewPrefix n) = ipnet_String n"
proof -
  obtain x where x: "to16 (IP n) = Some x" "length x = 16" "ipval x = ipval (IP n)" "is4 x = is4 (IP n)"
    using valid_ip_to16 assms by (auto simp: net_ok_def)
  have p: "IP (NewPrefix n) = x" "Mask (NewPrefix n) = Mask n" using x by (simp_all add: NewPrefix_def)
  show ok: "net_ok (NewPrefix n)" using assms x p by (simp add: net_ok_def addr_bits_def valid_ip_def)
  show "length (IP (NewPrefix n)) = 16" "ipval (IP (NewPrefix n)) = ipval (IP n)"
    "is4 (IP (NewPrefix n)) = is4 (IP n)" using x p by simp_all
  have h: "host_bits (NewPrefix n) = host_bits n" using x p by (simp add: host_bits_def addr_bits_def)
  then show "net_base (NewPrefix n) = net_base n" "net_last (NewPrefix n) = net_last n"
    using x p by (simp_all add: net_base_def net_last_def)
  show "contains (NewPrefix n) = contains n"
  proof
    fix ip show "contains (NewPrefix n) ip = contains n ip"
      using contains_div [OF ok, of ip] contains_div [OF assms, of ip] h x p
        contains_not_valid [OF ok, of ip] contains_not_valid [OF assms, of ip]
      by (cases "valid_ip ip") auto
  qed
  have "contains_form x = contains_form (IP n)"
    using x(1) by (cases "IP n" rule: to4_cases) (auto simp: contains_form_def to4_def)
  then show "ipnet_String (NewPrefix n) = ipnet_String n"
    using ipnet_String_ok [OF ok] ipnet_String_ok [OF assms] p by (simp add: net_len_def)
qed

definition inside :: "ipnet \<Rightarrow> ip \<Rightarrow> bool" where
  "inside n ip \<longleftrightarrow> valid_ip ip \<and> is4 ip = is4 (IP n) \<and> net_base n \<le> ipval ip \<and> ipval ip \<le> net_last n"

lemma contains_inside: "net_ok n \<Longrightarrow> contains n ip \<longleftrightarrow> inside n ip"
  using contains_range [of n ip] contains_not_valid [of n ip] by (auto simp: inside_def)

lemma bytes_less_iff: "length xs = length ys \<Longrightarrow> xs < ys \<longleftrightarrow> be_nat xs < be_nat ys"
proof (induction xs ys rule: list_induct2)
  case (Cons x xs y ys)
  let ?k = "256 ^ length ys"
  have b: "be_nat xs < ?k" "be_nat ys < ?k" using be_nat_less [of xs] be_nat_less [of ys] Cons.hyps by auto
  show ?case
  proof (cases x y rule: linorder_cases)
    case less
    then have "Suc (unat x) \<le> unat y" by (simp add: word_less_nat_alt)
    then have "Suc (unat x) * ?k \<le> unat y * ?k" by (rule mult_right_mono) simp
    then show ?thesis using less b Cons.hyps by simp
  next
    case greater
    then have "Suc (unat y) \<le> unat x" by (simp add: word_less_nat_alt)
    then have "Suc (unat y) * ?k \<le> unat x * ?k" by (rule mult_right_mono) simp
    then show ?thesis using greater b Cons.hyps by (auto dest: less_asym)
  qed (use Cons in simp)
qed simp

text \<open>How \<open>bytes.Compare\<close> orders two addresses of one family: as numbers when they are written with
  equally many bytes; next to a 4-byte address other than 0.0.0.0, a 16-byte one comes first.\<close>

definition not_after :: "ip \<Rightarrow> ip \<Rightarrow> bool" where
  "not_after a b \<longleftrightarrow>
     (if length a = length b then ipval a \<le> ipval b
      else if length a = 4 then ipval a = mapped_base else ipval b \<noteq> mapped_base)"

lemma less_prefix: "length y = 4 \<Longrightarrow> v4InV6Prefix @ z < y \<longleftrightarrow> be_nat y \<noteq> 0"
  "length y = 4 \<Longrightarrow> y < v4InV6Prefix @ z \<longleftrightarrow> be_nat y = 0"
proof -
  assume "length y = 4"
  then obtain a b c d where "y = [a, b, c, d]" by (auto simp: length_Suc_conv numeral_eq_Suc)
  then show "v4InV6Prefix @ z < y \<longleftrightarrow> be_nat y \<noteq> 0" "y < v4InV6Prefix @ z \<longleftrightarrow> be_nat y = 0"
    by (auto simp: v4InV6Prefix_def unat_eq_0 word_gt_0 dest: leD)
qed

lemma bytes_less_ip:
  assumes "valid_ip a" "valid_ip b" "is4 a = is4 b"
  shows "b < a \<longleftrightarrow> \<not> not_after a b"
proof (cases "length a = length b")
  case True
  then show ?thesis using assms
    by (cases a rule: to4_cases; cases b rule: to4_cases)
      (auto simp: not_after_def bytes_less_iff ipval_def is4_def be_nat_prefix bytes_less_iff [of "_ @ _"])
next
  case False
  then show ?thesis using assms
    by (cases a rule: to4_cases; cases b rule: to4_cases)
      (auto simp: not_after_def is4_def less_prefix ipval_def be_nat_prefix mapped_base_def)
qed

lemma Validate_iff:
  assumes "net_ok (Subnet_Subnet s)"
  shows "Validate s = Inr () \<longleftrightarrow> ipval (IP (Subnet_Subnet s)) = net_base (Subnet_Subnet s) \<and>
    (\<forall>a. Subnet_Start s = Some a \<longrightarrow> contains (Subnet_Subnet s) a) \<and>
    (\<forall>b. Subnet_End s = Some b \<longrightarrow> contains (Subnet_Subnet s) b) \<and>
    (\<forall>a b. Subnet_Start s = Some a \<and> Subnet_End s = Some b \<longrightarrow> \<not> b < a) \<and>
    (\<forall>r\<in>set (Subnet_Reserved s). contains (Subnet_Subnet s) r)"
proof -
  let ?n = "Subnet_Subnet s"
  let ?m = "\<lparr>IP = ip_mask (IP ?n) (Mask ?n), Mask = Mask ?n\<rparr>"
  note m = ip_mask_net [OF assms]
  have v: "valid_ip (IP ?n)" using assms by (simp add: net_ok_def)
  have eq: "ip_equal (IP ?n) (IP ?m) \<longleftrightarrow> ipval (IP ?n) = net_base ?n"
    using m v by (simp add: ip_equal_iff)
  have same: "contains ?m = contains ?n" if "ipval (IP ?n) = net_base ?n"
  proof
    fix ip
    have f: "is4 (IP ?m) = is4 (IP ?n)" using m v that by (simp add: is4_iff_range)
    then have ok: "net_ok ?m" using m assms by (simp add: net_ok_def addr_bits_def)
    have "host_bits ?m = host_bits ?n" using f by (simp add: host_bits_def addr_bits_def)
    then show "contains ?m ip = contains ?n ip"
      using contains_div [OF ok, of ip] contains_div [OF assms, of ip] f m that
        contains_not_valid [OF ok, of ip] contains_not_valid [OF assms, of ip]
      by (cases "valid_ip ip") auto
  qed
  show ?thesis
    using eq same by (auto simp: Validate_def Let_def list_ex_iff split: option.splits)
qed

text \<open>The first and the last address of a configured range.\<close>

definition range_start :: "Subnet \<Rightarrow> nat" where
  "range_start s = (case Subnet_Start s of None \<Rightarrow> net_base (Subnet_Subnet s) | Some a \<Rightarrow> ipval a)"

definition range_last :: "Subnet \<Rightarrow> nat" where
  "range_last s = (case Subnet_End s of None \<Rightarrow> net_last (Subnet_Subnet s) | Some b \<Rightarrow> ipval b)"

definition fits :: "simpleIPAllocator \<Rightarrow> Subnet \<Rightarrow> bool" where
  "fits a s \<longleftrightarrow> sia_sub a = s\<lparr>Subnet_Subnet := NewPrefix (Subnet_Subnet s)\<rparr> \<and>
     a_start a = range_start s \<and> a_last a = range_last s \<and>
     a_reserved a = map ipval (Subnet_Reserved s) \<and>
     (sia_end a = None \<longleftrightarrow> range_last s = net_last (Subnet_Subnet s))"

lemma Validate_prefix:
  assumes "net_ok (Subnet_Subnet s)" "Validate s = Inr ()"
  shows "prefix_ok (NewPrefix (Subnet_Subnet s))"
  using assms by (simp add: Validate_iff prefix_ok_def NewPrefix_same)

lemma start_cursor_at:
  assumes "net_ok (Subnet_Subnet s)" "Validate s = Inr ()"
  defines "p \<equiv> NewPrefix (Subnet_Subnet s)"
  shows "\<exists>c pos. start_cursor s p = Inr (c, pos) \<and> cursor_at c p (range_start s) \<and> pos_Prefix pos = p \<and>
    valid_ip (pos_IP pos) \<and> contains p (pos_IP pos) \<and> ipval (pos_IP pos) = range_start s"
proof -
  let ?n = "Subnet_Subnet s"
  have p: "prefix_ok p" "net_ok p" using Validate_prefix [OF assms(1,2)] by (simp_all add: p_def prefix_ok_def)
  obtain c where c: "NewCursor [p] = Inr (Some c)" "cursor_at c p (net_base p)"
    using NewCursor_at [OF p(1)] by blast
  show ?thesis
  proof (cases "Subnet_Start s")
    case None
    have "length (IP p) = 16" "ipval (IP p) = net_base p" using p(1) by (auto simp: prefix_ok_def)
    then show ?thesis
      using None c p prefix_contains_own [OF p(1)] NewPrefix_same(5) [OF assms(1)]
      by (auto simp: start_cursor_def cursor_First_def cursor_at_def range_start_def valid_ip_def p_def)
  next
    case (Some a)
    have k: "contains p a" using assms(1,2) Some by (auto simp: p_def Validate_iff NewPrefix_same)
    then have v: "valid_ip a" using contains_not_valid p(2) by blast
    obtain c' where "cursor_Set c (Some \<lparr>pos_IP = a, pos_Prefix = p\<rparr>) = Inr c'" "cursor_at c' p (ipval a)"
      using cursor_Set_valid [OF p(1) c(2) v k] by blast
    then show ?thesis using Some c k v by (simp add: start_cursor_def range_start_def del: cursor_Set.simps)
  qed
qed

lemma end_position_of:
  assumes "net_ok (Subnet_Subnet s)" "Validate s = Inr ()"
  defines "p \<equiv> NewPrefix (Subnet_Subnet s)"
  shows "end_position s p = Inr (if Subnet_End s = None then None else pos_of p (Suc (range_last s)))"
    and "net_base p \<le> range_last s" "range_last s \<le> net_last p"
proof -
  let ?n = "Subnet_Subnet s"
  have p: "prefix_ok p" "net_ok p" using Validate_prefix [OF assms(1,2)] by (simp_all add: p_def prefix_ok_def)
  obtain c where c: "NewCursor [p] = Inr (Some c)" "cursor_at c p (net_base p)"
    using NewCursor_at [OF p(1)] by blast
  have *: "end_position s p = Inr (if Subnet_End s = None then None else pos_of p (Suc (range_last s))) \<and>
    net_base p \<le> range_last s \<and> range_last s \<le> net_last p"
  proof (cases "Subnet_End s")
    case None
    then show ?thesis
      using NewPrefix_same [OF assms(1)] net_base_le_last [of p]
      by (simp add: end_position_def range_last_def p_def)
  next
    case (Some b)
    have k: "contains p b" using assms(1,2) Some by (auto simp: p_def Validate_iff NewPrefix_same)
    then have v: "valid_ip b" using contains_not_valid p(2) by blast
    then have r: "net_base p \<le> ipval b" "ipval b \<le> net_last p" using contains_range [OF p(2) v] k by auto
    obtain c' where c': "cursor_Set c (Some \<lparr>pos_IP = b, pos_Prefix = p\<rparr>) = Inr c'" "cursor_at c' p (ipval b)"
      using cursor_Set_valid [OF p(1) c(2) v k] by blast
    have "fst (cursor_Next c') = pos_of p (Suc (ipval b))"
      using cursor_Next_of [OF p(1), of c' "ipval b"] c'(2) r by (auto simp: min_def split: if_splits)
    then show ?thesis using Some c c' r by (simp add: end_position_def range_last_def del: cursor_Set.simps)
  qed
  then show "end_position s p = Inr (if Subnet_End s = None then None else pos_of p (Suc (range_last s)))"
    "net_base p \<le> range_last s" "range_last s \<le> net_last p" by auto
qed

lemma new_simple_ok:
  assumes "net_ok (Subnet_Subnet s)" "Validate s = Inr ()" "family_ok (NewPrefix (Subnet_Subnet s))"
  shows "\<exists>a. new_simple s = Inr a \<and> alloc_at a (NewPrefix (Subnet_Subnet s)) (range_start s) \<and> fits a s"
proof -
  let ?n = "Subnet_Subnet s" and ?p = "NewPrefix (Subnet_Subnet s)"
  have p: "prefix_ok ?p" "net_ok ?p" using Validate_prefix [OF assms(1,2)] by (simp_all add: prefix_ok_def)
  obtain c pos where c: "start_cursor s ?p = Inr (c, pos)" "cursor_at c ?p (range_start s)"
    "pos_Prefix pos = ?p" "valid_ip (pos_IP pos)" "contains ?p (pos_IP pos)" "ipval (pos_IP pos) = range_start s"
    using start_cursor_at [OF assms(1,2)] by blast
  note e = end_position_of [OF assms(1,2)]
  let ?f = "if is4 (IP ?p) then IPv4 else IPv6"
  have f: "ipFamily ?p = Inr ?f"
    using NewPrefix_same(2) [OF assms(1)] by (auto simp: ipFamily_def is4_def to16_16)
  let ?e = "if Subnet_End s = None then None else pos_of ?p (Suc (range_last s))"
  let ?a = "\<lparr>sia_f = ?f, sia_sub = s\<lparr>Subnet_Subnet := ?p\<rparr>, sia_c = c, sia_start = pos, sia_end = ?e\<rparr>"
  have new: "new_simple s = Inr ?a" using c(1) e(1) f by (simp add: new_simple_def Let_def)
  have res: "\<forall>r\<in>set (Subnet_Reserved s). valid_ip r"
    using assms(1,2) contains_not_valid [OF assms(1)] by (auto simp: Validate_iff)
  have end_pos: "valid_ip (pos_IP q) \<and> ipval (pos_IP q) = Suc (range_last s) \<and> Suc (range_last s) \<le> net_last ?p"
    if "?e = Some q" for q
    using that net_last_less [OF p(1)] by (auto simp: pos_of_def valid_ip_def ipval_be_bytes split: if_splits)
  have "alloc_static ?a ?p"
    unfolding alloc_static_def simpleIPAllocator.select_convs Subnet.select_convs
  proof (intro conjI)
    show "\<forall>q. ?e = Some q \<longrightarrow> valid_ip (pos_IP q) \<and> net_base ?p < ipval (pos_IP q) \<and>
        ipval (pos_IP q) \<le> net_last ?p"
    proof (intro allI impI)
      fix q assume "?e = Some q"
      from end_pos [OF this] show "valid_ip (pos_IP q) \<and> net_base ?p < ipval (pos_IP q) \<and>
          ipval (pos_IP q) \<le> net_last ?p" using e(2) by linarith
    qed
  qed (simp_all add: p(1) assms(3) res c(3,4,5))
  moreover have "a_last ?a = range_last s \<and> (?e = None \<longleftrightarrow> range_last s = net_last ?n)"
  proof (cases ?e)
    case None
    then have "range_last s = net_last ?n"
      using e(3) NewPrefix_same(6) [OF assms(1)]
      by (auto simp: range_last_def pos_of_def split: if_splits)
    then show ?thesis using None NewPrefix_same(6) [OF assms(1)] by (simp add: a_last_def)
  next
    case (Some q)
    then have "a_last ?a = ipval (pos_IP q) - 1" by (simp add: a_last_def)
    then show ?thesis using end_pos [OF Some] Some NewPrefix_same(6) [OF assms(1)] by simp
  qed
  then have "fits ?a s" using c(6) by (simp add: fits_def a_start_def a_reserved_def)
  ultimately show ?thesis using new c(2) by (auto simp: alloc_at_def)
qed

context reliable_ip_store
begin

text \<open>On a store that does not fail, an allocator that is ready returns the first free address in
  the order of its cursor, and false only when there is none.\<close>

lemma simple_Allocate_first:
  assumes "alloc_ready a p v" "inv s" "net_base p \<le> v" "view s (ipnet_String p) \<noteq> None"
  defines "f \<equiv> first_free p (view s) (candidates (set (a_reserved a)) v (a_last a) @
      candidates (set (a_reserved a)) (a_start a) (a_last a))"
  shows "\<exists>a' s'. simple_Allocate st (sia_f a) a s =
      Some (Inr (map_option (\<lambda>x. [alloc_addr p x]) f), a', s') \<and> inv s' \<and> same_static a a' \<and>
    other s' = other s \<and> ready_after a' p (f \<noteq> None) \<and>
    (\<forall>x. f = Some x \<longrightarrow> ready_next a a' p x) \<and>
    view s' = (case f of None \<Rightarrow> view s | Some x \<Rightarrow> view_insert p (alloc_addr p x) (view s))"
proof -
  have c: "candidates (set (a_reserved a)) v (a_last a) \<noteq> []"
    "candidates (set (a_reserved a)) (a_start a) (a_last a) \<noteq> []" "alloc_static a p"
    using assms(1) by (auto simp: alloc_ready_def alloc_at_def)
  obtain r a' s' where l: "alloc_loop st False a s = Some (r, a', s')" "same_static a a'" "inv s'"
    "other s' = other s" "ready_after a' p (r \<noteq> Inr None)" "alloc_outcome p f (ready_next a a' p) (view s) (view s') r"
    "\<forall>e. r = Inl (Err e) \<longrightarrow> (\<exists>x t t'. net_base p \<le> x \<and> x \<le> net_last p \<and> inv t \<and> view t = view s \<and>
       ip_AllocateIP st p (alloc_addr p x) t = (Inl e, t'))"
    using alloc_loop_first [OF assms(1-3), of False]
    unfolding Let_def if_False f_def first_free_def find_candidates [OF c(1,2)] by blast
  have no: "r \<noteq> Inl e" for e
  proof
    assume r: "r = Inl e"
    then obtain x t t' e' where "net_base p \<le> x" "x \<le> net_last p" "inv t" "view t = view s"
      "ip_AllocateIP st p (alloc_addr p x) t = (Inl e', t')"
      using l(6,7) by (auto simp: alloc_outcome_def)
    then show False
      using AllocateIP_reliable [of t p "alloc_addr p x"] alloc_addr_ok(2) [of p x] c(3) assms(4)
      by (auto simp: alloc_static_def)
  qed
  have "sia_f a = sia_f a" by simp
  then show ?thesis using l no by (cases r) (auto simp: simple_Allocate_def alloc_outcome_def split: option.splits)
qed

end

context reliable_ip_store
begin

text \<open>On a store that knows the subnet, no error comes out of the loop, whatever the configuration.\<close>

lemma try_address_no_error:
  assumes "alloc_static a p" "inv s" "net_base p \<le> x" "view s (ipnet_String p) \<noteq> None"
  shows "try_address st a' out (pos_of p x) s \<noteq> Inl (Inl (Err e), a'', s')"
    and "try_address st a' out (pos_of p x) s = Inr (out', a'', s') \<Longrightarrow> inv s' \<and> view s' = view s"
proof -
  have ok: "contains p (IP (alloc_addr p x))" if "x \<le> net_last p"
    using alloc_addr_ok(2) [of p x] assms(1,3) that by (simp add: alloc_static_def)
  show "try_address st a' out (pos_of p x) s \<noteq> Inl (Inl (Err e), a'', s')"
    using assms(1-3)
    by (cases rule: try_address_cases [where a' = a' and out = out]) (use AllocateIP_reliable [OF assms(2) ok assms(4)] in auto)
  show "try_address st a' out (pos_of p x) s = Inr (out', a'', s') \<Longrightarrow> inv s' \<and> view s' = view s"
    using assms(1-3) by (cases rule: try_address_cases [where a' = a' and out = out]) auto
qed

lemma alloc_step_no_error:
  assumes "alloc_at a p v" "inv s" "view s (ipnet_String p) \<noteq> None"
  shows "alloc_step st out a s \<noteq> Inl (Inl (Err e), a', s')"
    and "alloc_step st out a s = Inr (out', a', s') \<Longrightarrow> inv s' \<and> view s' = view s"
proof -
  have st: "alloc_static a p" "cursor_at (sia_c a) p v" and v: "net_base p \<le> v" "v \<le> net_last p"
    using assms(1) by (auto simp: alloc_at_def cursor_at_def)
  obtain c w where step: "alloc_step st out a s =
    (case walk_skip (net_last p) (a_reserved a) v (Suc v) of
       None \<Rightarrow> Inl (Inl (Panic NilDereference), a\<lparr>sia_c := c\<rparr>, s)
     | Some (x, y) \<Rightarrow>
         if (y = Suc (net_last p) \<or> y = Suc (a_last a)) \<and> out then Inl (Inr None, a\<lparr>sia_c := c\<rparr>, s)
         else if y = Suc (net_last p) \<or> y = Suc (a_last a) then try_address st (a\<lparr>sia_c := c\<rparr>) True (pos_of p x) s
         else try_address st (a\<lparr>sia_c := c\<rparr>) out (pos_of p x) s)"
    using alloc_step_of [OF st, of st out s] by blast
  have x: "net_base p \<le> x" if "walk_skip (net_last p) (a_reserved a) v (Suc v) = Some (x, y)" for x y
    using walk_skip_bounds [OF that] v by simp
  note no = try_address_no_error [OF st(1) assms(2) x assms(3)]
  show "alloc_step st out a s \<noteq> Inl (Inl (Err e), a', s')"
    unfolding step using no(1) by (auto split: option.splits)
  show "alloc_step st out a s = Inr (out', a', s') \<Longrightarrow> inv s' \<and> view s' = view s"
    unfolding step using no(2) by (auto split: option.splits if_splits)
qed

lemma alloc_loop_no_error:
  "alloc_loop ips out a s = Some z \<Longrightarrow> ips = st \<longrightarrow>
    (\<forall>v. alloc_at a p v \<and> inv s \<and> view s (ipnet_String p) \<noteq> None \<longrightarrow> fst z \<noteq> Inl (Err e))"
proof (induction rule: alloc_loop.raw_induct [rotated, consumes 1, case_names step])
  case (step loop ips out a s z)
  show ?case
  proof (intro allI impI; elim conjE)
    fix v assume st: "ips = st" and h: "alloc_at a p v" "inv s" "view s (ipnet_String p) \<noteq> None"
    show "fst z \<noteq> Inl (Err e)"
    proof (cases "alloc_step st out a s")
      case (Inl r)
      then show ?thesis using step(2) alloc_step_no_error(1) [OF h, of out e] st by (cases z) auto
    next
      case (Inr y)
      then obtain out' a' s' where y: "alloc_step st out a s = Inr (out', a', s')" by (cases y) auto
      obtain w where "alloc_at a' p w"
        using alloc_step_state [OF h(1) y] h(1) by (auto simp: alloc_at_def)
      moreover have "loop ips out' a' s' = Some z" using step(2) y st by simp
      ultimately show ?thesis using step(1) alloc_step_no_error(2) [OF h y] st h(3) by metis
    qed
  qed
qed

lemma simple_Allocate_no_error:
  assumes "alloc_at a p v" "inv s" "view s (ipnet_String p) \<noteq> None" "sia_f a = f"
  shows "simple_Allocate st f a s \<noteq> Some (Inl (Err e), a', s')"
  using alloc_loop_no_error [of st False a s "(Inl (Err e), a', s')" p e] assms by (auto simp: simple_Allocate_def)

end

section \<open>Repeated calls\<close>

fun allocate_times :: "'s IPStore \<Rightarrow> nat \<Rightarrow> simpleIPAllocator \<Rightarrow> 's \<Rightarrow>
    ((fault + ipnet list option) list \<times> simpleIPAllocator \<times> 's) option" where
  "allocate_times st 0 a s = Some ([], a, s)"
| "allocate_times st (Suc n) a s =
     (case simple_Allocate st (sia_f a) a s of
        None \<Rightarrow> None
      | Some (r, a', s') \<Rightarrow> map_option (\<lambda>(rs, y). (r # rs, y)) (allocate_times st n a' s'))"

lemma allocated_insert:
  assumes "prefix_ok p" "family_ok p" "net_base p \<le> x" "x \<le> net_last p" "net_base p \<le> y" "y \<le> net_last p"
    "v (ipnet_String p) \<noteq> None"
  shows "allocated (view_insert p (alloc_addr p x) v) p (alloc_addr p y) \<longleftrightarrow>
    x = y \<or> allocated v p (alloc_addr p y)"
proof -
  note x = alloc_addr_ok [OF assms(1-4)] and y = alloc_addr_ok [OF assms(1,2,5,6)]
  have "ipnet_String (alloc_addr p y) = ipnet_String (alloc_addr p x) \<longleftrightarrow> x = y"
    using ipnet_String_inj(1) [OF y(1) x(1)] x(3) y(3) by auto
  then show ?thesis using assms(7) by (auto simp: allocated_def view_insert_def)
qed

lemma candidates_range:
  assumes "alloc_static a p" "x \<in> set (candidates R (a_start a) (a_last a))"
  shows "net_base p \<le> x" "x \<le> net_last p"
  using alloc_static_range [OF assms(1)] assms(2) by (auto simp: set_candidates)

lemma distinct_candidates: "distinct (candidates R lo hi)"
  by (simp add: candidates_def del: upt_Suc)

context reliable_ip_store
begin

lemma allocate_times_from:
  assumes "alloc_ready a p v" "inv s" "view s (ipnet_String p) \<noteq> None" "k \<le> length C"
    "C = candidates (set (a_reserved a)) (a_start a) (a_last a)"
    "candidates (set (a_reserved a)) v (a_last a) = (if k < length C then drop k C else C)"
    "\<forall>x\<in>set C. allocated (view s) p (alloc_addr p x) \<longleftrightarrow> x \<in> set (take k C)"
    "n \<le> Suc (length C - k)"
  shows "\<exists>a' s'. allocate_times st n a s = Some
      (map (\<lambda>x. Inr (Some [alloc_addr p x])) (take n (drop k C)) @ (if length C - k < n then [Inr None] else []), a', s') \<and>
    inv s' \<and> same_static a a' \<and> view s' (ipnet_String p) \<noteq> None \<and>
    (\<forall>y. net_base p \<le> y \<and> y \<le> net_last p \<longrightarrow> (allocated (view s') p (alloc_addr p y) \<longleftrightarrow>
       allocated (view s) p (alloc_addr p y) \<or> y \<in> set (take n (drop k C)))) \<and>
    (length C - k < n \<longrightarrow> ready_after a' p False)"
  using assms
proof (induction n arbitrary: a s v k)
  case (Suc n)
  let ?R = "set (a_reserved a)" and ?U = "a_last a"
  have st: "alloc_static a p" and v: "net_base p \<le> v"
    using Suc.prems(1) by (auto simp: alloc_ready_def alloc_at_def cursor_at_def)
  let ?f = "first_free p (view s) (candidates ?R v ?U @ candidates ?R (a_start a) ?U)"
  obtain a' s' where r: "simple_Allocate st (sia_f a) a s = Some (Inr (map_option (\<lambda>x. [alloc_addr p x]) ?f), a', s')"
    "inv s'" "same_static a a'" "\<forall>x. ?f = Some x \<longrightarrow> ready_next a a' p x"
    "view s' = (case ?f of None \<Rightarrow> view s | Some x \<Rightarrow> view_insert p (alloc_addr p x) (view s))"
    using simple_Allocate_first [OF Suc.prems(1,2) v Suc.prems(3)] by blast
  have num: "a_start a' = a_start a" "a_last a' = a_last a" "a_reserved a' = a_reserved a"
    using same_static_numbers [OF r(3)] by auto
  have dist: "distinct C" unfolding Suc.prems(5) by (rule distinct_candidates)
  show ?case
  proof (cases "k < length C")
    case True
    define x where "x = C ! k"
    have dk: "drop k C = x # drop (Suc k) C" using True by (simp add: x_def Cons_nth_drop_Suc)
    have xC: "x \<in> set C" using True by (simp add: x_def)
    have "x \<notin> set (take k C)"
      using dist True by (auto simp: x_def in_set_conv_nth nth_eq_iff_index_eq)
    then have f: "?f = Some x"
      using Suc.prems(6,7) True dk xC by (simp add: first_free_def)
    obtain w where w: "alloc_ready a' p w" "candidates ?R w ?U = next_candidates a x"
      using r(4) f by (auto simp: ready_next_def)
    have "candidates ?R v ?U = x # drop (Suc k) C" using Suc.prems(6) True dk by simp
    then have "candidates ?R (Suc x) ?U = drop (Suc k) C" by (rule candidates_Suc)
    then have w3: "candidates ?R w ?U = (if Suc k < length C then drop (Suc k) C else C)"
      using w(2) Suc.prems(5) by (simp add: next_candidates_def Let_def)
    have known: "view s (ipnet_String p) \<noteq> None" by (rule Suc.prems(3))
    have al: "allocated (view s') p (alloc_addr p y) \<longleftrightarrow> y \<in> set (take (Suc k) C)" if "y \<in> set C" for y
      using allocated_insert [of p x y "view s"] candidates_range [OF st] xC that Suc.prems(5,7) r(5) f st known
        True
      by (auto simp: alloc_static_def x_def take_Suc_conv_app_nth)
    have k': "view s' (ipnet_String p) \<noteq> None" using r(5) f known by (simp add: view_insert_def)
    have "n \<le> Suc (length C - Suc k)" "Suc k \<le> length C" using Suc.prems(8) True by linarith+
    then obtain a2 s2 where ih: "allocate_times st n a' s' = Some
      (map (\<lambda>x. Inr (Some [alloc_addr p x])) (take n (drop (Suc k) C)) @
        (if length C - Suc k < n then [Inr None] else []), a2, s2)"
      "inv s2" "same_static a' a2" "view s2 (ipnet_String p) \<noteq> None"
      "\<forall>y. net_base p \<le> y \<and> y \<le> net_last p \<longrightarrow> (allocated (view s2) p (alloc_addr p y) \<longleftrightarrow>
         allocated (view s') p (alloc_addr p y) \<or> y \<in> set (take n (drop (Suc k) C)))"
      "length C - Suc k < n \<longrightarrow> ready_after a2 p False"
      using Suc.IH [OF w(1) r(2) k', of "Suc k"] num Suc.prems(5) w3 al by auto
    have "allocated (view s') p (alloc_addr p y) \<longleftrightarrow> x = y \<or> allocated (view s) p (alloc_addr p y)"
      if "net_base p \<le> y" "y \<le> net_last p" for y
      using allocated_insert [of p x y "view s"] candidates_range [OF st] xC that Suc.prems(5) r(5) f st known
      by (auto simp: alloc_static_def)
    moreover have "length C - k < Suc n \<longleftrightarrow> length C - Suc k < n" using True by linarith
    ultimately show ?thesis
      using r(1) f dk ih same_static_trans [OF r(3) ih(3)] by (intro exI [of _ a2] exI [of _ s2]) auto
  next
    case False
    then have k: "k = length C" using Suc.prems(4) by simp
    then have n: "n = 0" "drop k C = []" using Suc.prems(8) by simp_all
    have "?f = None"
      using Suc.prems(5,6,7) k by (simp add: first_free_def find_None_iff)
    moreover have "ready_after a' p False"
      using simple_Allocate_first [OF Suc.prems(1,2) v Suc.prems(3)] \<open>?f = None\<close> r(1) by auto
    ultimately show ?thesis using r Suc.prems(3) k n by (intro exI [of _ a'] exI [of _ s']) simp
  qed
qed (simp add: same_static_def)

end

definition subnet_ok :: "Subnet \<Rightarrow> bool" where
  "subnet_ok x \<longleftrightarrow> net_ok (Subnet_Subnet x) \<and> family_ok (NewPrefix (Subnet_Subnet x))"

definition starts :: "simpleIPAllocator \<Rightarrow> Subnet \<Rightarrow> bool" where
  "starts a x \<longleftrightarrow> alloc_at a (NewPrefix (Subnet_Subnet x)) (range_start x) \<and> fits a x"

text \<open>The configurations the loop is meant for: reserved addresses in ascending order, not the one after
  the range, and something left to hand out.\<close>

definition subnet_ready :: "Subnet \<Rightarrow> bool" where
  "subnet_ready x \<longleftrightarrow> sorted_wrt (<) (map ipval (Subnet_Reserved x)) \<and>
     (range_last x \<noteq> net_last (Subnet_Subnet x) \<longrightarrow> Suc (range_last x) \<notin> ipval ` set (Subnet_Reserved x)) \<and>
     candidates (ipval ` set (Subnet_Reserved x)) (range_start x) (range_last x) \<noteq> []"

lemma starts_ready:
  assumes "starts a x" "subnet_ready x"
  shows "alloc_ready a (NewPrefix (Subnet_Subnet x)) (range_start x)"
  using assms by (auto simp: starts_def fits_def subnet_ready_def alloc_ready_def)

text \<open>The addresses in a list of results.\<close>

definition handed_out :: "(fault + ipnet list option) list \<Rightarrow> ipnet list" where
  "handed_out rs = concat (map (\<lambda>r. case r of Inr (Some ips) \<Rightarrow> ips | _ \<Rightarrow> []) rs)"

context ip_store
begin

lemma allocate_times_safe:
  assumes "alloc_at a p v" "inv s"
  shows "\<exists>rs a' s'. allocate_times st n a s = Some (rs, a', s') \<and> length rs = n \<and> inv s' \<and>
    distinct (map ipnet_String (handed_out rs)) \<and>
    (\<forall>ip\<in>set (handed_out rs). net_ok ip \<and> contains p (IP ip) \<and> \<not> allocated (view s) p ip)"
  using assms
proof (induction n arbitrary: a s v)
  case 0
  then show ?case by (simp add: handed_out_def)
next
  case (Suc n)
  obtain r a1 s1 w where l: "alloc_loop st False a s = Some (r, a1, s1)" "alloc_at a1 p w" "inv s1"
    "alloc_safe p (view s) (view s1) r"
    using alloc_loop_safe [OF Suc.prems, of False] by blast
  have p: "prefix_ok p" "family_ok p" using Suc.prems(1) by (auto simp: alloc_at_def alloc_static_def)
  have one: "simple_Allocate st (sia_f a) a s = Some (r, a1, s1)" using l(1) by (simp add: simple_Allocate_def)
  obtain rs a2 s2 where ih: "allocate_times st n a1 s1 = Some (rs, a2, s2)" "length rs = n" "inv s2"
    "distinct (map ipnet_String (handed_out rs))"
    "\<forall>ip\<in>set (handed_out rs). net_ok ip \<and> contains p (IP ip) \<and> \<not> allocated (view s1) p ip"
    using Suc.IH [OF l(2,3)] by blast
  show ?case
  proof (cases "\<exists>ips. r = Inr (Some ips)")
    case True
    then obtain x where x: "r = Inr (Some [alloc_addr p x])" "net_base p \<le> x" "x \<le> net_last p"
      "view s (ipnet_String p) \<noteq> None" "\<not> allocated (view s) p (alloc_addr p x)"
      "view s1 = view_insert p (alloc_addr p x) (view s)"
      using l(4) by (auto simp: alloc_safe_def)
    have "allocated (view s1) p ip \<longleftrightarrow> ipnet_String ip = ipnet_String (alloc_addr p x) \<or> allocated (view s) p ip" for ip
      using x(4) unfolding x(6) by (auto simp: allocated_def view_insert_def)
    then have "ipnet_String (alloc_addr p x) \<notin> ipnet_String ` set (handed_out rs)"
      "\<forall>ip\<in>set (handed_out rs). \<not> allocated (view s) p ip" using ih(5) by auto
    moreover have "handed_out (r # rs) = alloc_addr p x # handed_out rs" using x(1) by (simp add: handed_out_def)
    ultimately show ?thesis
      using one ih alloc_addr_ok [OF p x(2,3)] x(5) by auto
  next
    case False
    then have "view s1 = view s" using l(4) by (auto simp: alloc_safe_def split: sum.splits option.splits)
    moreover have "handed_out (r # rs) = handed_out rs"
      using False by (auto simp: handed_out_def split: sum.splits option.splits)
    ultimately show ?thesis using one ih by simp
  qed
qed

end

context reliable_ip_store
begin

lemma SimpleIPAllocator_ok:
  assumes "subnet_ok x" "inv s"
  shows "Validate x = Inr () \<Longrightarrow> \<exists>a s'. SimpleIPAllocator st x s = (Inr a, s') \<and> starts a x \<and> inv s' \<and>
      other s' = other s \<and> view s' (ipnet_String (Subnet_Subnet x)) \<noteq> None \<and>
      (\<forall>t. t \<noteq> ipnet_String (Subnet_Subnet x) \<longrightarrow> view s' t = view s t)"
    and "Validate x = Inl e \<Longrightarrow> SimpleIPAllocator st x s = (Inl (Err (InvalidSubnet e)), s)"
proof -
  have n: "net_ok (Subnet_Subnet x)" "family_ok (NewPrefix (Subnet_Subnet x))"
    using assms(1) by (auto simp: subnet_ok_def)
  obtain s' where s': "ip_SaveSubnet st (Subnet_Subnet x) s = (Inr (), s')"
    using SaveSubnet_reliable [OF assms(2)] by blast
  have o: "inv s'" "other s' = other s"
    using SaveSubnet_inv [OF assms(2) n(1)] SaveSubnet_other [of "Subnet_Subnet x" s] s' by auto
  note v = SaveSubnet_done [OF assms(2) s']
  show "\<exists>a s'. SimpleIPAllocator st x s = (Inr a, s') \<and> starts a x \<and> inv s' \<and>
      other s' = other s \<and> view s' (ipnet_String (Subnet_Subnet x)) \<noteq> None \<and>
      (\<forall>t. t \<noteq> ipnet_String (Subnet_Subnet x) \<longrightarrow> view s' t = view s t)" if val: "Validate x = Inr ()"
  proof -
    obtain a where "new_simple x = Inr a" "starts a x"
      using new_simple_ok [OF n(1) val n(2)] by (auto simp: starts_def)
    then show ?thesis using val s' o v by (auto simp: SimpleIPAllocator_def)
  qed
  show "Validate x = Inl e \<Longrightarrow> SimpleIPAllocator st x s = (Inl (Err (InvalidSubnet e)), s)"
    by (simp add: SimpleIPAllocator_def)
qed

end

section \<open>Properties of an allocator on the memory store\<close>

lemma mem_new_allocator:
  assumes "subnet_ok x" "mem_ok s0" "SimpleIPAllocator mem_ips x s0 = (Inr a, s)"
  shows "starts a x" "mem_ok s" "subnets s (ipnet_String (NewPrefix (Subnet_Subnet x))) = Some {}"
proof -
  have v: "Validate x = Inr ()"
    using assms(3) by (cases "Validate x") (auto simp: SimpleIPAllocator_def)
  show "starts a x" "mem_ok s" using mem.SimpleIPAllocator_ok(1) [OF assms(1,2) v] assms(3) by auto
  have "s = snd (memoryStore_SaveSubnet (Subnet_Subnet x) s0)"
    using assms(3) v by (simp add: SimpleIPAllocator_def mem_ips_def memoryStore_SaveSubnet_def)
  then show "subnets s (ipnet_String (NewPrefix (Subnet_Subnet x))) = Some {}"
    using assms(1) NewPrefix_same(8) by (simp add: memoryStore_SaveSubnet_def subnet_ok_def)
qed

text \<open>A subnet of IPv4 addresses, 10.0.0.0/l.\<close>

definition ten_subnet :: "nat \<Rightarrow> byte option \<Rightarrow> byte option \<Rightarrow> byte list \<Rightarrow> Subnet" where
  "ten_subnet l a b rs = \<lparr>Subnet_Subnet = \<lparr>IP = [10, 0, 0, 0], Mask = CIDRMask l 32\<rparr>,
     Subnet_Start = map_option (\<lambda>x. [10, 0, 0, x]) a, Subnet_End = map_option (\<lambda>x. [10, 0, 0, x]) b,
     Subnet_Reserved = map (\<lambda>x. [10, 0, 0, x]) rs\<rparr>"

definition demo_subnet :: Subnet where
  "demo_subnet = ten_subnet 30 None None [0]"

lemma demo_subnet_ok: "subnet_ok demo_subnet" "subnet_ready demo_subnet" "Validate demo_subnet = Inr ()"
  by code_simp+

lemma demo_allocator:
  obtains a s where "SimpleIPAllocator mem_ips demo_subnet MemoryStore = (Inr a, s)"
  using mem.SimpleIPAllocator_ok(1) [OF demo_subnet_ok(1) mem_ok_MemoryStore demo_subnet_ok(3)] by blast

lemma demo_candidates:
  "candidates (ipval ` set (Subnet_Reserved demo_subnet)) (range_start demo_subnet) (range_last demo_subnet) =
    [mapped_base + 167772161, mapped_base + 167772162, mapped_base + 167772163]"
  by code_simp

text \<open>The first calls on a new allocator, and the state they leave.\<close>

lemma new_allocator_run:
  assumes "subnet_ok x" "subnet_ready x" "mem_ok s0" "SimpleIPAllocator mem_ips x s0 = (Inr a, s)"
    "C = candidates (ipval ` set (Subnet_Reserved x)) (range_start x) (range_last x)" "n \<le> Suc (length C)"
  defines "p \<equiv> NewPrefix (Subnet_Subnet x)"
  shows "\<exists>a' s'. allocate_times mem_ips n a s =
      Some (map (\<lambda>y. Inr (Some [alloc_addr p y])) (take n C) @ (if length C < n then [Inr None] else []), a', s') \<and>
    mem_ok s' \<and> same_static a a' \<and> subnets s' (ipnet_String p) \<noteq> None \<and>
    (\<forall>y. net_base p \<le> y \<and> y \<le> net_last p \<longrightarrow>
       (allocated (subnets s') p (alloc_addr p y) \<longleftrightarrow> y \<in> set (take n C))) \<and>
    (length C < n \<longrightarrow> ready_after a' p False)"
proof -
  note new = mem_new_allocator [OF assms(1,3,4)]
  have f: "a_start a = range_start x" "a_last a = range_last x"
    "set (a_reserved a) = ipval ` set (Subnet_Reserved x)"
    using new(1) by (auto simp: starts_def fits_def)
  have c: "C = candidates (set (a_reserved a)) (a_start a) (a_last a)" unfolding f by (rule assms(5))
  have v: "candidates (set (a_reserved a)) (range_start x) (a_last a) = (if 0 < length C then drop 0 C else C)"
    using c f(1) by simp
  have known: "subnets s (ipnet_String p) = Some {}" using new(3) by (simp add: p_def)
  then have none: "\<forall>y\<in>set C. allocated (subnets s) p (alloc_addr p y) \<longleftrightarrow> y \<in> set (take 0 C)"
    by (simp add: allocated_def)
  have k: "subnets s (ipnet_String p) \<noteq> None" using known by simp
  have "n \<le> Suc (length C - 0)" using assms(6) by simp
  from mem.allocate_times_from [OF starts_ready [OF new(1) assms(2), folded p_def] new(2) k _ c v none this]
  show ?thesis using known by (simp only: drop_0 diff_zero le0 simp_thms) (simp add: allocated_def)
qed

text \<open>C4: A new allocator over the memory store, whose table for the subnet has just been emptied, hands out over
  repeated calls every address of its range that is not reserved, each once and in ascending order, and then
  reports that it is out of addresses.  This is for subnets whose reserved addresses are listed in strictly
  ascending order, do not include the one after the range, and leave something to hand out.\<close>

theorem new_allocator_enumerates:
  assumes "subnet_ok x" "subnet_ready x" "mem_ok s0" "SimpleIPAllocator mem_ips x s0 = (Inr a, s)"
    "C = candidates (ipval ` set (Subnet_Reserved x)) (range_start x) (range_last x)" "n \<le> Suc (length C)"
  shows "\<exists>a' s'. allocate_times mem_ips n a s =
    Some (map (\<lambda>y. Inr (Some [alloc_addr (NewPrefix (Subnet_Subnet x)) y])) (take n C) @
      (if length C < n then [Inr None] else []), a', s')"
  using new_allocator_run [OF assms] by blast

theorem new_allocator_enumerates_witness:
  "\<exists>a s a' s'. SimpleIPAllocator mem_ips demo_subnet MemoryStore = (Inr a, s) \<and>
    allocate_times mem_ips 4 a s = Some (map (\<lambda>y. Inr (Some [alloc_addr (NewPrefix (Subnet_Subnet demo_subnet)) y]))
      [mapped_base + 167772161, mapped_base + 167772162, mapped_base + 167772163] @ [Inr None], a', s')"
proof -
  obtain a s where a: "SimpleIPAllocator mem_ips demo_subnet MemoryStore = (Inr a, s)"
    by (rule demo_allocator)
  show ?thesis
    using new_allocator_enumerates [OF demo_subnet_ok(1,2) mem_ok_MemoryStore a refl, of 4] a
    unfolding demo_candidates by simp
qed

text \<open>C5: Where the reserved addresses are in strictly ascending order and do not include the one after the range, and
  there is a candidate (an address of the range that is not reserved) from the cursor on and from the start on, one
  call of \<open>Allocate\<close> returns the first candidate that the store does not have as allocated, going from the cursor to
  the end of the range and then from its start; it marks that address and nothing else, the cursor moves on to the
  next candidate, and it returns false exactly when every candidate is allocated.\<close>

theorem Allocate_first_free:
  assumes "alloc_ready a p v" "mem_ok s" "subnets s (ipnet_String p) \<noteq> None"
    "f = first_free p (subnets s) (candidates (set (a_reserved a)) v (a_last a) @
      candidates (set (a_reserved a)) (a_start a) (a_last a))"
  shows "\<exists>a' s'. simple_Allocate mem_ips (sia_f a) a s =
      Some (Inr (map_option (\<lambda>x. [alloc_addr p x]) f), a', s') \<and> leases s' = leases s \<and>
    (\<forall>x. f = Some x \<longrightarrow> ready_next a a' p x) \<and>
    subnets s' = (case f of None \<Rightarrow> subnets s | Some x \<Rightarrow> view_insert p (alloc_addr p x) (subnets s))"
proof -
  have "net_base p \<le> v" using assms(1) by (simp add: alloc_ready_def alloc_at_def cursor_at_def)
  then show ?thesis using mem.simple_Allocate_first [OF assms(1,2) _ assms(3)] assms(4) by blast
qed

theorem Allocate_first_free_witness:
  "\<exists>a s a' s'. SimpleIPAllocator mem_ips demo_subnet MemoryStore = (Inr a, s) \<and>
    simple_Allocate mem_ips (sia_f a) a s =
      Some (Inr (Some [alloc_addr (NewPrefix (Subnet_Subnet demo_subnet)) (mapped_base + 167772161)]), a', s')"
proof -
  obtain a s where a: "SimpleIPAllocator mem_ips demo_subnet MemoryStore = (Inr a, s)"
    by (rule demo_allocator)
  note new = mem_new_allocator [OF demo_subnet_ok(1) mem_ok_MemoryStore a]
  let ?p = "NewPrefix (Subnet_Subnet demo_subnet)"
  have f: "a_start a = range_start demo_subnet" "a_last a = range_last demo_subnet"
    "set (a_reserved a) = ipval ` set (Subnet_Reserved demo_subnet)"
    using new(1) by (auto simp: starts_def fits_def)
  have "subnets s (ipnet_String ?p) \<noteq> None" using new(3) by simp
  from Allocate_first_free [OF starts_ready [OF new(1) demo_subnet_ok(2)] new(2) this refl]
  obtain a' s' where r: "simple_Allocate mem_ips (sia_f a) a s = Some (Inr (map_option (\<lambda>x. [alloc_addr ?p x])
      (first_free ?p (subnets s) (candidates (set (a_reserved a)) (range_start demo_subnet) (a_last a) @
        candidates (set (a_reserved a)) (a_start a) (a_last a)))), a', s')"
    by blast
  have "first_free ?p (subnets s) ((mapped_base + 167772161) # cs) = Some (mapped_base + 167772161)" for cs
    using new(3) by (simp add: first_free_def allocated_def)
  then show ?thesis using a r unfolding f demo_candidates by (simp only: append_Cons option.map) blast
qed

text \<open>C6: With any configuration that is accepted, in particular any list of reserved addresses, every call
  of \<open>Allocate\<close> comes to an end, and the addresses handed out lie in the subnet, were free in the store,
  and are all different.\<close>

theorem Allocate_ends_and_never_repeats:
  assumes "subnet_ok x" "mem_ok s0" "SimpleIPAllocator mem_ips x s0 = (Inr a, s)"
  shows "\<exists>rs a' s'. allocate_times mem_ips n a s = Some (rs, a', s') \<and> length rs = n \<and>
    distinct (map ipnet_String (handed_out rs)) \<and>
    (\<forall>ip\<in>set (handed_out rs). contains (Subnet_Subnet x) (IP ip) \<and> \<not> allocated (subnets s) (Subnet_Subnet x) ip)"
proof -
  note new = mem_new_allocator [OF assms]
  have at: "alloc_at a (NewPrefix (Subnet_Subnet x)) (range_start x)" using new(1) by (simp add: starts_def)
  have n: "net_ok (Subnet_Subnet x)" using assms(1) by (simp add: subnet_ok_def)
  have "allocated v (NewPrefix (Subnet_Subnet x)) ip = allocated v (Subnet_Subnet x) ip" for v ip
    by (simp add: allocated_def NewPrefix_same [OF n])
  then show ?thesis using mem.allocate_times_safe [OF at new(2), of n] by (simp add: NewPrefix_same [OF n]) metis
qed

theorem Allocate_ends_and_never_repeats_witness:
  "\<exists>a s rs a' s'. SimpleIPAllocator mem_ips demo_subnet MemoryStore = (Inr a, s) \<and>
    allocate_times mem_ips 6 a s = Some (rs, a', s') \<and> distinct (map ipnet_String (handed_out rs))"
proof -
  obtain a s where a: "SimpleIPAllocator mem_ips demo_subnet MemoryStore = (Inr a, s)"
    by (rule demo_allocator)
  show ?thesis using Allocate_ends_and_never_repeats [OF demo_subnet_ok(1) mem_ok_MemoryStore a, of 6] a by blast
qed

text \<open>C7: \<open>Validate\<close> accepts a network with a valid address and mask exactly when it has no host bits set,
  the start, the end and every reserved address lie inside it, and the start is not after the end in the order of
  \<open>bytes.Compare\<close>: as numbers if both are written with equally many bytes; if one has 4 bytes and the other 16,
  the 16-byte one counts as the smaller, except next to 0.0.0.0 written with 4.\<close>

theorem Validate_accepts:
  assumes "net_ok (Subnet_Subnet s)"
  shows "Validate s = Inr () \<longleftrightarrow> ipval (IP (Subnet_Subnet s)) = net_base (Subnet_Subnet s) \<and>
    (\<forall>a. Subnet_Start s = Some a \<longrightarrow> inside (Subnet_Subnet s) a) \<and>
    (\<forall>b. Subnet_End s = Some b \<longrightarrow> inside (Subnet_Subnet s) b) \<and>
    (\<forall>a b. Subnet_Start s = Some a \<and> Subnet_End s = Some b \<longrightarrow> not_after a b) \<and>
    (\<forall>r\<in>set (Subnet_Reserved s). inside (Subnet_Subnet s) r)"
proof -
  have "\<not> b < a \<longleftrightarrow> not_after a b" if "inside (Subnet_Subnet s) a" "inside (Subnet_Subnet s) b" for a b
    using that bytes_less_ip [of a b] by (simp add: inside_def)
  then show ?thesis unfolding Validate_iff [OF assms] contains_inside [OF assms] by blast
qed

theorem Validate_accepts_witness:
  "Validate (ten_subnet 30 (Some 1) (Some 2) [2, 0]) = Inr () \<and>
   Validate (ten_subnet 30 (Some 2) (Some 1) []) \<noteq> Inr ()"
proof -
  have "net_ok (Subnet_Subnet demo_subnet)" using demo_subnet_ok(1) by (simp add: subnet_ok_def)
  then have n: "net_ok (Subnet_Subnet (ten_subnet 30 a b r))" for a b r
    by (simp add: demo_subnet_def ten_subnet_def)
  have d: "Subnet_Start (ten_subnet 30 a b r) = map_option (\<lambda>x. [10, 0, 0, x]) a"
    "Subnet_End (ten_subnet 30 a b r) = map_option (\<lambda>x. [10, 0, 0, x]) b" for a b r
    by (simp_all add: ten_subnet_def)
  have i: "inside (Subnet_Subnet (ten_subnet 30 (Some 1) (Some 2) [2, 0])) [10, 0, 0, x]" if "x \<in> {0, 1, 2}" for x
    using that by (elim insertE; simp) code_simp+
  have "ipval (IP (Subnet_Subnet (ten_subnet 30 (Some 1) (Some 2) [2, 0]))) =
      net_base (Subnet_Subnet (ten_subnet 30 (Some 1) (Some 2) [2, 0]))" by code_simp
  moreover have "not_after [10, 0, 0, 1] [10, 0, 0, 2]" "\<not> not_after [10, 0, 0, 2] [10, 0, 0, 1]" by code_simp+
  ultimately show ?thesis
    unfolding Validate_accepts [OF n] d using i by (simp add: ten_subnet_def)
qed
end
