(* ===== verification/Allocator_Limits.thy ===== *)
theory Allocator_Limits
  imports Allocator
begin

text \<open>
  What \<open>simpleIPAllocator\<close> does outside the conditions its loop is made for: reserved addresses out of
  order, the address after the range reserved, and the calls after the one that reports exhaustion.
\<close>

section \<open>One call\<close>

context reliable_ip_store
begin

lemma allocate_fresh:
  assumes a: "alloc_at a p v" and s: "inv s" "view s (ipnet_String p) \<noteq> None"
    and w: "walk_skip (net_last p) (a_reserved a) v (Suc v) = Some (x, y)" "x \<le> net_last p"
    and free: "\<not> allocated (view s) p (alloc_addr p x)"
  shows "\<exists>a' s'. simple_Allocate st (sia_f a) a s = Some (Inr (Some [alloc_addr p x]), a', s')"
proof -
  have st: "alloc_static a p" and cur: "cursor_at (sia_c a) p v" and v: "net_base p \<le> v" "v \<le> net_last p"
    using a by (auto simp: alloc_at_def cursor_at_def)
  have x: "net_base p \<le> x" using walk_skip_bounds [OF w(1)] v by simp
  obtain c' where step: "alloc_step st False a s = (if y = Suc (net_last p) \<or> y = Suc (a_last a)
      then try_address st (a\<lparr>sia_c := c'\<rparr>) True (pos_of p x) s
      else try_address st (a\<lparr>sia_c := c'\<rparr>) False (pos_of p x) s)"
    using alloc_step_of [OF st cur, of st False s] unfolding w(1) option.case prod.case by auto
  have c: "contains p (IP (alloc_addr p x))"
    using alloc_addr_ok(2) [of p x] st x w(2) by (simp add: alloc_static_def)
  obtain s' where "ip_AllocateIP st p (alloc_addr p x) s = (Inr True, s')"
    using AllocateIP_eq [OF s(1) c s(2)] free by auto
  then have "try_address st a' out (pos_of p x) s = Inl (Inr (Some [alloc_addr p x]), a', s')" for a' out
    using try_address_of [OF st, of st a' out x s] w(2) by simp
  then show ?thesis using step by (simp add: simple_Allocate_def alloc_loop.simps)
qed

end

context ip_store
begin

lemma allocate_nil:
  assumes a: "alloc_at a p v" and w: "walk_skip (net_last p) (a_reserved a) v (Suc v) = Some (x, y)" "net_last p < x"
  shows "\<exists>a'. simple_Allocate st (sia_f a) a s = Some (Inl (Panic NilDereference), a', s)"
proof -
  have st: "alloc_static a p" and c: "cursor_at (sia_c a) p v"
    using a by (auto simp: alloc_at_def)
  obtain c' where step: "alloc_step st False a s = (if y = Suc (net_last p) \<or> y = Suc (a_last a)
      then try_address st (a\<lparr>sia_c := c'\<rparr>) True (pos_of p x) s
      else try_address st (a\<lparr>sia_c := c'\<rparr>) False (pos_of p x) s)"
    using alloc_step_of [OF st c, of st False s] unfolding w(1) option.case prod.case by auto
  have "try_address st a' out (pos_of p x) s = Inl (Inl (Panic NilDereference), a', s)" for a' out
    using try_address_of [OF st, of st a' out x s] w(2) by simp
  then show ?thesis using step by (simp add: simple_Allocate_def alloc_loop.simps)
qed

end

text \<open>The loop over a list whose other entries are in order.\<close>

lemma walk_skip_finds:
  assumes "sorted_wrt (<) rs" "x \<notin> set rs" "v \<le> x" "x \<le> L" "\<forall>z. v \<le> z \<and> z < x \<longrightarrow> z \<in> set rs"
  shows "\<exists>y. walk_skip L rs v (Suc v) = Some (x, y)"
proof -
  obtain x' y' where w: "walk_skip L rs v (Suc v) = Some (x', y')" "v \<le> x'" "x' \<notin> set rs"
    "\<forall>z. v \<le> z \<and> z < x' \<longrightarrow> z \<in> set rs"
    using walk_skip_sorted [of rs "{}" v "Suc v" L] assms by auto
  have "x' = x" using w(2-4) assms(2,3,5) by (metis linorder_neqE_nat)
  then show ?thesis using w(1) by blast
qed

lemma walk_skip_last:
  "sorted_wrt (<) rs \<Longrightarrow> \<forall>r\<in>set rs. r \<le> L \<Longrightarrow> L \<in> set rs \<Longrightarrow> walk_skip L rs L (Suc L) = Some (Suc L, Suc L)"
proof (induction rs)
  case (Cons r rs)
  show ?case
  proof (cases "r = L")
    case True
    then have "rs = []" using Cons.prems(1,2) by (cases rs) auto
    then show ?thesis using True by simp
  qed (use Cons in auto)
qed simp

text \<open>The next position is never a reserved one.\<close>

lemma walk_skip_next:
  "sorted_wrt (<) rs \<Longrightarrow> \<forall>d\<in>D. \<forall>r\<in>set rs. d < r \<Longrightarrow> x < y \<or> L < x \<and> L < y \<Longrightarrow> y \<le> L \<longrightarrow> y \<notin> D \<Longrightarrow>
    walk_skip L rs x y = Some (x', y') \<Longrightarrow> y' \<le> L \<Longrightarrow> y' \<notin> D \<union> set rs"
proof (induction rs arbitrary: D x y)
  case (Cons r rs)
  have D: "\<forall>d\<in>insert r D. \<forall>r'\<in>set rs. d < r'" "sorted_wrt (<) rs" and x: "x \<le> L" "x < y"
    using Cons.prems by (auto split: if_splits)
  have Dr: "d < r" if "d \<in> D" for d using that Cons.prems(2) by simp
  show ?case
  proof (cases "x = r")
    case True
    have "y' \<notin> insert r D \<union> set rs"
    proof (rule Cons.IH [OF D(2,1)])
      show "y < min (Suc y) (Suc L) \<or> L < y \<and> L < min (Suc y) (Suc L)" by auto
      show "min (Suc y) (Suc L) \<le> L \<longrightarrow> min (Suc y) (Suc L) \<notin> insert r D" using x(2) True Dr by fastforce
    qed (use Cons.prems(5,6) True x in auto)
    then show ?thesis by simp
  next
    case False
    have "y' \<notin> insert r D \<union> set rs"
    proof (rule Cons.IH [OF D(2,1)])
      let ?y = "if y \<le> L \<and> y = r then Suc y else y"
      show "x < ?y \<or> L < x \<and> L < ?y" using x by simp
      show "?y \<le> L \<longrightarrow> ?y \<notin> insert r D" using Dr [of "Suc r"] Cons.prems(4) by auto
    qed (use Cons.prems(5,6) False x in auto)
    then show ?thesis by simp
  qed
qed auto

section \<open>Reserved addresses out of order\<close>

text \<open>10.0.0.0/30 with .2 reserved before .0 and .1.\<close>

definition unsorted_subnet :: Subnet where
  "unsorted_subnet = ten_subnet 30 None None [2, 0, 1]"

text \<open>C8: A reserved address is handed out, by the first call on a new allocator, when it is listed before the
  others, and these are in strictly ascending order and include every address from the start of the range up to it,
  which are at least two.\<close>

theorem reserved_out_of_order:
  assumes "subnet_ok x" "mem_ok s0" "SimpleIPAllocator mem_ips x s0 = (Inr a, s)"
    "Subnet_Reserved x = r # rs" "sorted_wrt (<) (map ipval rs)" "Suc (range_start x) < ipval r"
    "ipval r \<notin> ipval ` set rs" "\<forall>z. range_start x \<le> z \<and> z < ipval r \<longrightarrow> z \<in> ipval ` set rs"
  shows "\<exists>a' s'. simple_Allocate mem_ips (sia_f a) a s =
    Some (Inr (Some [alloc_addr (NewPrefix (Subnet_Subnet x)) (ipval r)]), a', s')"
proof -
  let ?p = "NewPrefix (Subnet_Subnet x)" and ?v = "range_start x"
  note new = mem_new_allocator [OF assms(1-3)]
  have at: "alloc_at a ?p ?v" and res: "a_reserved a = ipval r # map ipval rs"
    using new(1) assms(4) by (auto simp: starts_def fits_def)
  have n: "net_ok (Subnet_Subnet x)" using assms(1) by (simp add: subnet_ok_def)
  have "Validate x = Inr ()" using assms(3) by (cases "Validate x") (auto simp: SimpleIPAllocator_def)
  then have "inside (Subnet_Subnet x) r" using Validate_iff [OF n] assms(4) contains_inside [OF n] by simp
  then have L: "ipval r \<le> net_last ?p" by (simp add: inside_def NewPrefix_same(6) [OF n])
  obtain y where "walk_skip (net_last ?p) (map ipval rs) ?v (Suc ?v) = Some (ipval r, y)"
    using walk_skip_finds [OF assms(5), of "ipval r" ?v "net_last ?p"] assms(6-8) L by auto
  then have "walk_skip (net_last ?p) (a_reserved a) ?v (Suc ?v) = Some (ipval r, y)"
    unfolding res using assms(6) L by simp
  moreover have "subnets s (ipnet_String ?p) \<noteq> None" "\<not> allocated (subnets s) ?p (alloc_addr ?p (ipval r))"
    using new(3) by (simp_all add: allocated_def)
  ultimately show ?thesis using mem.allocate_fresh [OF at new(2)] L by blast
qed

section \<open>After exhaustion\<close>

lemma allocate_times_Suc:
  "allocate_times st n a s = Some (rs, a', s') \<Longrightarrow> simple_Allocate st (sia_f a') a' s' = Some (r, a'', s'') \<Longrightarrow>
    allocate_times st (Suc n) a s = Some (rs @ [r], a'', s'')"
proof (induction n arbitrary: a s rs)
  case (Suc n)
  obtain r1 a1 s1 where one: "simple_Allocate st (sia_f a) a s = Some (r1, a1, s1)"
    using Suc.prems(1) by (auto split: option.splits)
  then obtain rs1 where rs: "allocate_times st n a1 s1 = Some (rs1, a', s')" "rs = r1 # rs1"
    using Suc.prems(1) by auto
  then show ?case using one Suc.IH [OF rs(1) Suc.prems(2)] by simp
qed simp

text \<open>All candidates handed out and exhaustion reported: where the allocator stands.\<close>

lemma exhausted:
  assumes "subnet_ok x" "subnet_ready x" "mem_ok s0" "SimpleIPAllocator mem_ips x s0 = (Inr a, s)"
    "C = candidates (ipval ` set (Subnet_Reserved x)) (range_start x) (range_last x)"
    "range_last x \<noteq> net_last (Subnet_Subnet x) \<or> net_last (Subnet_Subnet x) \<in> ipval ` set (Subnet_Reserved x)"
  defines "p \<equiv> NewPrefix (Subnet_Subnet x)"
  shows "\<exists>a' s'. allocate_times mem_ips (Suc (length C)) a s =
      Some (map (\<lambda>y. Inr (Some [alloc_addr p y])) C @ [Inr None], a', s') \<and>
    alloc_at a' p (min (Suc (range_last x)) (net_last p)) \<and> a_reserved a' = map ipval (Subnet_Reserved x) \<and>
    mem_ok s' \<and> subnets s' (ipnet_String p) \<noteq> None \<and>
    (\<forall>y. net_base p \<le> y \<and> y \<le> net_last p \<longrightarrow> (allocated (subnets s') p (alloc_addr p y) \<longleftrightarrow> y \<in> set C))"
proof -
  have new: "starts a x" by (rule mem_new_allocator(1) [OF assms(1,3,4)])
  have n: "net_last p = net_last (Subnet_Subnet x)"
    using assms(1) NewPrefix_same(6) by (simp add: p_def subnet_ok_def)
  obtain a' s' where r: "allocate_times mem_ips (Suc (length C)) a s =
      Some (map (\<lambda>y. Inr (Some [alloc_addr p y])) C @ [Inr None], a', s')"
    "mem_ok s'" "same_static a a'" "subnets s' (ipnet_String p) \<noteq> None"
    "\<forall>y. net_base p \<le> y \<and> y \<le> net_last p \<longrightarrow> (allocated (subnets s') p (alloc_addr p y) \<longleftrightarrow> y \<in> set C)"
    "ready_after a' p False"
    using new_allocator_run [OF assms(1-5), of "Suc (length C)"] unfolding p_def by (auto simp del: allocate_times.simps)
  note num = same_static_numbers [OF r(3)]
  have f: "a_last a' = range_last x" "a_reserved a' = map ipval (Subnet_Reserved x)"
    "sia_end a' = None \<longleftrightarrow> range_last x = net_last p"
    using new num by (auto simp: starts_def fits_def n)
  have "alloc_at a' p (min (Suc (range_last x)) (net_last p))"
    using r(6) assms(6) f n by (auto simp: ready_after_def split: if_splits)
  then show ?thesis using r(1,2,4,5) f(2) by blast
qed

text \<open>C9: With an end to the range before the last address of the subnet, the call after the one that reports
  exhaustion hands out the address after the end (for subnets as in C4, where that address is not reserved).\<close>

theorem beyond_end_after_exhaustion:
  assumes "subnet_ok x" "subnet_ready x" "mem_ok s0" "SimpleIPAllocator mem_ips x s0 = (Inr a, s)"
    "range_last x < net_last (Subnet_Subnet x)"
    "C = candidates (ipval ` set (Subnet_Reserved x)) (range_start x) (range_last x)"
  defines "p \<equiv> NewPrefix (Subnet_Subnet x)"
  shows "\<exists>a' s'. allocate_times mem_ips (Suc (Suc (length C))) a s =
    Some (map (\<lambda>y. Inr (Some [alloc_addr p y])) C @ [Inr None, Inr (Some [alloc_addr p (Suc (range_last x))])], a', s')"
proof -
  let ?v = "Suc (range_last x)"
  have n: "net_last p = net_last (Subnet_Subnet x)"
    using assms(1) NewPrefix_same(6) by (simp add: p_def subnet_ok_def)
  have v: "min ?v (net_last p) = ?v" using assms(5) n by simp
  obtain a' s' where r: "allocate_times mem_ips (Suc (length C)) a s =
      Some (map (\<lambda>y. Inr (Some [alloc_addr p y])) C @ [Inr None], a', s')"
    "alloc_at a' p ?v" "a_reserved a' = map ipval (Subnet_Reserved x)" "mem_ok s'" "subnets s' (ipnet_String p) \<noteq> None"
    "\<forall>y. net_base p \<le> y \<and> y \<le> net_last p \<longrightarrow> (allocated (subnets s') p (alloc_addr p y) \<longleftrightarrow> y \<in> set C)"
    using exhausted [OF assms(1-4,6)] assms(5) v unfolding p_def by auto
  have "net_base p \<le> ?v" using r(2) by (simp add: alloc_at_def cursor_at_def)
  moreover have "?v \<notin> set C" unfolding assms(6) set_candidates by simp
  ultimately have free: "\<not> allocated (subnets s') p (alloc_addr p ?v)" using r(6) assms(5) n by simp
  have "sorted_wrt (<) (a_reserved a')" "?v \<notin> set (a_reserved a')"
    using assms(2,5) r(3) by (auto simp: subnet_ready_def)
  from walk_skip_finds [OF this, of ?v "net_last p"] obtain y where
    "walk_skip (net_last p) (a_reserved a') ?v (Suc ?v) = Some (?v, y)"
    using assms(5) n by (metis Suc_leI linorder_not_le order_refl)
  then obtain a2 s2 where "simple_Allocate mem_ips (sia_f a') a' s' = Some (Inr (Some [alloc_addr p ?v]), a2, s2)"
    using mem.allocate_fresh [OF r(2,4,5) _ _ free] assms(5) n by auto
  from allocate_times_Suc [OF r(1) this] show ?thesis by auto
qed

text \<open>C10: With the last address of the subnet in the range and reserved, the call after the one that reports
  exhaustion dereferences a nil position and panics (for subnets as in C4; the IPv4 subnet of the default
  configuration, whose end is its last address and reserved, has this shape).\<close>

theorem panic_after_exhaustion:
  assumes "subnet_ok x" "subnet_ready x" "mem_ok s0" "SimpleIPAllocator mem_ips x s0 = (Inr a, s)"
    "range_last x = net_last (Subnet_Subnet x)" "range_last x \<in> ipval ` set (Subnet_Reserved x)"
    "C = candidates (ipval ` set (Subnet_Reserved x)) (range_start x) (range_last x)"
  shows "\<exists>a' s'. allocate_times mem_ips (Suc (Suc (length C))) a s =
    Some (map (\<lambda>y. Inr (Some [alloc_addr (NewPrefix (Subnet_Subnet x)) y])) C @
      [Inr None, Inl (Panic NilDereference)], a', s')"
proof -
  let ?p = "NewPrefix (Subnet_Subnet x)"
  have ok: "net_ok (Subnet_Subnet x)" using assms(1) by (simp add: subnet_ok_def)
  note n = NewPrefix_same(6) [OF ok]
  obtain a' s' where r: "allocate_times mem_ips (Suc (length C)) a s =
      Some (map (\<lambda>y. Inr (Some [alloc_addr ?p y])) C @ [Inr None], a', s')"
    "alloc_at a' ?p (net_last ?p)" "a_reserved a' = map ipval (Subnet_Reserved x)"
    using exhausted [OF assms(1-4,7)] assms(5,6) n by auto
  have "Validate x = Inr ()" using assms(4) by (cases "Validate x") (auto simp: SimpleIPAllocator_def)
  then have "\<forall>r\<in>set (a_reserved a'). r \<le> net_last ?p"
    using Validate_iff [OF ok] contains_inside [OF ok] r(3) by (auto simp: inside_def n)
  moreover have "sorted_wrt (<) (a_reserved a')" using assms(2) r(3) by (simp add: subnet_ready_def)
  ultimately have "walk_skip (net_last ?p) (a_reserved a') (net_last ?p) (Suc (net_last ?p)) =
      Some (Suc (net_last ?p), Suc (net_last ?p))"
    using walk_skip_last [of "a_reserved a'" "net_last ?p"] assms(5,6) r(3) n by simp
  then obtain a2 where "simple_Allocate mem_ips (sia_f a') a' s' = Some (Inl (Panic NilDereference), a2, s')"
    using mem.allocate_nil [OF r(2)] by blast
  from allocate_times_Suc [OF r(1) this] show ?thesis by auto
qed

section \<open>The address after the range reserved\<close>

text \<open>An allocator without its end.\<close>

definition drop_end :: "simpleIPAllocator \<Rightarrow> simpleIPAllocator" where
  "drop_end a = a\<lparr>sia_end := None, sia_sub := (sia_sub a)\<lparr>Subnet_End := None\<rparr>\<rparr>"

definition drop_result :: "'s alloc_result \<Rightarrow> 's alloc_result" where
  "drop_result = map_prod id (map_prod drop_end id)"

lemma drop_end_simps [simp]:
  "sia_c (drop_end a) = sia_c a" "sia_start (drop_end a) = sia_start a" "sia_end (drop_end a) = None" "sia_f (drop_end a) = sia_f a"
  "Subnet_Reserved (sia_sub (drop_end a)) = Subnet_Reserved (sia_sub a)"
  "(drop_end a)\<lparr>sia_c := c\<rparr> = drop_end (a\<lparr>sia_c := c\<rparr>)"
  by (simp_all add: drop_end_def)

lemma try_address_drop:
  "try_address st (drop_end a) out p s =
    map_sum drop_result (\<lambda>(o', a', s'). (o', drop_end a', s')) (try_address st a out p s)"
  by (auto simp: try_address_def drop_result_def Let_def split: option.splits sum.splits prod.splits bool.splits)

definition end_reserved :: "simpleIPAllocator \<Rightarrow> bool" where
  "end_reserved a \<longleftrightarrow> sorted_wrt (<) (a_reserved a) \<and> Suc (a_last a) \<in> set (a_reserved a)"

text \<open>The end is never what the next position is compared with successfully.\<close>

lemma alloc_step_drop:
  assumes a: "alloc_at a p v" "end_reserved a"
  shows "alloc_step st out (drop_end a) s =
    map_sum drop_result (\<lambda>(o', a', s'). (o', drop_end a', s')) (alloc_step st out a s)"
proof -
  let ?L = "net_last p" and ?rs = "Subnet_Reserved (sia_sub a)"
  have st: "alloc_static a p" and c: "cursor_at (sia_c a) p v" and v: "v \<le> ?L"
    using a(1) by (auto simp: alloc_at_def cursor_at_def)
  have p: "prefix_ok p" using st by (simp add: alloc_static_def)
  obtain c1 where c1: "cursor_Next (sia_c a) = (pos_of p (Suc v), c1)" "cursor_at c1 p (min (Suc v) ?L)"
    using cursor_Next_of [OF p, of "sia_c a" v] c v by (auto simp: min_def split: if_splits)
  obtain c2 where c2: "skip_reserved ?rs (Some (cursor_Pos (sia_c a))) (pos_of p (Suc v)) c1 =
      ((case walk_skip ?L (a_reserved a) v (Suc v) of
          None \<Rightarrow> Inl (Panic NilDereference)
        | Some (x', y') \<Rightarrow> Inr (pos_of p x', pos_of p y')), c2)"
    using skip_reserved_walk [OF p, of ?rs c1 "Suc v" v] c1(2) st v
    unfolding cursor_Pos_of [OF c] a_reserved_def alloc_static_def by auto
  show ?thesis
  proof (cases "walk_skip ?L (a_reserved a) v (Suc v)")
    case None
    then show ?thesis using c1 c2 by (simp add: alloc_step_def drop_result_def)
  next
    case (Some xy)
    then obtain x y where xy: "walk_skip ?L (a_reserved a) v (Suc v) = Some (x, y)" by (cases xy) auto
    have y: "y \<le> Suc ?L" using walk_skip_bounds [OF xy] v by simp
    have "y \<notin> set (a_reserved a)" if "y \<le> ?L"
      using walk_skip_next [of "a_reserved a" "{}" v "Suc v" ?L x y] xy a(2) that by (auto simp: end_reserved_def)
    then have "y \<noteq> Suc (a_last a) \<or> y = Suc ?L" using a(2) y by (metis end_reserved_def le_SucE)
    then have e: "at_end (pos_of p y) (sia_end a) \<longleftrightarrow> at_end (pos_of p y) None"
      unfolding at_end_of [OF st y] using y by (auto simp: at_end_def pos_of_def)
    show ?thesis
      using c1 c2 xy e
      by (auto simp: alloc_step_def try_address_drop drop_result_def split: sum.splits)
  qed
qed

lemma alloc_loop_drop:
  "alloc_loop st out a s = Some r \<Longrightarrow>
    \<forall>v. alloc_at a p v \<and> end_reserved a \<longrightarrow> alloc_loop st out (drop_end a) s = Some (drop_result r)"
proof (induction rule: alloc_loop.raw_induct [rotated, consumes 1, case_names step])
  case (step loop st out a s r)
  show ?case
  proof (intro allI impI; elim conjE)
    fix v assume at: "alloc_at a p v" and e: "end_reserved a"
    note one = alloc_step_drop [OF at e, of st out s]
    show "alloc_loop st out (drop_end a) s = Some (drop_result r)"
    proof (cases "alloc_step st out a s")
      case (Inl r')
      then show ?thesis using step(2) one by (simp add: alloc_loop.simps [of st out "drop_end a" s])
    next
      case (Inr z)
      then obtain out' a' s' where z: "alloc_step st out a s = Inr (out', a', s')" by (cases z) auto
      have st: "alloc_static a p" "cursor_at (sia_c a) p v" using at by (auto simp: alloc_at_def)
      obtain c' w where c': "cursor_at c' p w" "a' = a\<lparr>sia_c := c'\<rparr>"
        using alloc_step_state [OF at z] by blast
      have "alloc_at a' p w" "end_reserved a'" using c' st e by (simp_all add: alloc_at_def end_reserved_def)
      moreover have "loop st out' a' s' = Some r" using step(2) z by simp
      ultimately have "alloc_loop st out' (drop_end a') s' = Some (drop_result r)" using step(1) by blast
      then show ?thesis using one z by (simp add: alloc_loop.simps [of st out "drop_end a" s])
    qed
  qed
qed

lemma without_end:
  "Subnet_Start (x\<lparr>Subnet_End := None\<rparr>) = Subnet_Start x" "Subnet_Subnet (x\<lparr>Subnet_End := None\<rparr>) = Subnet_Subnet x"
  "Subnet_End (x\<lparr>Subnet_End := None\<rparr>) = None"
  by simp_all

lemma SimpleIPAllocator_drop:
  assumes "subnet_ok x" "SimpleIPAllocator st x s0 = (Inr a, s)"
  shows "SimpleIPAllocator st (x\<lparr>Subnet_End := None\<rparr>) s0 = (Inr (drop_end a), s)"
proof -
  let ?y = "x\<lparr>Subnet_End := None\<rparr>"
  have n: "net_ok (Subnet_Subnet x)" "net_ok (Subnet_Subnet ?y)" using assms(1) by (auto simp: subnet_ok_def)
  have v: "Validate x = Inr ()" using assms(2) by (cases "Validate x") (auto simp: SimpleIPAllocator_def)
  then have y: "Validate ?y = Inr ()" using Validate_iff [OF n(1)] Validate_iff [OF n(2)] by simp
  have "start_cursor ?y = start_cursor x" by (rule ext) (simp only: start_cursor_def without_end)
  moreover have "end_position ?y p = Inr None" for p by (simp add: end_position_def)
  ultimately have "new_simple ?y = map_sum id drop_end (new_simple x)"
    using end_position_of(1) [OF n(1) v]
    by (auto simp: new_simple_def Let_def drop_end_def split: sum.splits)
  then show ?thesis using assms(2) v y by (auto simp: SimpleIPAllocator_def split: sum.splits prod.splits)
qed

context ip_store
begin

lemma allocate_times_drop:
  "alloc_at a p v \<Longrightarrow> end_reserved a \<Longrightarrow> inv s \<Longrightarrow>
    \<exists>rs a' s'. allocate_times st n a s = Some (rs, a', s') \<and> allocate_times st n (drop_end a) s = Some (rs, drop_end a', s')"
proof (induction n arbitrary: a s v)
  case (Suc n)
  obtain r a1 s1 w where l: "alloc_loop st False a s = Some (r, a1, s1)" "alloc_at a1 p w" "same_static a a1" "inv s1"
    using alloc_loop_safe [OF Suc.prems(1,3), of False] by blast
  have "alloc_loop st False (drop_end a) s = Some (r, drop_end a1, s1)"
    using alloc_loop_drop [OF l(1), of p] Suc.prems(1,2) by (auto simp: drop_result_def)
  moreover have "end_reserved a1" using same_static_numbers [OF l(3)] Suc.prems(2) by (simp add: end_reserved_def)
  from Suc.IH [OF l(2) this l(4)] obtain rs a' s' where
    "allocate_times st n a1 s1 = Some (rs, a', s')" "allocate_times st n (drop_end a1) s1 = Some (rs, drop_end a', s')"
    by blast
  ultimately show ?case using l(1) by (simp add: simple_Allocate_def)
qed simp

end

text \<open>C11: When the reserved addresses are in strictly ascending order and the address after the end of the range is
  among them, the end is stepped over: over repeated calls, a new allocator hands out every unreserved address up to
  the last one of the subnet.\<close>

theorem reserved_after_end:
  assumes "subnet_ok x" "mem_ok s0" "SimpleIPAllocator mem_ips x s0 = (Inr a, s)"
    "sorted_wrt (<) (map ipval (Subnet_Reserved x))" "Suc (range_last x) \<in> ipval ` set (Subnet_Reserved x)"
    "C = candidates (ipval ` set (Subnet_Reserved x)) (range_start x) (net_last (Subnet_Subnet x))" "C \<noteq> []"
    "n \<le> Suc (length C)"
  shows "\<exists>a' s'. allocate_times mem_ips n a s =
    Some (map (\<lambda>y. Inr (Some [alloc_addr (NewPrefix (Subnet_Subnet x)) y])) (take n C) @
      (if length C < n then [Inr None] else []), a', s')"
proof -
  let ?y = "x\<lparr>Subnet_End := None\<rparr>"
  note new = mem_new_allocator [OF assms(1-3)]
  have at: "alloc_at a (NewPrefix (Subnet_Subnet x)) (range_start x)" "end_reserved a"
    using new(1) assms(4,5) by (auto simp: starts_def fits_def end_reserved_def)
  have r: "range_start ?y = range_start x" "range_last ?y = net_last (Subnet_Subnet x)"
    by (simp_all only: range_start_def range_last_def without_end option.case)
  have y: "subnet_ok ?y" "subnet_ready ?y" using assms(1,4,6,7) r by (auto simp: subnet_ok_def subnet_ready_def)
  obtain a2 s2 where "allocate_times mem_ips n (drop_end a) s =
    Some (map (\<lambda>y. Inr (Some [alloc_addr (NewPrefix (Subnet_Subnet x)) y])) (take n C) @
      (if length C < n then [Inr None] else []), a2, s2)"
    using new_allocator_run [OF y assms(2) SimpleIPAllocator_drop [OF assms(1,3)], of C n] assms(6,8) r by auto
  then show ?thesis using mem.allocate_times_drop [OF at new(2), of n] by auto
qed

section \<open>On concrete subnets\<close>

text \<open>The numbers of the addresses of 10.0.0.0/30.\<close>

definition ten :: "nat \<Rightarrow> nat" where
  "ten n = mapped_base + 167772160 + n"

definition end_subnet :: Subnet where
  "end_subnet = ten_subnet 30 None (Some 1) []"

definition last_subnet :: Subnet where
  "last_subnet = ten_subnet 30 (Some 1) (Some 3) [3]"

definition stepped_subnet :: Subnet where
  "stepped_subnet = ten_subnet 30 None (Some 0) [1]"

lemma limit_subnets:
  "subnet_ok unsorted_subnet" "Validate unsorted_subnet = Inr ()"
  "subnet_ok end_subnet" "subnet_ready end_subnet" "Validate end_subnet = Inr ()"
  "subnet_ok last_subnet" "subnet_ready last_subnet" "Validate last_subnet = Inr ()"
  "subnet_ok stepped_subnet" "Validate stepped_subnet = Inr ()"
  by code_simp+

lemma limit_allocator:
  assumes "subnet_ok x" "Validate x = Inr ()"
  obtains a s where "SimpleIPAllocator mem_ips x MemoryStore = (Inr a, s)"
  using mem.SimpleIPAllocator_ok(1) [OF assms(1) mem_ok_MemoryStore assms(2)] by blast

theorem reserved_out_of_order_witness:
  "\<exists>a s a' s'. SimpleIPAllocator mem_ips unsorted_subnet MemoryStore = (Inr a, s) \<and>
    [10, 0, 0, 2] \<in> set (Subnet_Reserved unsorted_subnet) \<and>
    simple_Allocate mem_ips (sia_f a) a s =
      Some (Inr (Some [alloc_addr (NewPrefix (Subnet_Subnet unsorted_subnet)) (ipval [10, 0, 0, 2])]), a', s')"
proof -
  obtain a s where a: "SimpleIPAllocator mem_ips unsorted_subnet MemoryStore = (Inr a, s)"
    by (rule limit_allocator [OF limit_subnets(1,2)])
  have r: "Subnet_Reserved unsorted_subnet = [10, 0, 0, 2] # [[10, 0, 0, 0], [10, 0, 0, 1]]" by code_simp
  have v: "map ipval [[10, 0, 0, 0], [10, 0, 0, 1]] = [ten 0, ten 1]" "range_start unsorted_subnet = ten 0"
    "ipval [10, 0, 0, 2] = ten 2" by code_simp+
  have set: "ipval ` set [[10, 0, 0, 0], [10, 0, 0, 1]] = {ten 0, ten 1}" using v(1) by simp
  have "\<forall>z. ten 0 \<le> z \<and> z < ten 2 \<longrightarrow> z \<in> {ten 0, ten 1}" by (auto simp: ten_def)
  moreover have "sorted_wrt (<) [ten 0, ten 1]" "Suc (ten 0) < ten 2" "ten 2 \<notin> {ten 0, ten 1}" by (simp_all add: ten_def)
  ultimately show ?thesis
    using reserved_out_of_order [OF limit_subnets(1) mem_ok_MemoryStore a r] a r unfolding set v by auto
qed

theorem beyond_end_after_exhaustion_witness:
  "\<exists>a s a' s'. SimpleIPAllocator mem_ips end_subnet MemoryStore = (Inr a, s) \<and>
    allocate_times mem_ips 4 a s = Some (map (\<lambda>y. Inr (Some [alloc_addr (NewPrefix (Subnet_Subnet end_subnet)) y])) [ten 0, ten 1] @
      [Inr None, Inr (Some [alloc_addr (NewPrefix (Subnet_Subnet end_subnet)) (ten 2)])], a', s')"
proof -
  obtain a s where a: "SimpleIPAllocator mem_ips end_subnet MemoryStore = (Inr a, s)"
    by (rule limit_allocator [OF limit_subnets(3,5)])
  have c: "candidates (ipval ` set (Subnet_Reserved end_subnet)) (range_start end_subnet) (range_last end_subnet) =
      [ten 0, ten 1]" "Suc (range_last end_subnet) = ten 2" "range_last end_subnet < net_last (Subnet_Subnet end_subnet)"
    by code_simp+
  show ?thesis
    using beyond_end_after_exhaustion [OF limit_subnets(3,4) mem_ok_MemoryStore a c(3) refl] a
    unfolding c(1,2) by (auto simp: numeral_eq_Suc simp del: allocate_times.simps)
qed

theorem panic_after_exhaustion_witness:
  "\<exists>a s a' s'. SimpleIPAllocator mem_ips last_subnet MemoryStore = (Inr a, s) \<and>
    allocate_times mem_ips 4 a s = Some (map (\<lambda>y. Inr (Some [alloc_addr (NewPrefix (Subnet_Subnet last_subnet)) y])) [ten 1, ten 2] @
      [Inr None, Inl (Panic NilDereference)], a', s')"
proof -
  obtain a s where a: "SimpleIPAllocator mem_ips last_subnet MemoryStore = (Inr a, s)"
    by (rule limit_allocator [OF limit_subnets(6,8)])
  have c: "candidates (ipval ` set (Subnet_Reserved last_subnet)) (range_start last_subnet) (range_last last_subnet) =
      [ten 1, ten 2]" "range_last last_subnet = net_last (Subnet_Subnet last_subnet)"
    "range_last last_subnet \<in> ipval ` set (Subnet_Reserved last_subnet)"
    by code_simp+
  show ?thesis
    using panic_after_exhaustion [OF limit_subnets(6,7) mem_ok_MemoryStore a c(2,3) refl] a
    unfolding c(1) by (auto simp: numeral_eq_Suc simp del: allocate_times.simps)
qed

theorem reserved_after_end_witness:
  "\<exists>a s a' s'. SimpleIPAllocator mem_ips stepped_subnet MemoryStore = (Inr a, s) \<and> range_last stepped_subnet = ten 0 \<and>
    allocate_times mem_ips 3 a s = Some (map (\<lambda>y. Inr (Some [alloc_addr (NewPrefix (Subnet_Subnet stepped_subnet)) y]))
      [ten 0, ten 2, ten 3], a', s')"
proof -
  obtain a s where a: "SimpleIPAllocator mem_ips stepped_subnet MemoryStore = (Inr a, s)"
    by (rule limit_allocator [OF limit_subnets(9,10)])
  have c: "candidates (ipval ` set (Subnet_Reserved stepped_subnet)) (range_start stepped_subnet)
      (net_last (Subnet_Subnet stepped_subnet)) = [ten 0, ten 2, ten 3]" "range_last stepped_subnet = ten 0"
    "sorted_wrt (<) (map ipval (Subnet_Reserved stepped_subnet))"
    "Suc (range_last stepped_subnet) \<in> ipval ` set (Subnet_Reserved stepped_subnet)"
    by code_simp+
  show ?thesis
    using reserved_after_end [OF limit_subnets(9) mem_ok_MemoryStore a c(3,4) refl, of 3] a c(2)
    unfolding c(1) by (auto simp del: allocate_times.simps)
qed

end
