(* ===== verification/Multi_Allocator.thy ===== *)
theory Multi_Allocator
  imports Allocator
begin

text \<open>
  The allocator over several subnets, \<open>multiIPAllocator\<close> of ipallocator.go: it takes one address of
  every subnet of the families asked for, and gives back what it took when one of them has none.
\<close>

section \<open>Several subnets\<close>

record multiIPAllocator =
  mia_m :: "Family \<Rightarrow> simpleIPAllocator list"

fun new_allocators :: "'s IPStore \<Rightarrow> Subnet list \<Rightarrow> 's \<Rightarrow> (fault + simpleIPAllocator list) \<times> 's" where
  "new_allocators st [] s = (Inr [], s)"
| "new_allocators st (sub # subs) s =
     (case SimpleIPAllocator st sub s of
        (Inl e, s') \<Rightarrow> (Inl e, s')
      | (Inr a, s') \<Rightarrow>
          (case new_allocators st subs s' of
             (Inl e, s'') \<Rightarrow> (Inl e, s'')
           | (Inr as, s'') \<Rightarrow> (Inr (a # as), s'')))"

definition DualStackIPAllocator :: "'s IPStore \<Rightarrow> Subnet list \<Rightarrow> 's \<Rightarrow> (fault + multiIPAllocator) \<times> 's" where
  "DualStackIPAllocator st subs s =
     (if subs = [] then (Inl (Err NoSubnets), s)
      else let sub4 = filter (\<lambda>x. to4 (IP (Subnet_Subnet x)) \<noteq> None) subs;
               sub6 = filter (\<lambda>x. to4 (IP (Subnet_Subnet x)) = None) subs
           in case new_allocators st sub4 s of
                (Inl e, s') \<Rightarrow> (Inl e, s')
              | (Inr as4, s') \<Rightarrow>
                  (case new_allocators st sub6 s' of
                     (Inl e, s'') \<Rightarrow> (Inl e, s'')
                   | (Inr as6, s'') \<Rightarrow>
                       (Inr \<lparr>mia_m = (\<lambda>f. if f = IPv4 then as4 else if f = IPv6 then as6 else [])\<rparr>, s'')))"

fun free_each :: "'s IPStore \<Rightarrow> simpleIPAllocator list \<Rightarrow> ipnet \<Rightarrow> 's \<Rightarrow> (goerr + unit) \<times> 's" where
  "free_each st [] ip s = (Inr (), s)"
| "free_each st (a # as) ip s =
     (case simple_Free st a ip s of
        (Inl e, s') \<Rightarrow> (Inl e, s')
      | (Inr _, s') \<Rightarrow> free_each st as ip s')"

definition multi_Free :: "'s IPStore \<Rightarrow> multiIPAllocator \<Rightarrow> ipnet \<Rightarrow> 's \<Rightarrow> (fault + unit) \<times> 's" where
  "multi_Free st mia ip s =
     (case ipFamily ip of
        Inl e \<Rightarrow> (Inl e, s)
      | Inr f \<Rightarrow> (case free_each st (mia_m mia f) ip s of (r, s') \<Rightarrow> (lift_err r, s')))"

text \<open>\<open>tryAllocate\<close>: the inner loop over the allocators of a family, and the loop over the families.
  \<open>out\<close> is what has been allocated so far and is returned on every path; \<open>Inr\<close> carries \<open>ok\<close>.\<close>

fun try_each :: "'s IPStore \<Rightarrow> Family \<Rightarrow> simpleIPAllocator list \<Rightarrow> ipnet list \<Rightarrow> 's \<Rightarrow>
    ((fault + bool) \<times> ipnet list \<times> simpleIPAllocator list \<times> 's) option" where
  "try_each st f [] out s = Some (Inr True, out, [], s)"
| "try_each st f (a # as) out s =
     (case simple_Allocate st f a s of
        None \<Rightarrow> None
      | Some (Inl e, a', s') \<Rightarrow> Some (Inl e, out, a' # as, s')
      | Some (Inr None, a', s') \<Rightarrow> Some (Inr False, out, a' # as, s')
      | Some (Inr (Some ips), a', s') \<Rightarrow>
          (case try_each st f as (out @ ips) s' of
             None \<Rightarrow> None
           | Some (r, out', as', s'') \<Rightarrow> Some (r, out', a' # as', s'')))"

fun tryAllocate :: "'s IPStore \<Rightarrow> Family list \<Rightarrow> multiIPAllocator \<Rightarrow> ipnet list \<Rightarrow> 's \<Rightarrow>
    ((fault + bool) \<times> ipnet list \<times> multiIPAllocator \<times> 's) option" where
  "tryAllocate st [] mia out s = Some (Inr (out \<noteq> []), out, mia, s)"
| "tryAllocate st (f # fs) mia out s =
     (case try_each st f (mia_m mia f) out s of
        None \<Rightarrow> None
      | Some (r, out', as', s') \<Rightarrow>
          (let mia' = mia\<lparr>mia_m := (mia_m mia)(f := as')\<rparr>
           in case r of
                Inr True \<Rightarrow> tryAllocate st fs mia' out' s'
              | _ \<Rightarrow> Some (r, out', mia', s')))"

text \<open>Giving back what a failed call has taken; \<open>err\<close> is the error it failed with, if any.\<close>

fun free_all :: "'s IPStore \<Rightarrow> multiIPAllocator \<Rightarrow> goerr option \<Rightarrow> ipnet list \<Rightarrow> 's \<Rightarrow> (fault + unit) \<times> 's" where
  "free_all st mia err [] s = (Inr (), s)"
| "free_all st mia err (ip # ips) s =
     (case multi_Free st mia ip s of
        (Inl (Err e), s') \<Rightarrow> (Inl (Err (FreeFailed e err)), s')
      | (Inl (Panic e), s') \<Rightarrow> (Inl (Panic e), s')
      | (Inr _, s') \<Rightarrow> free_all st mia err ips s')"

definition allocate_families :: "Family \<Rightarrow> fault + Family list" where
  "allocate_families f =
     (if f = IPv4 \<or> f = IPv6 then Inr [f]
      else if f = DualStack then Inr [IPv4, IPv6]
      else Inl (Panic (InvalidFamily f)))"

definition multi_Allocate :: "'s IPStore \<Rightarrow> Family \<Rightarrow> multiIPAllocator \<Rightarrow> 's \<Rightarrow>
    ((fault + ipnet list option) \<times> multiIPAllocator \<times> 's) option" where
  "multi_Allocate st family mia s =
     (case allocate_families family of
        Inl e \<Rightarrow> Some (Inl e, mia, s)
      | Inr fs \<Rightarrow>
          (case tryAllocate st fs mia [] s of
             None \<Rightarrow> None
           | Some (Inl (Panic e), ips, mia', s') \<Rightarrow> Some (Inl (Panic e), mia', s')
           | Some (Inr True, ips, mia', s') \<Rightarrow> Some (Inr (Some ips), mia', s')
           | Some (Inr False, ips, mia', s') \<Rightarrow>
               (case free_all st mia' None ips s' of
                  (Inl e, s'') \<Rightarrow> Some (Inl e, mia', s'')
                | (Inr _, s'') \<Rightarrow> Some (Inr None, mia', s''))
           | Some (Inl (Err e), ips, mia', s') \<Rightarrow>
               (case free_all st mia' (Some e) ips s' of
                  (Inl e', s'') \<Rightarrow> Some (Inl e', mia', s'')
                | (Inr _, s'') \<Rightarrow> Some (Inl (Err e), mia', s''))))"

section \<open>What several subnets hand out\<close>

text \<open>A set of (subnet, address) texts put into a view, or taken out of it.\<close>

definition view_add :: "(string \<times> string) set \<Rightarrow> alloc_view \<Rightarrow> alloc_view" where
  "view_add G v = (\<lambda>t. map_option (\<lambda>A. A \<union> {i. (t, i) \<in> G}) (v t))"

definition view_del :: "(string \<times> string) set \<Rightarrow> alloc_view \<Rightarrow> alloc_view" where
  "view_del G v = (\<lambda>t. map_option (\<lambda>A. A - {i. (t, i) \<in> G}) (v t))"

definition fresh_in :: "alloc_view \<Rightarrow> (string \<times> string) set \<Rightarrow> bool" where
  "fresh_in v G \<longleftrightarrow> (\<forall>(t, i)\<in>G. \<exists>A. v t = Some A \<and> i \<notin> A)"

definition ticket :: "ipnet \<Rightarrow> ipnet \<Rightarrow> string \<times> string" where
  "ticket p ip = (ipnet_String p, ipnet_String ip)"

lemma view_add_empty [simp]: "view_add {} v = v" "view_del {} v = v" "fresh_in v {}"
  by (auto simp: view_add_def view_del_def fresh_in_def option.map_ident)

lemma view_add_add: "view_add G (view_add H v) = view_add (H \<union> G) v"
  by (auto simp: view_add_def fun_eq_iff option.map_comp comp_def intro!: option.map_cong)

lemma view_del_del: "view_del G (view_del H v) = view_del (H \<union> G) v"
  by (auto simp: view_del_def fun_eq_iff option.map_comp comp_def intro!: option.map_cong)

lemma view_del_add: "fresh_in v G \<Longrightarrow> view_del G (view_add G v) = v"
  by (force simp: view_del_def view_add_def fresh_in_def fun_eq_iff map_option_case split: option.splits)

lemma view_insert_add: "view_insert p ip v = view_add {ticket p ip} v"
  by (auto simp: view_insert_def view_add_def ticket_def fun_eq_iff option.map_ident intro!: option.map_cong)

lemma view_remove_del: "view_remove p ip v = view_del {ticket p ip} v"
  by (auto simp: view_remove_def view_del_def ticket_def fun_eq_iff option.map_ident intro!: option.map_cong)

lemma fresh_in_add: "fresh_in v G \<Longrightarrow> fresh_in (view_add G v) H \<Longrightarrow> fresh_in v (G \<union> H)"
  by (force simp: fresh_in_def view_add_def)

lemma fresh_in_ticket: "fresh_in v {ticket p ip} \<longleftrightarrow> v (ipnet_String p) \<noteq> None \<and> \<not> allocated v p ip"
  by (auto simp: fresh_in_def ticket_def allocated_def split: option.splits)

lemma dom_view_add [simp]: "dom (view_add G v) = dom v" "dom (view_del G v) = dom v"
  by (auto simp: view_add_def view_del_def dom_def)

definition net_of :: "simpleIPAllocator \<Rightarrow> ipnet" where
  "net_of a = Subnet_Subnet (sia_sub a)"

definition alloc_ok :: "simpleIPAllocator \<Rightarrow> bool" where
  "alloc_ok a \<longleftrightarrow> (\<exists>v. alloc_at a (net_of a) v)"

text \<open>An address of the allocator's subnet, in the form it hands it out.\<close>

definition owns :: "simpleIPAllocator \<Rightarrow> ipnet \<Rightarrow> bool" where
  "owns a ip \<longleftrightarrow> (\<exists>x. ip = alloc_addr (net_of a) x \<and> net_base (net_of a) \<le> x \<and> x \<le> net_last (net_of a))"

definition tickets :: "simpleIPAllocator list \<Rightarrow> ipnet list \<Rightarrow> (string \<times> string) set" where
  "tickets as ips = set (map2 (\<lambda>a ip. ticket (net_of a) ip) as ips)"

lemma tickets_simps [simp]:
  "tickets [] ips = {}" "tickets as [] = {}"
  "tickets (a # as) (ip # ips) = insert (ticket (net_of a) ip) (tickets as ips)"
  by (simp_all add: tickets_def)

lemma same_static_net: "same_static a b \<Longrightarrow> net_of b = net_of a \<and> sia_f b = sia_f a"
  using same_static_numbers [of a b] by (simp add: net_of_def)

lemma owns_ok:
  assumes "alloc_ok a" "owns a ip"
  shows "net_ok ip" "contains (net_of a) (IP ip)" "ipFamily ip = Inr (sia_f a)" "net_ok (net_of a)"
proof -
  obtain x v where x: "ip = alloc_addr (net_of a) x" "net_base (net_of a) \<le> x" "x \<le> net_last (net_of a)"
    and a: "alloc_static a (net_of a)"
    using assms by (auto simp: owns_def alloc_ok_def alloc_at_def)
  have p: "prefix_ok (net_of a)" "family_ok (net_of a)" using a by (auto simp: alloc_static_def)
  note ok = alloc_addr_ok [OF p x(2,3)]
  show "net_ok ip" "contains (net_of a) (IP ip)" using ok x by auto
  show "net_ok (net_of a)" using p by (simp add: prefix_ok_def)
  have "to16 (IP ip) \<noteq> None" using x(1) by (simp add: alloc_addr_def to16_16)
  then show "ipFamily ip = Inr (sia_f a)"
    using ok(5) x(1) a by (auto simp: ipFamily_def is4_def alloc_static_def)
qed

context ip_store
begin

lemma simple_Allocate_safe:
  assumes "alloc_ok a" "sia_f a = f" "inv s"
  shows "\<exists>r a' s'. simple_Allocate st f a s = Some (r, a', s') \<and> alloc_ok a' \<and> same_static a a' \<and> inv s' \<and>
    other s' = other s \<and>
    (case r of Inr (Some ips) \<Rightarrow> (\<exists>ip. ips = [ip] \<and> owns a ip \<and> fresh_in (view s) {ticket (net_of a) ip} \<and>
                 view s' = view_add {ticket (net_of a) ip} (view s))
     | _ \<Rightarrow> view s' = view s)"
proof -
  obtain v where v: "alloc_at a (net_of a) v" using assms(1) by (auto simp: alloc_ok_def)
  obtain r a' s' w where l: "alloc_loop st False a s = Some (r, a', s')" "alloc_at a' (net_of a) w"
    "same_static a a'" "inv s'" "other s' = other s" "alloc_safe (net_of a) (view s) (view s') r"
    using alloc_loop_safe [OF v assms(3)] by blast
  have ok: "alloc_ok a'" using l(2) same_static_net [OF l(3)] by (auto simp: alloc_ok_def)
  have "simple_Allocate st f a s = Some (r, a', s')" using l(1) assms(2) by (simp add: simple_Allocate_def)
  moreover have "case r of Inr (Some ips) \<Rightarrow> (\<exists>ip. ips = [ip] \<and> owns a ip \<and>
        fresh_in (view s) {ticket (net_of a) ip} \<and> view s' = view_add {ticket (net_of a) ip} (view s))
     | _ \<Rightarrow> view s' = view s"
    using l(6) by (auto simp: alloc_safe_def owns_def fresh_in_ticket view_insert_add split: sum.splits option.splits)
  ultimately show ?thesis using l ok by blast
qed

text \<open>Every address collected so far belongs to the allocator it came from and was free before.\<close>

lemma try_each_safe:
  assumes "\<forall>a\<in>set as. alloc_ok a \<and> sia_f a = f" "inv s"
  shows "\<exists>r ips as' s'. try_each st f as out s = Some (r, out @ ips, as', s') \<and> inv s' \<and> other s' = other s \<and>
    list_all2 same_static as as' \<and> (\<forall>a\<in>set as'. alloc_ok a) \<and> length ips \<le> length as \<and>
    list_all2 owns (take (length ips) as) ips \<and> fresh_in (view s) (tickets as ips) \<and>
    view s' = view_add (tickets as ips) (view s) \<and> (r = Inr True \<longrightarrow> length ips = length as)"
  using assms
proof (induction as arbitrary: out s)
  case (Cons a as)
  have a: "alloc_ok a" "sia_f a = f" and as: "\<forall>a\<in>set as. alloc_ok a \<and> sia_f a = f"
    using Cons.prems(1) by auto
  have refl: "list_all2 same_static as as" by (intro list_all2_refl) (simp add: same_static_def)
  obtain r a' s' where l: "simple_Allocate st f a s = Some (r, a', s')" "alloc_ok a'" "same_static a a'"
    "inv s'" "other s' = other s"
    "case r of Inr (Some ips) \<Rightarrow> (\<exists>ip. ips = [ip] \<and> owns a ip \<and> fresh_in (view s) {ticket (net_of a) ip} \<and>
                 view s' = view_add {ticket (net_of a) ip} (view s))
     | _ \<Rightarrow> view s' = view s"
    using simple_Allocate_safe [OF a Cons.prems(2)] by blast
  show ?case
  proof (cases "\<exists>ips. r = Inr (Some ips)")
    case True
    then obtain ip where ip: "r = Inr (Some [ip])" "owns a ip" "fresh_in (view s) {ticket (net_of a) ip}"
      "view s' = view_add {ticket (net_of a) ip} (view s)"
      using l(6) by auto
    obtain r2 ips as' s2 where ih: "try_each st f as (out @ [ip]) s' = Some (r2, (out @ [ip]) @ ips, as', s2)"
      "inv s2" "other s2 = other s'" "list_all2 same_static as as'" "\<forall>a\<in>set as'. alloc_ok a"
      "length ips \<le> length as" "list_all2 owns (take (length ips) as) ips"
      "fresh_in (view s') (tickets as ips)" "view s2 = view_add (tickets as ips) (view s')"
      "r2 = Inr True \<longrightarrow> length ips = length as"
      using Cons.IH [OF as l(4), of "out @ [ip]"] by blast
    have "view s2 = view_add (tickets (a # as) (ip # ips)) (view s)"
      unfolding ih(9) ip(4) view_add_add by simp
    moreover have "fresh_in (view s) (tickets (a # as) (ip # ips))"
      using fresh_in_add [OF ip(3)] ih(8) unfolding ip(4) by simp
    ultimately show ?thesis
      using l(1-5) ip(1,2) ih
      by (intro exI [of _ r2] exI [of _ "ip # ips"] exI [of _ "a' # as'"] exI [of _ s2]) simp
  next
    case False
    then have v: "view s' = view s" using l(6) by (auto split: sum.splits option.splits)
    define b where "b = (case r of Inl e \<Rightarrow> Inl e | Inr _ \<Rightarrow> Inr False)"
    have "try_each st f (a # as) out s = Some (b, out @ [], a' # as, s')" "b \<noteq> Inr True"
      using False l(1) by (auto simp: b_def split: sum.splits option.splits)
    then show ?thesis
      using l v as refl by (intro exI [of _ b] exI [of _ "[]"] exI [of _ "a' # as"] exI [of _ s']) simp
  qed
qed simp

end

subsection \<open>All or nothing\<close>

definition multi_ok :: "multiIPAllocator \<Rightarrow> bool" where
  "multi_ok mia \<longleftrightarrow> (\<forall>f. \<forall>a\<in>set (mia_m mia f). alloc_ok a \<and> sia_f a = f)"

text \<open>No two subnets of a family share an address.\<close>

definition disjoint_nets :: "ipnet \<Rightarrow> ipnet \<Rightarrow> bool" where
  "disjoint_nets p q \<longleftrightarrow> (\<forall>ip. \<not> (contains p ip \<and> contains q ip))"

definition nets_apart :: "multiIPAllocator \<Rightarrow> bool" where
  "nets_apart mia \<longleftrightarrow> (\<forall>f. sorted_wrt disjoint_nets (map net_of (mia_m mia f)))"

definition same_nets :: "multiIPAllocator \<Rightarrow> multiIPAllocator \<Rightarrow> bool" where
  "same_nets mia mia' \<longleftrightarrow> (\<forall>f. list_all2 same_static (mia_m mia f) (mia_m mia' f))"

definition served :: "multiIPAllocator \<Rightarrow> Family list \<Rightarrow> simpleIPAllocator list" where
  "served mia fs = concat (map (mia_m mia) fs)"

lemma same_static_refl [simp]: "same_static a a"
  by (simp add: same_static_def)

lemma same_nets_refl [simp]: "same_nets mia mia"
  by (simp add: same_nets_def list_all2_refl)

lemma same_nets_trans: "same_nets a b \<Longrightarrow> same_nets b c \<Longrightarrow> same_nets a c"
  unfolding same_nets_def
  using list_all2_trans [of same_static same_static same_static] same_static_trans by blast

lemma list_all2_net_of: "list_all2 same_static as bs \<Longrightarrow> map net_of bs = map net_of as"
  by (induction rule: list_all2_induct) (auto simp: same_static_net)

lemma list_all2_family: "list_all2 same_static as bs \<Longrightarrow> \<forall>a\<in>set as. sia_f a = f \<Longrightarrow> \<forall>b\<in>set bs. sia_f b = f"
  by (induction rule: list_all2_induct) (auto simp: same_static_net)

lemma nets_apart_same:
  assumes "same_nets mia mia'" "nets_apart mia"
  shows "nets_apart mia'"
proof -
  have "map net_of (mia_m mia' f) = map net_of (mia_m mia f)" for f
    using list_all2_net_of [of "mia_m mia f" "mia_m mia' f"] assms(1) by (simp add: same_nets_def)
  then show ?thesis using assms(2) by (simp add: nets_apart_def)
qed

lemma sorted_wrt_two:
  "sorted_wrt R xs \<Longrightarrow> x \<in> set xs \<Longrightarrow> y \<in> set xs \<Longrightarrow> x = y \<or> R x y \<or> R y x"
  by (induction xs) auto

lemma nets_apartD:
  assumes "nets_apart mia" "a \<in> set (mia_m mia f)" "b \<in> set (mia_m mia f)"
    "contains (net_of a) ip" "contains (net_of b) ip"
  shows "net_of a = net_of b"
  using sorted_wrt_two [of disjoint_nets "map net_of (mia_m mia f)" "net_of a" "net_of b"] assms
  by (auto simp: nets_apart_def disjoint_nets_def)

lemma tickets_append:
  "length ips = length as \<Longrightarrow> tickets (as @ bs) (ips @ jps) = tickets as ips \<union> tickets bs jps"
  by (simp add: tickets_def)

lemma tickets_short: "length ips \<le> length as \<Longrightarrow> tickets (as @ bs) ips = tickets as ips"
  by (simp add: tickets_def zip_append1)

lemma tickets_same: "list_all2 same_static as bs \<Longrightarrow> tickets bs ips = tickets as ips"
  by (induction arbitrary: ips rule: list_all2_induct) (case_tac ips; auto simp: same_static_net)+

context ip_store
begin

lemma tryAllocate_safe:
  assumes "multi_ok mia" "inv s" "distinct fs"
  shows "\<exists>r ips mia' s'. tryAllocate st fs mia out s = Some (r, out @ ips, mia', s') \<and> inv s' \<and>
    other s' = other s \<and> same_nets mia mia' \<and> multi_ok mia' \<and> length ips \<le> length (served mia fs) \<and>
    list_all2 owns (take (length ips) (served mia fs)) ips \<and> fresh_in (view s) (tickets (served mia fs) ips) \<and>
    view s' = view_add (tickets (served mia fs) ips) (view s) \<and>
    (r = Inr True \<longrightarrow> length ips = length (served mia fs) \<and> out @ ips \<noteq> [])"
  using assms
proof (induction fs arbitrary: mia out s)
  case Nil
  then show ?case
    by (intro exI [of _ "Inr (out \<noteq> [])"] exI [of _ "[]"] exI [of _ mia] exI [of _ s]) (simp add: served_def)
next
  case (Cons f fs)
  let ?as = "mia_m mia f"
  have fam: "\<forall>a\<in>set ?as. alloc_ok a \<and> sia_f a = f" using Cons.prems(1) by (simp add: multi_ok_def)
  obtain r ips as' s' where l: "try_each st f ?as out s = Some (r, out @ ips, as', s')" "inv s'"
    "other s' = other s" "list_all2 same_static ?as as'" "\<forall>a\<in>set as'. alloc_ok a" "length ips \<le> length ?as"
    "list_all2 owns (take (length ips) ?as) ips" "fresh_in (view s) (tickets ?as ips)"
    "view s' = view_add (tickets ?as ips) (view s)" "r = Inr True \<longrightarrow> length ips = length ?as"
    using try_each_safe [OF fam Cons.prems(2), of out] by blast
  let ?mia = "mia\<lparr>mia_m := (mia_m mia)(f := as')\<rparr>"
  have same: "same_nets mia ?mia" using l(4) by (simp add: same_nets_def list_all2_refl)
  have "\<forall>a\<in>set as'. sia_f a = f"
    using list_all2_family [OF l(4), of f] fam by blast
  then have ok: "multi_ok ?mia" using l(5) Cons.prems(1) by (simp add: multi_ok_def)
  have srv: "served mia (f # fs) = ?as @ served mia fs" "served ?mia fs = served mia fs"
    using Cons.prems(3) by (auto simp: served_def intro!: arg_cong [where f = concat] map_cong)
  show ?case
  proof (cases "r = Inr True")
    case True
    then have len: "length ips = length ?as" using l(10) by simp
    obtain r2 jps mia2 s2 where ih: "tryAllocate st fs ?mia (out @ ips) s' = Some (r2, (out @ ips) @ jps, mia2, s2)"
      "inv s2" "other s2 = other s'" "same_nets ?mia mia2" "multi_ok mia2" "length jps \<le> length (served mia fs)"
      "list_all2 owns (take (length jps) (served mia fs)) jps" "fresh_in (view s') (tickets (served mia fs) jps)"
      "view s2 = view_add (tickets (served mia fs) jps) (view s')"
      "r2 = Inr True \<longrightarrow> length jps = length (served mia fs) \<and> (out @ ips) @ jps \<noteq> []"
      using Cons.IH [OF ok l(2), of "out @ ips"] Cons.prems(3) unfolding srv(2) by fastforce
    have t: "tickets (served mia (f # fs)) (ips @ jps) = tickets ?as ips \<union> tickets (served mia fs) jps"
      unfolding srv(1) by (rule tickets_append [OF len])
    have v: "view s2 = view_add (tickets (served mia (f # fs)) (ips @ jps)) (view s)"
      unfolding t ih(9) l(9) view_add_add by simp
    have fr: "fresh_in (view s) (tickets (served mia (f # fs)) (ips @ jps))"
      unfolding t using fresh_in_add [OF l(8)] ih(8) unfolding l(9) by simp
    have "list_all2 owns ?as ips" using l(7) len by simp
    then have own: "list_all2 owns (take (length (ips @ jps)) (served mia (f # fs))) (ips @ jps)"
      unfolding srv(1) using ih(7) len by (simp add: list_all2_appendI)
    show ?thesis
      using True l(1,3) ih(1-6,10) v fr own len srv(1) same_nets_trans [OF same ih(4)]
      by (intro exI [of _ r2] exI [of _ "ips @ jps"] exI [of _ mia2] exI [of _ s2]) simp
  next
    case False
    have "tryAllocate st (f # fs) mia out s = Some (r, out @ ips, ?mia, s')"
      using False l(1) by (auto simp: Let_def split: sum.split bool.split)
    then show ?thesis
      using False l ok same srv(1) tickets_short [OF l(6), of "served mia fs"]
      by (intro exI [of _ r] exI [of _ ips] exI [of _ ?mia] exI [of _ s']) simp
  qed
qed

end

context reliable_ip_store
begin

text \<open>On a store that knows the subnets, allocating ends without an error.\<close>

lemma try_each_no_error:
  assumes "\<forall>a\<in>set as. alloc_ok a \<and> sia_f a = f" "inv s" "\<forall>a\<in>set as. view s (ipnet_String (net_of a)) \<noteq> None"
  shows "try_each st f as out s \<noteq> Some (Inl (Err e), z)"
  using assms
proof (induction as arbitrary: out s z)
  case (Cons a as)
  have a: "alloc_ok a" "sia_f a = f" using Cons.prems(1) by auto
  obtain v where v: "alloc_at a (net_of a) v" using a(1) by (auto simp: alloc_ok_def)
  obtain r a' s' where l: "simple_Allocate st f a s = Some (r, a', s')" "inv s'"
    "case r of Inr (Some ips) \<Rightarrow> (\<exists>ip. ips = [ip] \<and> owns a ip \<and> fresh_in (view s) {ticket (net_of a) ip} \<and>
                 view s' = view_add {ticket (net_of a) ip} (view s))
     | _ \<Rightarrow> view s' = view s"
    using simple_Allocate_safe [OF a Cons.prems(2)] by blast
  have "view s' = view s \<or> (\<exists>ip. view s' = view_add {ticket (net_of a) ip} (view s))"
    using l(3) by (auto split: sum.splits option.splits)
  then have "dom (view s') = dom (view s)" using dom_view_add(1) by metis
  then have k: "\<forall>a\<in>set as. view s' (ipnet_String (net_of a)) \<noteq> None"
    using Cons.prems(3) by (metis domIff list.set_intros(2))
  have "r \<noteq> Inl (Err e)" using simple_Allocate_no_error [OF v Cons.prems(2) _ a(2)] Cons.prems(3) l(1) by auto
  moreover have "try_each st f as out' s' \<noteq> Some (Inl (Err e), z')" for out' z'
    using Cons.IH [OF _ l(2) k] Cons.prems(1) by simp
  ultimately show ?case using l(1) by (auto split: sum.splits option.splits)
qed simp

lemma tryAllocate_no_error:
  assumes "multi_ok mia" "inv s" "\<forall>f. \<forall>a\<in>set (mia_m mia f). view s (ipnet_String (net_of a)) \<noteq> None"
  shows "tryAllocate st fs mia out s \<noteq> Some (Inl (Err e), z)"
  using assms
proof (induction fs arbitrary: mia out s z)
  case (Cons f fs)
  let ?as = "mia_m mia f"
  have fam: "\<forall>a\<in>set ?as. alloc_ok a \<and> sia_f a = f" using Cons.prems(1) by (simp add: multi_ok_def)
  obtain r ips as' s' where l: "try_each st f ?as out s = Some (r, out @ ips, as', s')" "inv s'"
    "list_all2 same_static ?as as'" "\<forall>a\<in>set as'. alloc_ok a" "view s' = view_add (tickets ?as ips) (view s)"
    using try_each_safe [OF fam Cons.prems(2), of out] by blast
  let ?mia = "mia\<lparr>mia_m := (mia_m mia)(f := as')\<rparr>"
  have "\<forall>a\<in>set as'. sia_f a = f" using list_all2_family [OF l(3), of f] fam by blast
  then have ok: "multi_ok ?mia" using l(4) Cons.prems(1) by (simp add: multi_ok_def)
  have "net_of ` set as' = net_of ` set ?as" using list_all2_net_of [OF l(3)] by (metis list.set_map)
  then have "\<forall>a\<in>set as'. view s (ipnet_String (net_of a)) \<noteq> None"
    using Cons.prems(3) by (metis (no_types, lifting) imageE imageI)
  then have k: "\<forall>g. \<forall>a\<in>set (mia_m ?mia g). view s' (ipnet_String (net_of a)) \<noteq> None"
    using Cons.prems(3) unfolding l(5) by (simp add: view_add_def)
  have "r \<noteq> Inl (Err e)" using try_each_no_error [OF fam Cons.prems(2)] Cons.prems(3) l(1) by blast
  moreover have "tryAllocate st fs ?mia out' s' \<noteq> Some (Inl (Err e), z)" for out'
    by (rule Cons.IH [OF ok l(2) k])
  ultimately show ?case using l(1) by (auto simp: Let_def split: sum.splits bool.splits)
qed simp

lemma free_each_ok:
  assumes "inv s" "net_ok ip" "net_ok p" "view s (ipnet_String p) \<noteq> None"
    "\<forall>b\<in>set bs. contains (net_of b) (IP ip) \<longrightarrow> net_of b = p"
  shows "\<exists>s'. free_each st bs ip s = (Inr (), s') \<and> inv s' \<and> other s' = other s \<and>
    view s' = (if \<exists>b\<in>set bs. contains (net_of b) (IP ip) then view_del {ticket p ip} (view s) else view s)"
  using assms
proof (induction bs arbitrary: s)
  case (Cons b bs)
  show ?case
  proof (cases "contains (net_of b) (IP ip)")
    case True
    then have p: "net_of b = p" "contains p (IP ip)" using Cons.prems(5) by auto
    obtain s1 where s1: "ip_FreeIP st p ip s = (Inr (), s1)"
      using FreeIP_reliable [OF Cons.prems(1) p(2) Cons.prems(4)] by blast
    have v1: "view s1 = view_del {ticket p ip} (view s)"
      using FreeIP_done [OF Cons.prems(1) s1] by (simp add: view_remove_del)
    have i1: "inv s1" "other s1 = other s"
      using FreeIP_inv [OF Cons.prems(1,3,2)] FreeIP_other [of p ip s] s1 by auto
    have "view s1 (ipnet_String p) \<noteq> None"
      unfolding v1 using Cons.prems(4) by (simp add: view_del_def)
    then obtain s2 where s2: "free_each st bs ip s1 = (Inr (), s2)" "inv s2" "other s2 = other s1"
      "view s2 = (if \<exists>b\<in>set bs. contains (net_of b) (IP ip) then view_del {ticket p ip} (view s1) else view s1)"
      using Cons.IH [OF i1(1) Cons.prems(2,3)] Cons.prems(5) by auto
    have "view s2 = view_del {ticket p ip} (view s)"
      unfolding s2(4) v1 view_del_del by simp
    then show ?thesis using True p s1 s2 i1 by (simp add: simple_Free_def net_of_def)
  next
    case False
    then show ?thesis using Cons by (simp add: simple_Free_def net_of_def)
  qed
qed simp

lemma multi_Free_ok:
  assumes "multi_ok mia" "nets_apart mia" "inv s" "a \<in> set (mia_m mia f)" "owns a ip"
    "view s (ipnet_String (net_of a)) \<noteq> None"
  shows "\<exists>s'. multi_Free st mia ip s = (Inr (), s') \<and> inv s' \<and> other s' = other s \<and>
    view s' = view_del {ticket (net_of a) ip} (view s)"
proof -
  have a: "alloc_ok a" "sia_f a = f" using assms(1,4) by (auto simp: multi_ok_def)
  note ok = owns_ok [OF a(1) assms(5)]
  have "\<forall>b\<in>set (mia_m mia f). contains (net_of b) (IP ip) \<longrightarrow> net_of b = net_of a"
    using nets_apartD [OF assms(2,4)] ok(2) by metis
  from free_each_ok [OF assms(3) ok(1,4) assms(6) this] show ?thesis
    using ok(2,3) assms(4) a(2) by (auto simp: multi_Free_def)
qed

lemma free_all_ok:
  assumes "multi_ok mia" "nets_apart mia" "inv s" "list_all2 owns as ips"
    "\<forall>a\<in>set as. (\<exists>f. a \<in> set (mia_m mia f)) \<and> view s (ipnet_String (net_of a)) \<noteq> None"
  shows "\<exists>s'. free_all st mia err ips s = (Inr (), s') \<and> inv s' \<and> other s' = other s \<and>
    view s' = view_del (tickets as ips) (view s)"
  using assms(4,5,3)
proof (induction arbitrary: s rule: list_all2_induct)
  case (Cons a as ip ips)
  obtain f where f: "a \<in> set (mia_m mia f)" and k: "view s (ipnet_String (net_of a)) \<noteq> None"
    using Cons.prems(1) by auto
  obtain s1 where s1: "multi_Free st mia ip s = (Inr (), s1)" "inv s1" "other s1 = other s"
    "view s1 = view_del {ticket (net_of a) ip} (view s)"
    using multi_Free_ok [OF assms(1,2) Cons.prems(2) f Cons.hyps(1) k] by blast
  have "\<forall>a\<in>set as. (\<exists>f. a \<in> set (mia_m mia f)) \<and> view s1 (ipnet_String (net_of a)) \<noteq> None"
    unfolding s1(4) using Cons.prems(1) by (simp add: view_del_def)
  then obtain s2 where "free_all st mia err ips s1 = (Inr (), s2)" "inv s2" "other s2 = other s1"
    "view s2 = view_del (tickets as ips) (view s1)"
    using Cons.IH s1(2) by blast
  then show ?case using s1 by (simp add: view_del_del)
qed simp

end

lemma served_same: "same_nets mia mia' \<Longrightarrow> list_all2 same_static (served mia fs) (served mia' fs)"
  by (induction fs) (auto simp: served_def same_nets_def intro: list_all2_appendI)

lemma owns_same:
  "list_all2 same_static as bs \<Longrightarrow> list_all2 owns (take k as) ips \<Longrightarrow> list_all2 owns (take k bs) ips"
proof (induction arbitrary: k ips rule: list_all2_induct)
  case (Cons a as b bs)
  then show ?case
    by (cases k) (auto simp: list_all2_Cons1 owns_def same_static_net [OF Cons.hyps(1)])
qed simp

lemma fresh_in_known:
  "list_all2 owns as ips \<Longrightarrow> fresh_in v (tickets as ips) \<Longrightarrow> \<forall>a\<in>set as. v (ipnet_String (net_of a)) \<noteq> None"
  by (induction rule: list_all2_induct) (auto simp: fresh_in_def ticket_def)

definition multi_outcome ::
  "simpleIPAllocator list \<Rightarrow> alloc_view \<Rightarrow> alloc_view \<Rightarrow> fault + ipnet list option \<Rightarrow> bool" where
  "multi_outcome as v v' r =
     (case r of
        Inr (Some ips) \<Rightarrow> ips \<noteq> [] \<and> list_all2 owns as ips \<and> fresh_in v (tickets as ips) \<and>
          v' = view_add (tickets as ips) v
      | Inr None \<Rightarrow> v' = v
      | Inl (Err e) \<Rightarrow> v' = v
      | Inl (Panic e) \<Rightarrow> (\<exists>ips. fresh_in v (tickets as ips) \<and> v' = view_add (tickets as ips) v))"

context reliable_ip_store
begin

lemma multi_Allocate_safe:
  assumes ok: "multi_ok mia" and apart: "nets_apart mia" and inv: "inv s"
    and fs: "allocate_families family = Inr fs" "distinct fs"
  shows "\<exists>r mia' s'. multi_Allocate st family mia s = Some (r, mia', s') \<and> inv s' \<and> other s' = other s \<and>
    same_nets mia mia' \<and> multi_ok mia' \<and> multi_outcome (served mia fs) (view s) (view s') r \<and>
    (\<forall>e. r = Inl (Err e) \<longrightarrow> (\<exists>z. tryAllocate st fs mia [] s = Some (Inl (Err e), z)))"
proof -
  let ?as = "served mia fs"
  obtain r ips mia' s' where l: "tryAllocate st fs mia [] s = Some (r, ips, mia', s')" "inv s'"
    "other s' = other s" "same_nets mia mia'" "multi_ok mia'" "length ips \<le> length ?as"
    "list_all2 owns (take (length ips) ?as) ips" "fresh_in (view s) (tickets ?as ips)"
    "view s' = view_add (tickets ?as ips) (view s)"
    "r = Inr True \<Longrightarrow> length ips = length ?as \<and> ips \<noteq> []"
    using tryAllocate_safe [OF ok inv fs(2), of "[]"] unfolding append_Nil by blast
  have same: "list_all2 same_static ?as (served mia' fs)" by (rule served_same [OF l(4)])
  let ?bs = "take (length ips) (served mia' fs)"
  have len: "length (served mia' fs) = length ?as" using list_all2_lengthD [OF same] by simp
  have own: "list_all2 owns ?bs ips" by (rule owns_same [OF same l(7)])
  have tk: "tickets ?bs ips = tickets ?as ips"
    using tickets_same [OF same, of ips] tickets_short [of ips ?bs "drop (length ips) (served mia' fs)"]
      l(6) len by simp
  have bs: "\<exists>f. a \<in> set (mia_m mia' f)" if "a \<in> set ?bs" for a
    using in_set_takeD [OF that] by (auto simp: served_def)
  have known: "view s' (ipnet_String (net_of a)) \<noteq> None" if "a \<in> set ?bs" for a
    using fresh_in_known [OF own] l(8) that unfolding l(9) tk by (simp add: view_add_def)
  have undo: "\<exists>s''. free_all st mia' err ips s' = (Inr (), s'') \<and> inv s'' \<and> other s'' = other s \<and>
      view s'' = view s" for err
    using free_all_ok [OF l(5) nets_apart_same [OF l(4) apart] l(2) own, of err] bs known l(3)
    unfolding l(9) tk view_del_add [OF l(8)] by auto
  consider e where "r = Inl (Panic e)" | e where "r = Inl (Err e)" | "r = Inr False" | "r = Inr True"
    by (metis (full_types) fault.exhaust sum.exhaust)
  then show ?thesis
  proof cases
    case (1 e)
    then show ?thesis using l fs by (auto simp: multi_Allocate_def multi_outcome_def)
  next
    case (2 e)
    then show ?thesis using undo [of "Some e"] l(1,4,5) fs by (auto simp: multi_Allocate_def multi_outcome_def)
  next
    case 3
    then show ?thesis using undo [of None] l(1,4,5) fs by (auto simp: multi_Allocate_def multi_outcome_def)
  next
    case 4
    then show ?thesis using l fs by (auto simp: multi_Allocate_def multi_outcome_def)
  qed
qed

end

section \<open>Making the allocators\<close>

lemma starts_ok:
  assumes "starts a x" "subnet_ok x"
  shows "alloc_ok a" "net_of a = NewPrefix (Subnet_Subnet x)"
    "sia_f a = (if to4 (IP (Subnet_Subnet x)) = None then IPv6 else IPv4)"
proof -
  show n: "net_of a = NewPrefix (Subnet_Subnet x)"
    using assms(1) by (simp add: starts_def fits_def net_of_def)
  then show "alloc_ok a" using assms(1) by (auto simp: starts_def alloc_ok_def)
  show "sia_f a = (if to4 (IP (Subnet_Subnet x)) = None then IPv6 else IPv4)"
    using assms NewPrefix_same(4) [of "Subnet_Subnet x"]
    by (simp add: starts_def subnet_ok_def alloc_at_def alloc_static_def is4_def)
qed

context reliable_ip_store
begin

lemma new_allocators_ok:
  assumes "\<forall>x\<in>set subs. subnet_ok x \<and> Validate x = Inr ()" "inv s"
  shows "\<exists>as s'. new_allocators st subs s = (Inr as, s') \<and> list_all2 starts as subs \<and> inv s' \<and>
    other s' = other s \<and> (\<forall>x\<in>set subs. view s' (ipnet_String (Subnet_Subnet x)) \<noteq> None) \<and>
    (\<forall>t. t \<notin> (\<lambda>x. ipnet_String (Subnet_Subnet x)) ` set subs \<longrightarrow> view s' t = view s t)"
  using assms
proof (induction subs arbitrary: s)
  case (Cons x subs)
  obtain a s1 where a: "SimpleIPAllocator st x s = (Inr a, s1)" "starts a x" "inv s1" "other s1 = other s"
    "view s1 (ipnet_String (Subnet_Subnet x)) \<noteq> None"
    "\<forall>t. t \<noteq> ipnet_String (Subnet_Subnet x) \<longrightarrow> view s1 t = view s t"
    using SimpleIPAllocator_ok(1) [of x s] Cons.prems by auto
  obtain as s2 where as: "new_allocators st subs s1 = (Inr as, s2)" "list_all2 starts as subs" "inv s2"
    "other s2 = other s1" "\<forall>x\<in>set subs. view s2 (ipnet_String (Subnet_Subnet x)) \<noteq> None"
    "\<forall>t. t \<notin> (\<lambda>x. ipnet_String (Subnet_Subnet x)) ` set subs \<longrightarrow> view s2 t = view s1 t"
    using Cons.IH [OF _ a(3)] Cons.prems by auto
  have "view s2 (ipnet_String (Subnet_Subnet x)) \<noteq> None"
    using as(5,6) a(5) by (cases "ipnet_String (Subnet_Subnet x) \<in> (\<lambda>x. ipnet_String (Subnet_Subnet x)) ` set subs") auto
  then show ?case using a as by simp
qed simp

lemma DualStackIPAllocator_ok:
  assumes "subs \<noteq> []" "\<forall>x\<in>set subs. subnet_ok x \<and> Validate x = Inr ()" "inv s"
  shows "\<exists>mia s'. DualStackIPAllocator st subs s = (Inr mia, s') \<and> inv s' \<and> other s' = other s \<and> multi_ok mia \<and>
    list_all2 starts (mia_m mia IPv4) (filter (\<lambda>x. to4 (IP (Subnet_Subnet x)) \<noteq> None) subs) \<and>
    list_all2 starts (mia_m mia IPv6) (filter (\<lambda>x. to4 (IP (Subnet_Subnet x)) = None) subs) \<and>
    (\<forall>f. f \<noteq> IPv4 \<and> f \<noteq> IPv6 \<longrightarrow> mia_m mia f = []) \<and>
    (\<forall>x\<in>set subs. view s' (ipnet_String (Subnet_Subnet x)) \<noteq> None)"
proof -
  let ?subs4 = "filter (\<lambda>x. to4 (IP (Subnet_Subnet x)) \<noteq> None) subs"
  let ?subs6 = "filter (\<lambda>x. to4 (IP (Subnet_Subnet x)) = None) subs"
  have v: "\<forall>x\<in>set ?subs4. subnet_ok x \<and> Validate x = Inr ()" "\<forall>x\<in>set ?subs6. subnet_ok x \<and> Validate x = Inr ()"
    using assms(2) by auto
  obtain as4 s4 where a4: "new_allocators st ?subs4 s = (Inr as4, s4)" "list_all2 starts as4 ?subs4" "inv s4"
    "other s4 = other s" "\<forall>x\<in>set ?subs4. view s4 (ipnet_String (Subnet_Subnet x)) \<noteq> None"
    using new_allocators_ok [OF v(1) assms(3)] by auto
  obtain as6 s6 where a6: "new_allocators st ?subs6 s4 = (Inr as6, s6)" "list_all2 starts as6 ?subs6" "inv s6"
    "other s6 = other s4" "\<forall>x\<in>set ?subs6. view s6 (ipnet_String (Subnet_Subnet x)) \<noteq> None"
    "\<forall>t. t \<notin> (\<lambda>x. ipnet_String (Subnet_Subnet x)) ` set ?subs6 \<longrightarrow> view s6 t = view s4 t"
    using new_allocators_ok [OF v(2) a4(3)] by auto
  let ?mia = "\<lparr>mia_m = (\<lambda>f. if f = IPv4 then as4 else if f = IPv6 then as6 else [])\<rparr>"
  have r: "DualStackIPAllocator st subs s = (Inr ?mia, s6)"
    using assms(1) a4(1) a6(1) by (simp add: DualStackIPAllocator_def)
  have all: "\<forall>a\<in>set as. alloc_ok a \<and> sia_f a = f"
    if "list_all2 starts as xs" "\<forall>x\<in>set xs. subnet_ok x \<and> (if to4 (IP (Subnet_Subnet x)) = None then IPv6 else IPv4) = f"
    for as xs f
    using that by (induction rule: list_all2_induct) (auto simp: starts_ok split: if_splits)
  have "\<forall>a\<in>set as4. alloc_ok a \<and> sia_f a = IPv4" by (rule all [OF a4(2)]) (use assms(2) in auto)
  moreover have "\<forall>a\<in>set as6. alloc_ok a \<and> sia_f a = IPv6" by (rule all [OF a6(2)]) (use assms(2) in auto)
  ultimately have ok: "multi_ok ?mia" by (auto simp: multi_ok_def)
  have known: "view s6 (ipnet_String (Subnet_Subnet x)) \<noteq> None" if "x \<in> set subs" for x
  proof (cases "ipnet_String (Subnet_Subnet x) \<in> (\<lambda>x. ipnet_String (Subnet_Subnet x)) ` set ?subs6")
    case True
    then show ?thesis using a6(5) by auto
  next
    case False
    then have "x \<in> set ?subs4" using that by (cases "to4 (IP (Subnet_Subnet x))") auto
    then show ?thesis using False a4(5) a6(6) by (metis (no_types, lifting))
  qed
  have "IPv4 \<noteq> IPv6" by (simp add: IPv4_def IPv6_def)
  then show ?thesis using r ok a4(2,4) a6(2-4) known by (intro exI [of _ ?mia] exI [of _ s6]) simp
qed

end

text \<open>The configured subnets: well-formed, accepted by \<open>Validate\<close>, none sharing an address with
  another (which \<open>checkSubnets\<close> of internal/config checks).\<close>

definition config_ok :: "Subnet list \<Rightarrow> bool" where
  "config_ok subs \<longleftrightarrow> subs \<noteq> [] \<and> (\<forall>x\<in>set subs. subnet_ok x \<and> Validate x = Inr ()) \<and>
     sorted_wrt disjoint_nets (map Subnet_Subnet subs)"

section \<open>The text of a family\<close>

definition FormatInt :: "int \<Rightarrow> string" where
  "FormatInt n = (if n < 0 then ''-'' @ digits 10 (nat (- n)) else digits 10 (nat n))"

definition Family_String :: "Family \<Rightarrow> string" where
  "Family_String i =
     (let index = [0, 4, 8, 17]; j = i - 1
      in if j < 0 \<or> int (length index) - 1 \<le> j then ''Family('' @ FormatInt (j + 1) @ '')''
         else take (index ! (nat j + 1) - index ! nat j) (drop (index ! nat j) ''IPv4IPv6DualStack''))"

lemma Family_String_known:
  "Family_String IPv4 = ''IPv4'' \<and> Family_String IPv6 = ''IPv6'' \<and> Family_String DualStack = ''DualStack'' \<and>
   Family_String 0 = ''Family(0)'' \<and> Family_String (- 12) = ''Family(-12)''"
  by code_simp

end
