(* ===== verification/Ipaddr_Overlap.thy ===== *)
theory Ipaddr_Overlap
  imports Ipaddr
begin

text \<open>
  How package \<open>ipaddr\<close> (vendor/github.com/mikioh/ipaddr/prefix.go) tells whether two prefixes overlap,
  on words as the source has it, and that this is sharing an address.  The reads of fixed length from
  an address or a mask stay inside it for prefixes of networks that \<open>net.ParseCIDR\<close> makes.
\<close>

section \<open>Contains and Overlaps\<close>

fun leading_zeros :: "nat \<Rightarrow> 'a :: len word \<Rightarrow> nat" where
  "leading_zeros 0 w = 0"
| "leading_zeros (Suc k) w = (if bit w k then 0 else Suc (leading_zeros k w))"

definition LeadingZeros32 :: "32 word \<Rightarrow> nat" where
  "LeadingZeros32 w = leading_zeros 32 w"

definition LeadingZeros64 :: "64 word \<Rightarrow> nat" where
  "LeadingZeros64 w = leading_zeros 64 w"

definition lastIPv4Int :: "prefix \<Rightarrow> 32 word" where
  "lastIPv4Int p = ipToIPv4Int (IP p) OR NOT (mask32 (prefix_Len p))"

definition ipMaskToIPv4Int :: "ipmask \<Rightarrow> 32 word" where
  "ipMaskToIPv4Int m = word_of_nat (be_nat (take 4 m))"

definition ipMaskToIPv6Int :: "ipmask \<Rightarrow> ipv6Int" where
  "ipMaskToIPv6Int m = (word_of_nat (be_nat (take 8 m)), word_of_nat (be_nat (take 8 (drop 8 m))))"

definition containsIPv4 :: "prefix \<Rightarrow> prefix \<Rightarrow> bool" where
  "containsIPv4 p q =
     (if to4 (IP q) = None then False
      else let l = prefix_Len p
           in if prefix_Len q \<le> l then False
              else let base = ipToIPv4Int (ip_mask (IP p) (Mask p));
                       mask = ipMaskToIPv4Int (Mask p);
                       fip = ipToIPv4Int (IP q);
                       lip = lastIPv4Int q;
                       fdiff = (base XOR fip) AND mask;
                       ldiff = (base XOR lip) AND mask
                   in l \<le> LeadingZeros32 fdiff \<and> l \<le> LeadingZeros32 ldiff)"

definition containsIPv6 :: "prefix \<Rightarrow> prefix \<Rightarrow> bool" where
  "containsIPv6 p q =
     (if to16 (IP q) = None \<or> to4 (IP q) \<noteq> None then False
      else let l = prefix_Len p
           in if prefix_Len q \<le> l then False
              else let base = ipToIPv6Int (IP p);
                       mask = ipMaskToIPv6Int (Mask p);
                       (l0, l1) = (if l < 64 then (l, 0) else (64, l - 64));
                       fip = ipToIPv6Int (IP q);
                       lip = lastIPv6Int q;
                       fdiff = ((fst base XOR fst fip) AND fst mask, (snd base XOR snd fip) AND snd mask);
                       ldiff = ((fst base XOR fst lip) AND fst mask, (snd base XOR snd lip) AND snd mask)
                   in l0 \<le> LeadingZeros64 (fst fdiff) \<and> l1 \<le> LeadingZeros64 (snd fdiff) \<and>
                      l0 \<le> LeadingZeros64 (fst ldiff) \<and> l1 \<le> LeadingZeros64 (snd ldiff))"

definition prefix_Contains :: "prefix \<Rightarrow> prefix \<Rightarrow> bool" where
  "prefix_Contains p q =
     (if to4 (IP p) \<noteq> None then containsIPv4 p q
      else if to16 (IP p) \<noteq> None \<and> to4 (IP p) = None then containsIPv6 p q
      else False)"

definition prefix_Overlaps :: "prefix \<Rightarrow> prefix \<Rightarrow> bool" where
  "prefix_Overlaps p q \<longleftrightarrow> prefix_Contains p q \<or> prefix_Contains q p \<or> prefix_Equal p q"

section \<open>Bits and quotients\<close>

lemma leading_zeros_iff: "n - h \<le> leading_zeros n w \<longleftrightarrow> (\<forall>i. h \<le> i \<and> i < n \<longrightarrow> \<not> bit w i)"
proof (induction n)
  case (Suc n)
  show ?case
  proof (cases "h \<le> n")
    case True
    then show ?thesis using Suc by (auto simp: Suc_diff_le less_Suc_eq)
  qed auto
qed simp

lemma nat_div_bits: "(a :: nat) div 2 ^ h = b div 2 ^ h \<longleftrightarrow> (\<forall>i\<ge>h. bit a i = bit b i)"
proof -
  have "a div 2 ^ h = b div 2 ^ h \<longleftrightarrow> (\<forall>j. bit (drop_bit h a) j = bit (drop_bit h b) j)"
    by (simp add: drop_bit_eq_div bit_eq_iff)
  also have "\<dots> \<longleftrightarrow> (\<forall>i\<ge>h. bit a i = bit b i)"
    by (simp add: bit_drop_bit_eq) (metis le_add_diff_inverse le_add1)
  finally show ?thesis .
qed

lemma bit_unat: "bit (unat (w :: 'a :: len word)) i \<longleftrightarrow> bit w i"
  by (simp add: bit_unsigned_iff bit_imp_le_length possible_bit_def)

lemma unat_div_bits:
  fixes a b :: "'a :: len word"
  shows "unat a div 2 ^ h = unat b div 2 ^ h \<longleftrightarrow> (\<forall>i. h \<le> i \<and> i < LENGTH('a) \<longrightarrow> bit a i = bit b i)"
proof -
  have "\<not> i < LENGTH('a) \<Longrightarrow> \<not> bit a i \<and> \<not> bit b i" for i
    using bit_imp_le_length [of a i] bit_imp_le_length [of b i] by blast
  then show ?thesis unfolding nat_div_bits bit_unat by metis
qed

lemma bit_cval: "bit (cval i) j \<longleftrightarrow> (if j < 64 then bit (snd i) j else bit (fst i) (j - 64))"
proof -
  have "cval i = push_bit 64 (unat (fst i)) OR unat (snd i)"
  proof -
    have "push_bit 64 (unat (fst i)) AND unat (snd i) = 0"
      by (auto simp: bit_eq_iff bit_simps bit_unat dest: bit_imp_le_length)
    then have "push_bit 64 (unat (fst i)) OR unat (snd i) = push_bit 64 (unat (fst i)) + unat (snd i)"
      by (rule disjunctive_add_eq_or [symmetric])
    then show ?thesis by (simp add: cval_def push_bit_eq_mult)
  qed
  then show ?thesis using bit_imp_le_length [of "snd i" j] by (auto simp: bit_simps bit_unat)
qed

text \<open>The masks of a network: ones above the host part.\<close>

lemma bytes_and_ones: "length m = l \<Longrightarrow> bytes_and (replicate l 0xff) m = m"
  by (induction l arbitrary: m) (auto simp: length_Suc_conv and.commute)

lemma be_nat_ones: "be_nat (replicate l 0xff) = 256 ^ l - 1"
proof (induction l)
  case (Suc l)
  have "unat (0xff :: byte) = 255" by simp
  then have "be_nat (replicate (Suc l) 0xff) = 255 * 256 ^ l + (256 ^ l - 1)"
    using Suc by (simp del: unat_numeral unsigned_numeral)
  moreover have "0 < (256 :: nat) ^ l" by simp
  ultimately show ?case by simp
qed simp

lemma bit_cidr: "n \<le> 8 * l \<Longrightarrow> bit (be_nat (cidr_bytes l n)) i \<longleftrightarrow> 8 * l - n \<le> i \<and> i < 8 * l"
proof -
  assume n: "n \<le> 8 * l"
  have "be_nat (cidr_bytes l n) = (2 ^ (8 * l) - 1) div 2 ^ (8 * l - n) * 2 ^ (8 * l - n)"
    using be_nat_bytes_and_cidr [of "replicate l 0xff" l n] n bytes_and_ones [of "cidr_bytes l n" l]
    by (simp add: be_nat_ones power_mult)
  also have "\<dots> = push_bit (8 * l - n) (drop_bit (8 * l - n) (mask (8 * l)))"
    by (simp add: push_bit_eq_mult drop_bit_eq_div mask_eq_exp_minus_1)
  finally show ?thesis by (auto simp: bit_simps)
qed

lemma prefix_mask:
  assumes "prefix_ok p"
  shows "Mask p = cidr_bytes (addr_bits (IP p) div 8) (prefix_Len p)" "prefix_Len p \<le> addr_bits (IP p)"
    "host_bits p = addr_bits (IP p) - prefix_Len p"
  using assms by (auto simp: prefix_ok_def net_ok_def prefix_Len_def host_bits_def addr_bits_def CIDRMask_32 CIDRMask_128)

lemma bit_ipMask4:
  "prefix_ok p \<Longrightarrow> is4 (IP p) \<Longrightarrow> bit (ipMaskToIPv4Int (Mask p)) i \<longleftrightarrow> host_bits p \<le> i \<and> i < 32"
  using prefix_mask [of p] bit_cidr [of "prefix_Len p" 4 i]
  by (auto simp: ipMaskToIPv4Int_def addr_bits_def bit_simps)

lemma cval_ipMask6: "length m = 16 \<Longrightarrow> cval (ipMaskToIPv6Int m) = be_nat m"
  using cval_ipToIPv6Int [of m] by (simp add: ipMaskToIPv6Int_def ipToIPv6Int_def ipval_16)

lemma bit_ipMask6:
  assumes "prefix_ok p" "\<not> is4 (IP p)"
  shows "bit (cval (ipMaskToIPv6Int (Mask p))) i \<longleftrightarrow> host_bits p \<le> i \<and> i < 128"
  using prefix_mask [OF assms(1)] assms(2) bit_cidr [of "prefix_Len p" 16 i]
  by (auto simp: addr_bits_def cval_ipMask6)

section \<open>Contains is containment of the range\<close>

lemma contains_v4_bits:
  assumes "prefix_ok p" "is4 (IP p)" "h = host_bits p"
  shows "prefix_Len p \<le> LeadingZeros32 ((a XOR b) AND ipMaskToIPv4Int (Mask p)) \<longleftrightarrow> unat a div 2 ^ h = unat b div 2 ^ h"
proof -
  have "prefix_Len p = 32 - h" "h \<le> 32"
    using prefix_mask [OF assms(1)] assms(2,3) by (auto simp: addr_bits_def)
  then show ?thesis
    unfolding LeadingZeros32_def unat_div_bits
    by (auto simp: leading_zeros_iff bit_simps bit_ipMask4 [OF assms(1,2)] assms(3))
qed

lemma contains_v6_bits:
  assumes "prefix_ok p" "\<not> is4 (IP p)" "h = host_bits p" "(l0, l1) = (if prefix_Len p < 64 then (prefix_Len p, 0) else (64, prefix_Len p - 64))"
  shows "l0 \<le> LeadingZeros64 ((fst a XOR fst b) AND fst (ipMaskToIPv6Int (Mask p))) \<and>
    l1 \<le> LeadingZeros64 ((snd a XOR snd b) AND snd (ipMaskToIPv6Int (Mask p))) \<longleftrightarrow> cval a div 2 ^ h = cval b div 2 ^ h"
proof -
  let ?m = "ipMaskToIPv6Int (Mask p)"
  have h: "prefix_Len p = 128 - h" "h \<le> 128"
    using prefix_mask [OF assms(1)] assms(2,3) by (auto simp: addr_bits_def)
  have m: "i < 64 \<Longrightarrow> bit (snd ?m) i \<longleftrightarrow> h \<le> i" "i < 64 \<Longrightarrow> bit (fst ?m) i \<longleftrightarrow> h \<le> 64 + i" for i
    using bit_ipMask6 [OF assms(1,2), of i] bit_ipMask6 [OF assms(1,2), of "64 + i"] assms(3)
    by (auto simp: bit_cval)
  have l: "l0 = 64 - (h - 64)" "l1 = 64 - min 64 h" using assms(4) h by (auto split: if_splits)
  have "(\<forall>i\<ge>h. bit (cval a) i = bit (cval b) i) \<longleftrightarrow>
      (\<forall>i. h - 64 \<le> i \<and> i < 64 \<longrightarrow> bit (fst a) i = bit (fst b) i \<or> \<not> h \<le> 64 + i) \<and>
      (\<forall>i. min 64 h \<le> i \<and> i < 64 \<longrightarrow> bit (snd a) i = bit (snd b) i)" (is "?A \<longleftrightarrow> ?B \<and> ?C")
  proof (rule iffI; (intro conjI allI impI)?)
    fix i assume A: ?A and "h - 64 \<le> i \<and> i < 64"
    then show "bit (fst a) i = bit (fst b) i \<or> \<not> h \<le> 64 + i" using spec [OF A, of "64 + i"] by (auto simp: bit_cval)
  next
    fix i assume A: ?A and "min 64 h \<le> i \<and> i < 64"
    then show "bit (snd a) i = bit (snd b) i" using spec [OF A, of i] by (auto simp: bit_cval)
  next
    fix i assume B: "?B \<and> ?C" and i: "h \<le> i"
    show "bit (cval a) i = bit (cval b) i"
    proof (cases "i < 64")
      case True
      then show ?thesis using B i by (auto simp: bit_cval)
    next
      case False
      show ?thesis
      proof (cases "i - 64 < 64")
        case True
        have "h - 64 \<le> i - 64" "h \<le> 64 + (i - 64)" using i by auto
        then show ?thesis using B True False by (auto simp: bit_cval)
      next
        case F: False
        then have "\<not> bit (fst a) (i - 64)" "\<not> bit (fst b) (i - 64)"
          using bit_imp_le_length [of "fst a" "i - 64"] bit_imp_le_length [of "fst b" "i - 64"] by auto
        then show ?thesis using False by (simp add: bit_cval)
      qed
    qed
  qed
  then show ?thesis
    unfolding LeadingZeros64_def nat_div_bits l leading_zeros_iff by (auto simp: bit_simps m)
qed

lemma masked_own:
  assumes "prefix_ok p" "is4 (IP p)"
  shows "mapped_base + unat (ipToIPv4Int (ip_mask (IP p) (Mask p))) = ipval (IP p)"
proof -
  obtain x where x: "length x = 4" "IP p = v4InV6Prefix @ x" "to4 (IP p) = Some x"
    using assms by (cases "IP p" rule: to4_cases) (auto simp: prefix_ok_def is4_def)
  have m: "Mask p = cidr_bytes 4 (prefix_Len p)" "prefix_Len p \<le> 32" "host_bits p = 32 - prefix_Len p"
    using prefix_mask [OF assms(1)] assms(2) by (auto simp: addr_bits_def)
  have v: "ipval (IP p) = mapped_base + be_nat x" using to4_Some_ipval [OF x(3)] by simp
  have "be_nat x div 2 ^ host_bits p * 2 ^ host_bits p = be_nat x"
  proof -
    have "2 ^ host_bits p dvd net_base p" by (simp add: net_base_def)
    then have "2 ^ host_bits p dvd mapped_base + be_nat x" "(2 :: nat) ^ host_bits p dvd mapped_base"
      using assms(1) v mapped_base_dvd [of "host_bits p"] m(3) by (simp_all add: prefix_ok_def)
    then show ?thesis using dvd_add_right_iff by (metis dvd_div_mult_self)
  qed
  then have "be_nat (bytes_and x (Mask p)) = be_nat x"
    using be_nat_bytes_and_cidr [OF x(1)] m by simp
  moreover have "ip_mask (IP p) (Mask p) = bytes_and x (Mask p)"
    using x m(1) by (simp add: ip_mask_def Let_def)
  moreover have "length (bytes_and x (Mask p)) = 4" using x(1) m(1) by simp
  moreover have "be_nat x < 2 ^ 32" using be_nat_less [of x] x(1) by simp
  ultimately show ?thesis using v by (simp add: ipToIPv4Int_def to4_def unat_of_nat)
qed

lemma lastIPv4Int_value:
  "prefix_ok p \<Longrightarrow> is4 (IP p) \<Longrightarrow> mapped_base + unat (lastIPv4Int p) = net_last p"
  using cval_lastIPv4 [of p] unfolding lastIPv4MappedIPv6Int_def cval_mapped lastIPv4Int_def by simp

lemma Contains_iff:
  assumes p: "prefix_ok p" and q: "prefix_ok q"
  shows "prefix_Contains p q \<longleftrightarrow> is4 (IP p) = is4 (IP q) \<and> prefix_Len p < prefix_Len q \<and>
    ipval (IP q) div 2 ^ host_bits p = ipval (IP p) div 2 ^ host_bits p \<and>
    net_last q div 2 ^ host_bits p = ipval (IP p) div 2 ^ host_bits p"
proof (cases "is4 (IP p)")
  case True
  show ?thesis
  proof (cases "is4 (IP q)")
    case q4: True
    let ?h = "host_bits p" and ?b = "ipToIPv4Int (ip_mask (IP p) (Mask p))"
    have h: "?h \<le> 32" using prefix_mask [OF p] True by (simp add: addr_bits_def)
    have len: "length (IP q) = 16" using q by (simp add: prefix_ok_def)
    have "(mapped_base + a) div 2 ^ ?h = (mapped_base + b) div 2 ^ ?h \<longleftrightarrow> a div 2 ^ ?h = b div 2 ^ ?h" for a b
      by (simp add: mapped_base_div [OF h])
    then have "ipval (IP q) div 2 ^ ?h = ipval (IP p) div 2 ^ ?h \<longleftrightarrow> unat (ipToIPv4Int (IP q)) div 2 ^ ?h = unat ?b div 2 ^ ?h"
      "net_last q div 2 ^ ?h = ipval (IP p) div 2 ^ ?h \<longleftrightarrow> unat (lastIPv4Int q) div 2 ^ ?h = unat ?b div 2 ^ ?h"
      unfolding ipToIPv4Int_16 [OF len q4, symmetric] masked_own [OF p True, symmetric]
        lastIPv4Int_value [OF q q4, symmetric] by blast+
    moreover have "prefix_Contains p q = containsIPv4 p q" using True by (auto simp: prefix_Contains_def is4_def)
    moreover have "to4 (IP q) \<noteq> None" using q4 by (simp add: is4_def)
    ultimately show ?thesis
      using True q4 by (auto simp: containsIPv4_def Let_def contains_v4_bits [OF p True refl])
  next
    case False
    then show ?thesis using True by (auto simp: prefix_Contains_def containsIPv4_def is4_def)
  qed
next
  case False
  then have n4: "to4 (IP p) = None" "to16 (IP p) \<noteq> None"
    using p by (auto simp: is4_def prefix_ok_def to16_def)
  show ?thesis
  proof (cases "is4 (IP q)")
    case True
    then show ?thesis using False n4 by (auto simp: prefix_Contains_def containsIPv6_def is4_def)
  next
    case q6: False
    then have nq: "to4 (IP q) = None" "to16 (IP q) \<noteq> None"
      using q by (auto simp: is4_def prefix_ok_def to16_def)
    have l: "length (IP p) = 16" "length (IP q) = 16" using p q by (auto simp: prefix_ok_def)
    obtain l0 l1 where L: "(l0, l1) = (if prefix_Len p < 64 then (prefix_Len p, 0) else (64, prefix_Len p - 64))"
      by (metis surj_pair)
    let ?h = "host_bits p"
    have "prefix_Contains p q = containsIPv6 p q" using n4 by (simp add: prefix_Contains_def)
    also have "\<dots> \<longleftrightarrow> prefix_Len p < prefix_Len q \<and>
        cval (ipToIPv6Int (IP p)) div 2 ^ ?h = cval (ipToIPv6Int (IP q)) div 2 ^ ?h \<and>
        cval (ipToIPv6Int (IP p)) div 2 ^ ?h = cval (lastIPv6Int q) div 2 ^ ?h"
      unfolding contains_v6_bits [OF p False refl L, symmetric] containsIPv6_def Let_def L [symmetric] prod.case
        fst_conv snd_conv
      using nq by (auto simp: not_le)
    finally show ?thesis
      using False q6 by (simp only: cval_ipToIPv6Int [OF l(1)] cval_ipToIPv6Int [OF l(2)] cval_lastIPv6 [OF q q6])
        (metis (no_types))
  qed
qed

section \<open>Overlapping is sharing an address\<close>

lemma div_coarser: "(a :: nat) div 2 ^ k = b div 2 ^ k \<Longrightarrow> k \<le> h \<Longrightarrow> a div 2 ^ h = b div 2 ^ h"
  unfolding nat_div_bits by auto

lemma last_div: "net_last q div 2 ^ host_bits q = ipval (IP q) div 2 ^ host_bits q"
proof -
  have "0 < d \<Longrightarrow> (k * d + (d - 1)) div d = k" for k d :: nat
    by (subst div_mult_self3) simp_all
  then show ?thesis unfolding net_last_def net_base_def by (simp only: zero_less_power zero_less_numeral)
qed

lemma prefix_eqI:
  assumes "prefix_ok p" "prefix_ok q" "is4 (IP p) = is4 (IP q)" "prefix_Len p = prefix_Len q"
    "ipval (IP p) div 2 ^ host_bits p = ipval (IP q) div 2 ^ host_bits q"
  shows "p = q"
proof -
  have h: "host_bits p = host_bits q" "Mask p = Mask q"
    using prefix_mask [OF assms(1)] prefix_mask [OF assms(2)] assms(3,4) by (simp_all add: addr_bits_def)
  have "ipval (IP p) = ipval (IP q)"
    using assms(1,2,5) h(1) by (simp add: prefix_ok_def net_base_def)
  then have "IP p = IP q" using assms(1,2) be_nat_inj [of "IP p" "IP q"] by (auto simp: prefix_ok_def ipval_16)
  then show ?thesis using h(2) by simp
qed

lemma contains_share:
  assumes "prefix_ok p" "prefix_ok q" "contains p ip" "contains q ip" "prefix_Len p \<le> prefix_Len q"
  shows "prefix_Contains p q \<or> p = q"
proof -
  have ok: "net_ok p" "net_ok q" using assms(1,2) by (auto simp: prefix_ok_def)
  have v: "valid_ip ip" by (rule contains_not_valid [OF ok(1) assms(3)])
  have c: "is4 ip = is4 (IP p)" "ipval ip div 2 ^ host_bits p = ipval (IP p) div 2 ^ host_bits p"
    "is4 ip = is4 (IP q)" "ipval ip div 2 ^ host_bits q = ipval (IP q) div 2 ^ host_bits q"
    using contains_div [OF ok(1) v] contains_div [OF ok(2) v] assms(3,4) by auto
  have h: "host_bits q \<le> host_bits p"
    using prefix_mask(3) [OF assms(1)] prefix_mask(3) [OF assms(2)] assms(5) c(1,3) by (simp add: addr_bits_def)
  have e: "ipval (IP q) div 2 ^ host_bits p = ipval (IP p) div 2 ^ host_bits p"
    using div_coarser [OF c(4) h] c(2) by simp
  show ?thesis
  proof (cases "prefix_Len p = prefix_Len q")
    case True
    then have "host_bits p = host_bits q"
      using prefix_mask(3) [OF assms(1)] prefix_mask(3) [OF assms(2)] c(1,3) by (simp add: addr_bits_def)
    then show ?thesis using prefix_eqI [OF assms(1,2)] c True by simp
  next
    case False
    then show ?thesis
      using Contains_iff [OF assms(1,2)] assms(5) c(1,3) e div_coarser [OF last_div h] by simp
  qed
qed

lemma prefix_Overlaps_share:
  assumes "prefix_ok p" "prefix_ok q"
  shows "prefix_Overlaps p q \<longleftrightarrow> (\<exists>ip. contains p ip \<and> contains q ip)"
proof
  have own: "contains p (IP q)" if "prefix_ok p" "prefix_ok q" "prefix_Contains p q" for p q
  proof -
    have "net_ok p" "valid_ip (IP q)" using that(1,2) by (auto simp: prefix_ok_def valid_ip_def)
    then show ?thesis using contains_div [of p "IP q"] Contains_iff [OF that(1,2)] that(3) by simp
  qed
  assume "prefix_Overlaps p q"
  then show "\<exists>ip. contains p ip \<and> contains q ip"
    using own [OF assms] own [OF assms(2,1)] prefix_contains_own [OF assms(1)] prefix_contains_own [OF assms(2)]
    by (auto simp: prefix_Overlaps_def)
next
  assume "\<exists>ip. contains p ip \<and> contains q ip"
  then obtain ip where "contains p ip" "contains q ip" by blast
  then show "prefix_Overlaps p q"
    using contains_share [OF assms, of ip] contains_share [OF assms(2,1), of ip]
      linear [of "prefix_Len p" "prefix_Len q"]
    by (auto simp: prefix_Overlaps_def)
qed

text \<open>C26: Two prefixes overlap, by the test of package \<open>ipaddr\<close>, exactly when some address lies in both.\<close>

theorem Overlaps_iff_share:
  assumes "prefix_ok p" "prefix_ok q"
  shows "prefix_Overlaps p q \<longleftrightarrow> (\<exists>ip. contains p ip \<and> contains q ip)"
  by (rule prefix_Overlaps_share [OF assms])

theorem Overlaps_iff_share_witness:
  "prefix_Overlaps \<lparr>IP = v4InV6Prefix @ [10, 0, 0, 0], Mask = CIDRMask 8 32\<rparr>
     \<lparr>IP = v4InV6Prefix @ [10, 1, 0, 0], Mask = CIDRMask 16 32\<rparr>"
proof -
  let ?p = "\<lparr>IP = v4InV6Prefix @ [10, 0, 0, 0], Mask = CIDRMask 8 32\<rparr>"
  let ?q = "\<lparr>IP = v4InV6Prefix @ [10, 1, 0, 0], Mask = CIDRMask 16 32\<rparr>"
  have "prefix_ok ?p" "prefix_ok ?q" "contains ?p [10, 1, 2, 3]" "contains ?q [10, 1, 2, 3]" by code_simp+
  then show ?thesis using Overlaps_iff_share [of ?p ?q] by blast
qed

end
