(* ===== verification/Config.thy ===== *)
theory Config
  imports Multi_Allocator Ipaddr_Overlap
begin

text \<open>
  The configuration (internal/config/config.go).  \<open>Parse\<close> is modelled from the decoded TOML file on; the
  TOML decoder (package toml) gives \<open>decoded\<close>: an error, or the raw file with the keys it did not know.
  \<open>net.ResolveTCPAddr\<close> (\<open>resolve\<close>) and \<open>time.ParseDuration\<close> (\<open>parse_duration\<close>) are parameters too.
\<close>

section \<open>Raw and checked configuration\<close>

record storage =
  storage_File :: string

record Storage =
  Storage_Memory :: bool
  Storage_File :: string

record raw_subnet =
  raw_Subnet :: string
  raw_Start :: string
  raw_End :: string
  raw_Reserved :: "string list"

record Debug =
  Debug_Address :: string
  Debug_Prometheus :: bool
  Debug_PProf :: bool

record raw_interface =
  rif_Name :: string
  rif_LeaseDuration :: string
  rif_Subnets :: "raw_subnet list"

record raw_file =
  file_Storage :: storage
  file_Interfaces :: "raw_interface list"
  file_Debug :: Debug

record Interface =
  if_Name :: string
  if_LeaseDuration :: duration
  if_Subnets :: "Subnet list"

record Config =
  cfg_Storage :: Storage
  cfg_Interfaces :: "Interface list"
  cfg_Debug :: Debug

datatype config_error =
    TomlError goerr
  | UnrecognizedKeys "string list"
  | NoInterfaces
  | BadDebugAddress goerr
  | EmptyInterfaceName
  | InvalidLeaseDuration goerr
  | InInterface string config_error
  | BadCIDR goerr
  | InSubnet string config_error
  | NotASubnetText
  | InvalidStart string
  | InvalidEnd string
  | InvalidReserved string
  | NotValid goerr
  | NoSubnetsConfigured
  | DuplicateSubnet string
  | SubnetsOverlap string string

section \<open>Parsing\<close>

definition parseStorage :: "storage \<Rightarrow> config_error + Storage" where
  "parseStorage s =
     (if storage_File s = '''' then Inr \<lparr>Storage_Memory = True, Storage_File = ''''\<rparr>
      else Inr \<lparr>Storage_Memory = False, Storage_File = storage_File s\<rparr>)"

text \<open>An optional address: not set when the text is empty.\<close>

definition optional_ip :: "string \<Rightarrow> config_error \<Rightarrow> config_error + ip option" where
  "optional_ip s e =
     (if s = '''' then Inr None
      else case ParseIP s of None \<Rightarrow> Inl e | Some ip \<Rightarrow> Inr (Some ip))"

fun parse_reserved :: "string list \<Rightarrow> config_error + ip list" where
  "parse_reserved [] = Inr []"
| "parse_reserved (r # rs) =
     (case ParseIP r of
        None \<Rightarrow> Inl (InvalidReserved r)
      | Some res \<Rightarrow> (case parse_reserved rs of Inl e \<Rightarrow> Inl e | Inr xs \<Rightarrow> Inr (res # xs)))"

definition parseSubnet :: "raw_subnet \<Rightarrow> config_error + Subnet" where
  "parseSubnet s =
     (case ParseCIDR (raw_Subnet s) of
        Inl e \<Rightarrow> Inl (BadCIDR e)
      | Inr (ip, sub) \<Rightarrow>
          let errorf = InSubnet (raw_Subnet s)
          in if \<not> ip_equal ip (IP sub) then Inl (errorf NotASubnetText)
             else case optional_ip (raw_Start s) (errorf (InvalidStart (raw_Start s))) of
               Inl e \<Rightarrow> Inl e
             | Inr start \<Rightarrow>
                 (case optional_ip (raw_End s) (errorf (InvalidEnd (raw_End s))) of
                    Inl e \<Rightarrow> Inl e
                  | Inr end \<Rightarrow>
                      (case parse_reserved (raw_Reserved s) of
                         Inl e \<Rightarrow> Inl (errorf e)
                       | Inr reserved \<Rightarrow>
                           (let subnet = \<lparr>Subnet_Subnet = sub, Subnet_Start = start, Subnet_End = end,
                                          Subnet_Reserved = reserved\<rparr>
                            in case Validate subnet of
                                 Inl e \<Rightarrow> Inl (errorf (NotValid e))
                               | Inr _ \<Rightarrow> Inr subnet))))"

fun check_duplicates :: "string set \<Rightarrow> Subnet list \<Rightarrow> config_error + unit" where
  "check_duplicates seen [] = Inr ()"
| "check_duplicates seen (s # ss) =
     (let str = ipnet_String (Subnet_Subnet s)
      in if str \<in> seen then Inl (DuplicateSubnet str) else check_duplicates (insert str seen) ss)"

text \<open>The two loops over the pairs of subnets.\<close>

fun check_against :: "Subnet \<Rightarrow> Subnet list \<Rightarrow> config_error + unit" where
  "check_against s1 [] = Inr ()"
| "check_against s1 (s2 # ss) =
     (let p1 = NewPrefix (Subnet_Subnet s1); p2 = NewPrefix (Subnet_Subnet s2)
      in if \<not> prefix_Equal p1 p2 \<and> prefix_Overlaps p1 p2 then 
           Inl (SubnetsOverlap (ipnet_String (Subnet_Subnet s1)) (ipnet_String (Subnet_Subnet s2)))
         else check_against s1 ss)"

fun check_overlaps :: "Subnet list \<Rightarrow> Subnet list \<Rightarrow> config_error + unit" where
  "check_overlaps [] subs = Inr ()"
| "check_overlaps (s1 # ss) subs =
     (case check_against s1 subs of Inl e \<Rightarrow> Inl e | Inr _ \<Rightarrow> check_overlaps ss subs)"

definition checkSubnets :: "Subnet list \<Rightarrow> config_error + unit" where
  "checkSubnets subs =
     (if subs = [] then Inl NoSubnetsConfigured
      else case check_duplicates {} subs of
             Inl e \<Rightarrow> Inl e
           | Inr _ \<Rightarrow> check_overlaps subs subs)"

text \<open>The loop over the subnets of an interface, with the errors placed by \<open>handle\<close>.\<close>

fun parse_subnets :: "(config_error \<Rightarrow> config_error) \<Rightarrow> raw_subnet list \<Rightarrow> config_error + Subnet list" where
  "parse_subnets handle [] = Inr []"
| "parse_subnets handle (s # ss) =
     (case parseSubnet s of
        Inl e \<Rightarrow> Inl (handle e)
      | Inr sub \<Rightarrow> (case parse_subnets handle ss of Inl e \<Rightarrow> Inl e | Inr subs \<Rightarrow> Inr (sub # subs)))"

definition Hour :: duration where
  "Hour = 3600 * Second"

definition lease_duration :: "(string \<Rightarrow> goerr + duration) \<Rightarrow> string \<Rightarrow> config_error + duration" where
  "lease_duration parse_duration s =
     (if s = '''' then Inr Hour
      else case parse_duration s of Inl e \<Rightarrow> Inl (InvalidLeaseDuration e) | Inr d \<Rightarrow> Inr d)"

fun parse_interfaces :: "(string \<Rightarrow> goerr + duration) \<Rightarrow> raw_interface list \<Rightarrow> config_error + Interface list" where
  "parse_interfaces parse_duration [] = Inr []"
| "parse_interfaces parse_duration (ifi # ifis) =
     (if rif_Name ifi = '''' then Inl EmptyInterfaceName
      else let handle = InInterface (rif_Name ifi)
           in case lease_duration parse_duration (rif_LeaseDuration ifi) of
                Inl e \<Rightarrow> Inl e
              | Inr dur \<Rightarrow>
                  (case parse_subnets handle (rif_Subnets ifi) of
                     Inl e \<Rightarrow> Inl e
                   | Inr subs \<Rightarrow>
                       (case checkSubnets subs of
                          Inl e \<Rightarrow> Inl (handle e)
                        | Inr _ \<Rightarrow>
                            (case parse_interfaces parse_duration ifis of
                               Inl e \<Rightarrow> Inl e
                             | Inr rest \<Rightarrow> Inr (\<lparr>if_Name = rif_Name ifi, if_LeaseDuration = dur,
                                                if_Subnets = subs\<rparr> # rest)))))"

definition no_debug :: Debug where
  "no_debug = \<lparr>Debug_Address = '''', Debug_Prometheus = False, Debug_PProf = False\<rparr>"

definition parse_debug :: "(string \<Rightarrow> goerr + unit) \<Rightarrow> Debug \<Rightarrow> config_error + Debug" where
  "parse_debug resolve d =
     (if Debug_Address d = '''' then Inr no_debug
      else case resolve (Debug_Address d) of Inl e \<Rightarrow> Inl (BadDebugAddress e) | Inr _ \<Rightarrow> Inr d)"

definition Parse :: "(string \<Rightarrow> goerr + unit) \<Rightarrow> (string \<Rightarrow> goerr + duration) \<Rightarrow> goerr + raw_file \<times> string list \<Rightarrow>
    config_error + Config" where
  "Parse resolve parse_duration decoded =
     (case decoded of
        Inl e \<Rightarrow> Inl (TomlError e)
      | Inr (f, undecoded) \<Rightarrow>
          if undecoded \<noteq> [] then Inl (UnrecognizedKeys undecoded)
          else if file_Interfaces f = [] then Inl NoInterfaces
          else case parse_debug resolve (file_Debug f) of
            Inl e \<Rightarrow> Inl e
          | Inr dbg \<Rightarrow>
              (case parseStorage (file_Storage f) of
                 Inl e \<Rightarrow> Inl e
               | Inr st \<Rightarrow>
                   (case parse_interfaces parse_duration (file_Interfaces f) of
                      Inl e \<Rightarrow> Inl e
                    | Inr ifis \<Rightarrow> Inr \<lparr>cfg_Storage = st, cfg_Interfaces = ifis, cfg_Debug = dbg\<rparr>)))"

section \<open>What the parsers of addresses return\<close>

lemma v4_loop_length: "v4_loop k first acc s = Some r \<Longrightarrow> length r = length acc + k"
  by (induction k first acc s rule: v4_loop.induct) (auto split: if_splits option.splits prod.splits)

lemma parseIPv4_form: "parseIPv4 s = Some ip \<Longrightarrow> \<exists>x. ip = v4InV6Prefix @ x \<and> length x = 4"
  using v4_loop_length by (fastforce simp: parseIPv4_def)

lemma v6_loop_length:
  "v6_loop k acc ell s = Some (acc', ell', r) \<Longrightarrow> length acc + 2 * k \<le> 16 \<Longrightarrow> length acc' \<le> 16"
proof (induction k acc ell s rule: v6_loop.induct)
  case (2 k acc ell s)
  then show ?case
    by (auto split: option.splits if_splits list.splits simp: Let_def dest!: parseIPv4_form)
qed simp

lemma parseIPv6_length: "parseIPv6 s = Some ip \<Longrightarrow> length ip = 16"
proof -
  have fin: "v6_finish acc ell r = Some ip \<Longrightarrow> length acc \<le> 16 \<Longrightarrow> length ip = 16" for acc ell r
    by (auto simp: v6_finish_def min_def split: if_splits)
  assume "parseIPv6 s = Some ip"
  then show ?thesis
    using v6_loop_length [of 8 "[]"] fin by (fastforce simp: parseIPv6_def split: if_splits option.splits)
qed

lemma ParseIP_length: "ParseIP s = Some ip \<Longrightarrow> length ip = 16"
proof -
  have "ParseIP_scan s cs = Some ip \<Longrightarrow> length ip = 16" for cs
    by (induction s cs rule: ParseIP_scan.induct) (auto split: if_splits dest: parseIPv4_form parseIPv6_length)
  then show "ParseIP s = Some ip \<Longrightarrow> length ip = 16" by (simp add: ParseIP_def)
qed

text \<open>The networks \<open>ParseCIDR\<close> returns, but for the IPv4-mapped ones written with an IPv6 prefix length,
  whose mask has 16 bytes.\<close>

definition plain_mask :: "ipnet \<Rightarrow> bool" where
  "plain_mask n \<longleftrightarrow> is4 (IP n) \<longrightarrow> length (Mask n) = 4"

lemma masked_net:
  assumes "length x = l" "k \<le> 8 * l" "n = \<lparr>IP = bytes_and x (cidr_bytes l k), Mask = cidr_bytes l k\<rparr>"
    "is4 (IP n) \<and> l = 4 \<or> \<not> is4 (IP n) \<and> l = 16"
  shows "net_ok n \<and> ipval (IP n) = net_base n"
proof -
  have len: "length (IP n) = l" using assms(1,3) by simp
  have ones: "mask_ones (Mask n) = k" using mask_ones_cidr [OF assms(2)] assms(3) by simp
  have bits: "addr_bits (IP n) = 8 * l" using assms(4) by (auto simp: addr_bits_def)
  have ok: "net_ok n"
    using assms(2-4) len ones bits by (auto simp: net_ok_def valid_ip_def CIDRMask_def)
  have h: "host_bits n = 8 * l - k" using ones bits by (simp add: host_bits_def)
  let ?d = "(2 :: nat) ^ host_bits n"
  have b: "be_nat (IP n) = be_nat x div ?d * ?d"
    using be_nat_bytes_and_cidr [OF assms(1,2)] assms(3) h by simp
  have "ipval (IP n) = (if l = 4 then mapped_base else 0) + be_nat (IP n)"
    using assms(4) len contains_form(2) [of "IP n"]
    by (cases "IP n" rule: to4_cases) (auto simp: valid_ip_def contains_form_def is4_def)
  moreover have "?d dvd (if l = 4 then mapped_base else 0)"
    using mapped_base_dvd [of "host_bits n"] h by auto
  ultimately have "?d dvd ipval (IP n)" using b by (metis dvd_add dvd_triv_right)
  then show ?thesis using ok by (simp add: net_base_def)
qed

lemma ParseCIDR_net:
  assumes "ParseCIDR s = Inr (ip, n)" "plain_mask n"
  shows "net_ok n \<and> ipval (IP n) = net_base n"
proof -
  let ?addr = "takeWhile (\<lambda>c. c \<noteq> CHR ''/'') s"
  show ?thesis
  proof (cases "parseIPv4 ?addr")
    case (Some a)
    then obtain x where x: "a = v4InV6Prefix @ x" "length x = 4" using parseIPv4_form by blast
    obtain k where k: "k \<le> 32" "n = \<lparr>IP = ip_mask a (CIDRMask k 32), Mask = CIDRMask k 32\<rparr>"
      using assms(1) Some by (auto simp: ParseCIDR_def Let_def not_less split: if_splits option.splits)
    have "ip_mask a (cidr_bytes 4 k) = bytes_and x (cidr_bytes 4 k)"
      using x by (simp add: ip_mask_def Let_def)
    then have n: "n = \<lparr>IP = bytes_and x (cidr_bytes 4 k), Mask = cidr_bytes 4 k\<rparr>"
      using k by (simp add: CIDRMask_32)
    have "is4 (IP n)" using x n by (simp add: is4_def to4_def)
    then show ?thesis using masked_net [OF x(2) _ n] k(1) by simp
  next
    case None
    then obtain a k where a: "parseIPv6 ?addr = Some a" "k \<le> 128" "n = \<lparr>IP = ip_mask a (CIDRMask k 128), Mask = CIDRMask k 128\<rparr>"
      using assms(1) by (auto simp: ParseCIDR_def Let_def not_less split: if_splits option.splits)
    have l: "length a = 16" by (rule parseIPv6_length [OF a(1)])
    then have n: "n = \<lparr>IP = bytes_and a (cidr_bytes 16 k), Mask = cidr_bytes 16 k\<rparr>"
      using a by (simp add: CIDRMask_128 ip_mask_def Let_def)
    have "\<not> is4 (IP n)" using assms(2) n by (auto simp: plain_mask_def)
    then show ?thesis using masked_net [OF l _ n] a(2) by simp
  qed
qed

section \<open>What the checks establish\<close>

lemma parseSubnet_parts:
  assumes "parseSubnet s = Inr x"
  shows "Validate x = Inr ()" "\<exists>ip. ParseCIDR (raw_Subnet s) = Inr (ip, Subnet_Subnet x)"
    "\<forall>a. Subnet_Start x = Some a \<longrightarrow> ParseIP (raw_Start s) = Some a"
    "\<forall>b. Subnet_End x = Some b \<longrightarrow> ParseIP (raw_End s) = Some b"
    "length (Subnet_Reserved x) = length (raw_Reserved s)"
proof -
  have res: "parse_reserved rs = Inr xs \<Longrightarrow> length xs = length rs" for rs xs
    by (induction rs arbitrary: xs) (auto split: option.splits sum.splits)
  have opt: "optional_ip t e = Inr (Some a) \<Longrightarrow> ParseIP t = Some a" for t e a
    by (auto simp: optional_ip_def split: if_splits option.splits)
  obtain ip sub start "end" reserved where h: "ParseCIDR (raw_Subnet s) = Inr (ip, sub)"
    "optional_ip (raw_Start s) (InSubnet (raw_Subnet s) (InvalidStart (raw_Start s))) = Inr start"
    "optional_ip (raw_End s) (InSubnet (raw_Subnet s) (InvalidEnd (raw_End s))) = Inr end"
    "parse_reserved (raw_Reserved s) = Inr reserved"
    "x = \<lparr>Subnet_Subnet = sub, Subnet_Start = start, Subnet_End = end, Subnet_Reserved = reserved\<rparr>"
    "Validate x = Inr ()"
    using assms by (auto simp: parseSubnet_def Let_def split: sum.splits prod.splits if_splits)
  show "Validate x = Inr ()" "\<exists>ip. ParseCIDR (raw_Subnet s) = Inr (ip, Subnet_Subnet x)"
    "\<forall>a. Subnet_Start x = Some a \<longrightarrow> ParseIP (raw_Start s) = Some a"
    "\<forall>b. Subnet_End x = Some b \<longrightarrow> ParseIP (raw_End s) = Some b"
    "length (Subnet_Reserved x) = length (raw_Reserved s)"
    using h opt res by auto
qed

lemma base_prefix: "base_net n \<Longrightarrow> prefix_ok (NewPrefix n)"
  using NewPrefix_same [of n] by (simp add: base_net_def prefix_ok_def)

lemma check_duplicates_iff:
  "check_duplicates seen ss = Inr () \<longleftrightarrow>
    distinct (map (\<lambda>s. ipnet_String (Subnet_Subnet s)) ss) \<and> seen \<inter> (\<lambda>s. ipnet_String (Subnet_Subnet s)) ` set ss = {}"
  by (induction seen ss rule: check_duplicates.induct) (auto simp: Let_def)

lemma check_against_iff:
  "check_against s1 ss = Inr () \<longleftrightarrow>
    (\<forall>s2\<in>set ss. \<not> (NewPrefix (Subnet_Subnet s1) \<noteq> NewPrefix (Subnet_Subnet s2) \<and>
      prefix_Overlaps (NewPrefix (Subnet_Subnet s1)) (NewPrefix (Subnet_Subnet s2))))"
  by (induction ss) (auto simp: Let_def)

lemma check_overlaps_iff:
  "check_overlaps ss subs = Inr () \<longleftrightarrow> (\<forall>s1\<in>set ss. check_against s1 subs = Inr ())"
  by (induction ss) (auto split: sum.splits)

lemma overlap_share:
  assumes "base_net m" "base_net n"
  shows "prefix_Overlaps (NewPrefix m) (NewPrefix n) \<longleftrightarrow> \<not> disjoint_nets m n"
    and "NewPrefix m = NewPrefix n \<Longrightarrow> ipnet_String m = ipnet_String n"
    and "ipnet_String m = ipnet_String n \<Longrightarrow> \<not> disjoint_nets m n"
proof -
  have ok: "net_ok m" "net_ok n" using assms by (auto simp: base_net_def)
  note c = NewPrefix_same(7) [OF ok(1)] NewPrefix_same(7) [OF ok(2)]
    and s = NewPrefix_same(8) [OF ok(1)] NewPrefix_same(8) [OF ok(2)]
  show "prefix_Overlaps (NewPrefix m) (NewPrefix n) \<longleftrightarrow> \<not> disjoint_nets m n"
    unfolding prefix_Overlaps_share [OF base_prefix [OF assms(1)] base_prefix [OF assms(2)]] c
    by (auto simp: disjoint_nets_def)
  show "NewPrefix m = NewPrefix n \<Longrightarrow> ipnet_String m = ipnet_String n" using s by metis
  assume e: "ipnet_String m = ipnet_String n"
  have "contains m (IP (NewPrefix m))" using prefix_contains_own [OF base_prefix [OF assms(1)]] c by simp
  moreover have "contains n (IP (NewPrefix m))"
    using same_text_contains(1) [OF ok e] calculation by simp
  ultimately show "\<not> disjoint_nets m n" by (auto simp: disjoint_nets_def)
qed

lemma sorted_disjoint_iff:
  assumes "\<forall>s\<in>set ss. base_net (Subnet_Subnet s)"
  shows "sorted_wrt disjoint_nets (map Subnet_Subnet ss) \<longleftrightarrow>
    distinct (map (\<lambda>s. ipnet_String (Subnet_Subnet s)) ss) \<and>
    (\<forall>s1\<in>set ss. \<forall>s2\<in>set ss. NewPrefix (Subnet_Subnet s1) = NewPrefix (Subnet_Subnet s2) \<or>
      disjoint_nets (Subnet_Subnet s1) (Subnet_Subnet s2))"
  using assms
proof (induction ss)
  case (Cons a ss)
  let ?n = Subnet_Subnet
  have sym: "disjoint_nets p q = disjoint_nets q p" for p q by (auto simp: disjoint_nets_def)
  have eq: "NewPrefix (?n a) = NewPrefix (?n s) \<longrightarrow> ipnet_String (?n a) = ipnet_String (?n s)"
    "ipnet_String (?n a) = ipnet_String (?n s) \<longrightarrow> \<not> disjoint_nets (?n a) (?n s)" if "s \<in> set ss" for s
    using overlap_share(2,3) [of "?n a" "?n s"] Cons.prems that by auto
  show ?case using Cons.IH Cons.prems eq sym by (auto; metis)
qed simp

lemma checkSubnets_disjoint:
  assumes "\<forall>s\<in>set ss. base_net (Subnet_Subnet s)"
  shows "checkSubnets ss = Inr () \<longleftrightarrow> ss \<noteq> [] \<and> sorted_wrt disjoint_nets (map Subnet_Subnet ss)"
proof -
  have "prefix_Overlaps (NewPrefix (Subnet_Subnet s1)) (NewPrefix (Subnet_Subnet s2)) \<longleftrightarrow>
      \<not> disjoint_nets (Subnet_Subnet s1) (Subnet_Subnet s2)" if "s1 \<in> set ss" "s2 \<in> set ss" for s1 s2
    using overlap_share(1) assms that by blast
  moreover have "checkSubnets ss = Inr () \<longleftrightarrow> ss \<noteq> [] \<and>
      check_duplicates {} ss = Inr () \<and> check_overlaps ss ss = Inr ()"
    by (auto simp: checkSubnets_def split: sum.splits)
  ultimately show ?thesis
    unfolding sorted_disjoint_iff [OF assms] check_duplicates_iff check_overlaps_iff check_against_iff by auto
qed

text \<open>C25: \<open>checkSubnets\<close> accepts a list of subnets exactly when there is one and no two of them have an
  address in common.\<close>

theorem checkSubnets_iff:
  assumes "\<forall>s\<in>set ss. base_net (Subnet_Subnet s)"
  shows "checkSubnets ss = Inr () \<longleftrightarrow> ss \<noteq> [] \<and> sorted_wrt disjoint_nets (map Subnet_Subnet ss)"
  by (rule checkSubnets_disjoint [OF assms])

definition plain_subnet :: "ip \<Rightarrow> nat \<Rightarrow> Subnet" where
  "plain_subnet a k = \<lparr>Subnet_Subnet = \<lparr>IP = a, Mask = CIDRMask k 32\<rparr>, Subnet_Start = None, Subnet_End = None,
     Subnet_Reserved = []\<rparr>"

lemma plain_base:
  "base_net (Subnet_Subnet (plain_subnet [10,0,0,0] 8))" "base_net (Subnet_Subnet (plain_subnet [10,0,1,0] 24))"
  "base_net (Subnet_Subnet (plain_subnet [10,0,2,0] 24))"
  by code_simp+

lemma plain_disjoint: "disjoint_nets (Subnet_Subnet (plain_subnet [10,0,1,0] 24)) (Subnet_Subnet (plain_subnet [10,0,2,0] 24))"
proof -
  have "\<not> prefix_Overlaps (NewPrefix (Subnet_Subnet (plain_subnet [10,0,1,0] 24)))
    (NewPrefix (Subnet_Subnet (plain_subnet [10,0,2,0] 24)))" by code_simp
  then show ?thesis using overlap_share(1) [OF plain_base(2,3)] by simp
qed

theorem checkSubnets_iff_witness:
  "checkSubnets [plain_subnet [10,0,1,0] 24, plain_subnet [10,0,2,0] 24] = Inr () \<and>
   \<not> sorted_wrt disjoint_nets (map Subnet_Subnet [plain_subnet [10,0,0,0] 8, plain_subnet [10,0,1,0] 24])"
proof -
  have "checkSubnets [plain_subnet [10,0,0,0] 8, plain_subnet [10,0,1,0] 24] \<noteq> Inr ()" by code_simp
  then show ?thesis
    using checkSubnets_iff [of "[plain_subnet [10,0,1,0] 24, plain_subnet [10,0,2,0] 24]"]
      checkSubnets_iff [of "[plain_subnet [10,0,0,0] 8, plain_subnet [10,0,1,0] 24]"] plain_base plain_disjoint
    by simp
qed

section \<open>A configuration that is accepted\<close>

lemma parse_subnets_set:
  "parse_subnets handle raws = Inr ss \<Longrightarrow> x \<in> set ss \<Longrightarrow> \<exists>r\<in>set raws. parseSubnet r = Inr x"
  by (induction raws arbitrary: ss) (auto split: sum.splits)

lemma parse_interfaces_set:
  assumes "parse_interfaces pd raws = Inr ifis" "i \<in> set ifis"
  shows "\<exists>raws handle. parse_subnets handle raws = Inr (if_Subnets i) \<and> checkSubnets (if_Subnets i) = Inr ()"
  using assms
proof (induction raws arbitrary: ifis)
  case (Cons r raws)
  then obtain dur subs rest where h: "parse_subnets (InInterface (rif_Name r)) (rif_Subnets r) = Inr subs"
    "checkSubnets subs = Inr ()" "parse_interfaces pd raws = Inr rest"
    "ifis = \<lparr>if_Name = rif_Name r, if_LeaseDuration = dur, if_Subnets = subs\<rparr> # rest"
    by (auto simp: Let_def split: if_splits sum.splits)
  show ?case
  proof (cases "i \<in> set rest")
    case True
    then show ?thesis using Cons.IH [OF h(3)] by blast
  next
    case False
    then have "if_Subnets i = subs" using Cons.prems(2) h(4) by auto
    then show ?thesis using h(1,2) by blast
  qed
qed simp

lemma Parse_interface:
  assumes "Parse resolve pd decoded = Inr cfg" "i \<in> set (cfg_Interfaces cfg)"
  shows "checkSubnets (if_Subnets i) = Inr ()"
    "x \<in> set (if_Subnets i) \<Longrightarrow> \<exists>r. parseSubnet r = Inr x"
proof -
  obtain f :: raw_file where "parse_interfaces pd (file_Interfaces f) = Inr (cfg_Interfaces cfg)"
    using assms(1) by (auto simp: Parse_def split: sum.splits if_splits prod.splits)
  then obtain raws handle where "parse_subnets handle raws = Inr (if_Subnets i)"
    "checkSubnets (if_Subnets i) = Inr ()" using parse_interfaces_set assms(2) by blast
  then show "checkSubnets (if_Subnets i) = Inr ()"
    "x \<in> set (if_Subnets i) \<Longrightarrow> \<exists>r. parseSubnet r = Inr x"
    using parse_subnets_set by blast+
qed

lemma parseSubnet_base:
  assumes "parseSubnet r = Inr x" "plain_mask (Subnet_Subnet x)"
  shows "base_net (Subnet_Subnet x)"
  using parseSubnet_parts(2) [OF assms(1)] ParseCIDR_net assms(2) by (auto simp: base_net_def)

lemma parsed_config_ok:
  assumes "Parse resolve pd decoded = Inr cfg" "i \<in> set (cfg_Interfaces cfg)"
    "\<forall>x\<in>set (if_Subnets i). plain_mask (Subnet_Subnet x) \<and> family_ok (NewPrefix (Subnet_Subnet x))"
  shows "config_ok (if_Subnets i)"
proof -
  have parsed: "\<exists>r. parseSubnet r = Inr x" if "x \<in> set (if_Subnets i)" for x
    by (rule Parse_interface(2) [OF assms(1,2) that])
  have base: "base_net (Subnet_Subnet x)" if "x \<in> set (if_Subnets i)" for x
    using parsed [OF that] parseSubnet_base assms(3) that by blast
  have valid: "Validate x = Inr ()" if "x \<in> set (if_Subnets i)" for x
    using parsed [OF that] parseSubnet_parts(1) by blast
  have "if_Subnets i \<noteq> [] \<and> sorted_wrt disjoint_nets (map Subnet_Subnet (if_Subnets i))"
    using checkSubnets_disjoint Parse_interface(1) [OF assms(1,2)] base by blast
  then show ?thesis
    unfolding config_ok_def subnet_ok_def using base valid assms(3) by (auto simp: base_net_def)
qed

text \<open>An IPv4 network, written as one, or an IPv6 network above the first /80, \<open>::/80\<close>, where the IPv4-mapped
  addresses are.\<close>

definition plain_network :: "ipnet \<Rightarrow> bool" where
  "plain_network n \<longleftrightarrow> length (Mask n) = 4 \<or> 2 ^ 48 \<le> ipval (IP n)"

lemma ParseCIDR_v4:
  assumes "ParseCIDR s = Inr (ip, n)" "length (Mask n) = 4"
  shows "is4 (IP n)"
proof (cases "parseIPv4 (takeWhile (\<lambda>c. c \<noteq> CHR ''/'') s)")
  case (Some a)
  then obtain x where x: "a = v4InV6Prefix @ x" "length x = 4" using parseIPv4_form by blast
  obtain k where "k \<le> 32" "n = \<lparr>IP = ip_mask a (CIDRMask k 32), Mask = CIDRMask k 32\<rparr>"
    using assms(1) Some by (auto simp: ParseCIDR_def Let_def not_less split: if_splits option.splits)
  moreover have "ip_mask a (cidr_bytes 4 k) = bytes_and x (cidr_bytes 4 k)" for k
    using x by (simp add: ip_mask_def Let_def)
  ultimately show ?thesis using x by (simp add: CIDRMask_32 is4_def to4_def)
next
  case None
  then obtain a k where "k \<le> 128" "n = \<lparr>IP = ip_mask a (CIDRMask k 128), Mask = CIDRMask k 128\<rparr>"
    using assms(1) by (auto simp: ParseCIDR_def Let_def not_less split: if_splits option.splits)
  then show ?thesis using assms(2) by (simp add: CIDRMask_128)
qed

lemma plain_network_ok:
  assumes "parseSubnet r = Inr x" "plain_network (Subnet_Subnet x)"
  shows "plain_mask (Subnet_Subnet x) \<and> family_ok (NewPrefix (Subnet_Subnet x))"
proof -
  let ?n = "Subnet_Subnet x"
  obtain ip where p: "ParseCIDR (raw_Subnet r) = Inr (ip, ?n)" using parseSubnet_parts(2) [OF assms(1)] by blast
  have big: "mapped_base + 2 ^ 32 = 2 ^ 48" by (simp add: mapped_base_def)
  have "plain_mask ?n"
  proof (cases "length (Mask ?n) = 4")
    case False
    then have "2 ^ 48 \<le> ipval (IP ?n)" using assms(2) by (simp add: plain_network_def)
    have "\<not> is4 (IP ?n)"
    proof
      assume "is4 (IP ?n)"
      then obtain y where "length y = 4" "ipval (IP ?n) = mapped_base + be_nat y"
        using to4_Some_ipval [of "IP ?n"] by (auto simp: is4_def)
      then show False using be_nat_less [of y] big \<open>2 ^ 48 \<le> ipval (IP ?n)\<close> by simp
    qed
    then show ?thesis by (simp add: plain_mask_def)
  qed (simp add: plain_mask_def)
  then have base: "base_net ?n" by (rule parseSubnet_base [OF assms(1)])
  then have same: "net_base (NewPrefix ?n) = ipval (IP ?n)" "is4 (IP (NewPrefix ?n)) = is4 (IP ?n)"
    using NewPrefix_same [of ?n] by (simp_all add: base_net_def)
  have "family_ok (NewPrefix ?n)"
    using assms(2) ParseCIDR_v4 [OF p] big unfolding family_ok_def same plain_network_def by auto
  then show ?thesis using \<open>plain_mask ?n\<close> by blast
qed

text \<open>C24: When every subnet of an interface of a file \<open>Parse\<close> accepts is an IPv4 network, written as one, or an IPv6
  network above the first /80, the subnets satisfy what the allocator and the server need of their configuration:
  there is at least one, they are well-formed network addresses accepted by \<open>Validate\<close>, and no two have an address
  in common.  (\<open>Parse\<close> also accepts networks like \<open>::/0\<close>, or \<open>::ffff:10.0.0.0/104\<close>, whose addresses change
  family; nothing is claimed of those.)\<close>

theorem Parse_config_ok:
  assumes "Parse resolve pd decoded = Inr cfg" "i \<in> set (cfg_Interfaces cfg)"
    "\<forall>x\<in>set (if_Subnets i). plain_network (Subnet_Subnet x)"
  shows "config_ok (if_Subnets i)"
proof (rule parsed_config_ok [OF assms(1,2)], rule ballI)
  fix x assume x: "x \<in> set (if_Subnets i)"
  then obtain r where "parseSubnet r = Inr x" using Parse_interface(2) [OF assms(1,2)] by blast
  then show "plain_mask (Subnet_Subnet x) \<and> family_ok (NewPrefix (Subnet_Subnet x))"
    using plain_network_ok assms(3) x by blast
qed

text \<open>The default configuration of the program.\<close>

definition default_file :: raw_file where
  "default_file = \<lparr>file_Storage = \<lparr>storage_File = ''/var/lib/wgipamd''\<rparr>,
     file_Interfaces = [\<lparr>rif_Name = ''wg0'', rif_LeaseDuration = ''1h'', rif_Subnets =
       [\<lparr>raw_Subnet = ''192.0.2.0/24'', raw_Start = ''192.0.2.10'', raw_End = ''192.0.2.255'',
         raw_Reserved = [''192.0.2.255'']\<rparr>,
        \<lparr>raw_Subnet = ''2001:db8::/64'', raw_Start = [], raw_End = [],
         raw_Reserved = [''2001:db8::'', ''2001:db8::1'']\<rparr>]\<rparr>],
     file_Debug = \<lparr>Debug_Address = ''localhost:9475'', Debug_Prometheus = True, Debug_PProf = False\<rparr>\<rparr>"

definition default_Config :: "config_error + Config" where
  "default_Config = Parse (\<lambda>_. Inr ()) (\<lambda>_. Inr Hour) (Inr (default_file, []))"

definition default_subnets :: "Subnet list" where
  "default_subnets = (case default_Config of Inl _ \<Rightarrow> []
     | Inr cfg \<Rightarrow> (case cfg_Interfaces cfg of [] \<Rightarrow> [] | i # _ \<Rightarrow> if_Subnets i))"

lemma default_accepted:
  "default_Config = Inr (projr default_Config)"
  "cfg_Interfaces (projr default_Config) = [hd (cfg_Interfaces (projr default_Config))]"
  "if_Subnets (hd (cfg_Interfaces (projr default_Config))) = default_subnets"
  "list_all (\<lambda>x. plain_network (Subnet_Subnet x)) default_subnets"
  "list_all (\<lambda>x. plain_mask (Subnet_Subnet x) \<and> family_ok (NewPrefix (Subnet_Subnet x))) default_subnets"
  by code_simp+

theorem Parse_config_ok_witness: "config_ok default_subnets"
proof -
  let ?i = "hd (cfg_Interfaces (projr default_Config))"
  have i: "?i \<in> set (cfg_Interfaces (projr default_Config))" by (subst (2) default_accepted(2)) simp
  have p: "Parse (\<lambda>_. Inr ()) (\<lambda>_. Inr Hour) (Inr (default_file, [])) = Inr (projr default_Config)"
    using default_accepted(1) by (metis default_Config_def)
  have "\<forall>x\<in>set (if_Subnets ?i). plain_network (Subnet_Subnet x)"
    using default_accepted(4) unfolding default_accepted(3) list_all_iff .
  then have "config_ok (if_Subnets ?i)" by (rule Parse_config_ok [OF p i])
  then show ?thesis unfolding default_accepted(3) .
qed

end
