(* ===== verification/Handler.thy ===== *)
theory Handler
  imports Multi_Allocator
begin

text \<open>
  The request handler of handler.go: it looks up the lease of a client, renews a live one, replaces
  an expired one, and makes a new one from the allocator.  The lease store and the allocator are
  interfaces (records of operations on a store state \<open>'s\<close> and an allocator state \<open>'a\<close>).  The hash that
  makes a key of a client address is the parameter \<open>strKey\<close> (an xxh3 hash); \<open>now\<close> is the clock when
  the request is looked at and \<open>now'\<close> when a lease is stamped.
\<close>

section \<open>The handler\<close>

record ('a, 's) IPAllocator =
  al_Allocate :: "Family \<Rightarrow> 'a \<Rightarrow> 's \<Rightarrow> ((fault + ipnet list option) \<times> 'a \<times> 's) option"
  al_Free :: "ipnet \<Rightarrow> 'a \<Rightarrow> 's \<Rightarrow> (fault + unit) \<times> 's"

record ('a, 's) Handler =
  h_Leases :: "'s LeaseStore"
  h_IPs :: "('a, 's) IPAllocator"
  h_LeaseDuration :: duration

record RequestIP =
  req_IPs :: "ipnet list"
  req_LeaseStart :: time
  req_LeaseTime :: duration

type_synonym ('a, 's) response = "((fault + RequestIP) \<times> 'a \<times> 's) option"

definition zero_ip :: "ipnet \<Rightarrow> bool" where
  "zero_ip ip \<longleftrightarrow> ip_equal (IP ip) IPv4zero \<or> ip_equal (IP ip) IPv6zero"

text \<open>The families a new request asks for; any address that is not zero is refused.\<close>

fun request_families :: "ipnet list \<Rightarrow> Family \<Rightarrow> fault + Family" where
  "request_families [] family = Inr family"
| "request_families (ip # ips) family =
     (if \<not> zero_ip ip then Inl (Err IPUnavailable)
      else case ipFamily ip of
             Inl e \<Rightarrow> Inl e
           | Inr f \<Rightarrow> request_families ips (family OR f))"

definition newLease :: "('a, 's) Handler \<Rightarrow> (string \<Rightarrow> u64) \<Rightarrow> time \<Rightarrow> string \<Rightarrow> RequestIP \<Rightarrow> 'a \<Rightarrow> 's \<Rightarrow>
    ('a, 's) response" where
  "newLease h strKey now' src req a s =
     (case (if req_IPs req = [] then Inr DualStack else request_families (req_IPs req) 0) of
        Inl e \<Rightarrow> Some (Inl e, a, s)
      | Inr family \<Rightarrow>
          (case al_Allocate (h_IPs h) family a s of
             None \<Rightarrow> None
           | Some (Inl e, a', s') \<Rightarrow> Some (Inl e, a', s')
           | Some (Inr None, a', s') \<Rightarrow> Some (Inl (Err IPUnavailable), a', s')
           | Some (Inr (Some ips), a', s') \<Rightarrow>
               (let l = \<lparr>Lease_IPs = ips, Lease_Start = timeNow now', Lease_Length = h_LeaseDuration h\<rparr>
                in case ls_SaveLease (h_Leases h) (strKey src) l s' of
                     (Inl e, s'') \<Rightarrow> Some (Inl (Err e), a', s'')
                   | (Inr _, s'') \<Rightarrow>
                       Some (Inr \<lparr>req_IPs = ips, req_LeaseStart = Lease_Start l,
                                  req_LeaseTime = Lease_Length l\<rparr>, a', s''))))"

text \<open>What a client may ask for when it has a lease: zero addresses, and addresses of the lease.\<close>

definition renew_allowed :: "ipnet list \<Rightarrow> lease \<Rightarrow> bool" where
  "renew_allowed ips l \<longleftrightarrow>
     list_all (\<lambda>ip. zero_ip ip \<or> list_ex (\<lambda>lip. ip_equal (IP ip) (IP lip)) (Lease_IPs l)) ips"

definition renewLease :: "('a, 's) Handler \<Rightarrow> (string \<Rightarrow> u64) \<Rightarrow> time \<Rightarrow> string \<Rightarrow> RequestIP \<Rightarrow> lease \<Rightarrow>
    'a \<Rightarrow> 's \<Rightarrow> ('a, 's) response" where
  "renewLease h strKey now' src req l a s =
     (if \<not> renew_allowed (req_IPs req) l then Some (Inl (Err IPUnavailable), a, s)
      else let l' = l\<lparr>Lease_Start := timeNow now', Lease_Length := h_LeaseDuration h\<rparr>
           in case ls_SaveLease (h_Leases h) (strKey src) l' s of
                (Inl e, s') \<Rightarrow> Some (Inl (Err e), a, s')
              | (Inr _, s') \<Rightarrow>
                  Some (Inr \<lparr>req_IPs = Lease_IPs l', req_LeaseStart = Lease_Start l',
                             req_LeaseTime = Lease_Length l'\<rparr>, a, s'))"

text \<open>Giving back the addresses of an expired lease; a failure is only logged.\<close>

fun free_lease :: "('a, 's) Handler \<Rightarrow> ipnet list \<Rightarrow> 'a \<Rightarrow> 's \<Rightarrow> (fault + unit) \<times> 's" where
  "free_lease h [] a s = (Inr (), s)"
| "free_lease h (ip # ips) a s =
     (case al_Free (h_IPs h) ip a s of
        (Inl (Panic e), s') \<Rightarrow> (Inl (Panic e), s')
      | (_, s') \<Rightarrow> free_lease h ips a s')"

definition time_Since :: "time \<Rightarrow> time \<Rightarrow> duration" where
  "time_Since now t = now - t"

definition requestIP :: "('a, 's) Handler \<Rightarrow> (string \<Rightarrow> u64) \<Rightarrow> time \<Rightarrow> time \<Rightarrow> string \<Rightarrow> RequestIP \<Rightarrow> 'a \<Rightarrow> 's \<Rightarrow>
    ('a, 's) response" where
  "requestIP h strKey now now' src req a s =
     (case ls_Lease (h_Leases h) (strKey src) s of
        (Inl e, s') \<Rightarrow> Some (Inl (Err e), a, s')
      | (Inr None, s') \<Rightarrow> newLease h strKey now' src req a s'
      | (Inr (Some l), s') \<Rightarrow>
          if time_Since now (Lease_Start l + Lease_Length l) < 0 then renewLease h strKey now' src req l a s'
          else
            (case ls_DeleteLease (h_Leases h) (strKey src) s' of
               (_, s1) \<Rightarrow>
                 (case free_lease h (Lease_IPs l) a s1 of
                    (Inl e, s2) \<Rightarrow> Some (Inl e, a, s2)
                  | (Inr _, s2) \<Rightarrow> newLease h strKey now' src req a s2)))"

section \<open>Its metrics\<close>

record HandlerMetrics =
  RequestsTotal :: "string \<Rightarrow> nat"
  ErrorsTotal :: "string \<times> string \<Rightarrow> nat"

definition inc :: "'k \<Rightarrow> ('k \<Rightarrow> nat) \<Rightarrow> 'k \<Rightarrow> nat" where
  "inc k m = m(k := m k + 1)"

definition op_request_ip :: string where
  "op_request_ip = ''request_ip''"

fun error_type :: "goerr \<Rightarrow> string" where
  "error_type InvalidRequest = ''invalid_request''"
| "error_type UnsupportedProtocol = ''unsupported_protocol''"
| "error_type IPUnavailable = ''ip_unavailable''"
| "error_type (OtherWGError n m) = ''unknown''"
| "error_type _ = ''generic''"

definition count_request :: "HandlerMetrics option \<Rightarrow> HandlerMetrics option" where
  "count_request m = map_option (\<lambda>m. m\<lparr>RequestsTotal := inc op_request_ip (RequestsTotal m)\<rparr>) m"

definition count_error :: "goerr \<Rightarrow> HandlerMetrics option \<Rightarrow> HandlerMetrics option" where
  "count_error e m = map_option (\<lambda>m. m\<lparr>ErrorsTotal := inc (op_request_ip, error_type e) (ErrorsTotal m)\<rparr>) m"

definition Handler_RequestIP :: "('a, 's) Handler \<Rightarrow> (string \<Rightarrow> u64) \<Rightarrow> time \<Rightarrow> time \<Rightarrow> string \<Rightarrow> RequestIP \<Rightarrow>
    HandlerMetrics option \<Rightarrow> 'a \<Rightarrow> 's \<Rightarrow> ((fault + RequestIP) \<times> HandlerMetrics option \<times> 'a \<times> 's) option" where
  "Handler_RequestIP h strKey now now' src req m a s =
     (let m1 = count_request m
      in case requestIP h strKey now now' src req a s of
           None \<Rightarrow> None
         | Some (Inr res, a', s') \<Rightarrow> Some (Inr res, m1, a', s')
         | Some (Inl (Err e), a', s') \<Rightarrow> Some (Inl (Err e), count_error e m1, a', s')
         | Some (Inl (Panic e), a', s') \<Rightarrow> Some (Inl (Panic e), m1, a', s'))"

section \<open>The handler over an allocator for several subnets\<close>

definition multi_IPs :: "'s IPStore \<Rightarrow> (multiIPAllocator, 's) IPAllocator" where
  "multi_IPs st = \<lparr>al_Allocate = multi_Allocate st, al_Free = (\<lambda>ip a s. multi_Free st a ip s)\<rparr>"

definition multi_handler :: "'s LeaseStore \<Rightarrow> 's IPStore \<Rightarrow> duration \<Rightarrow> (multiIPAllocator, 's) Handler" where
  "multi_handler ls st d = \<lparr>h_Leases = ls, h_IPs = multi_IPs st, h_LeaseDuration = d\<rparr>"

lemma since_expired: "time_Since now (Lease_Start l + Lease_Length l) < 0 \<longleftrightarrow> \<not> Lease_Expired l now"
  by (auto simp: time_Since_def Expired_iff)

lemma zero_ip_valid: "zero_ip ip \<Longrightarrow> valid_ip (IP ip)"
  by (auto simp: zero_ip_def ip_equal_def IPv4zero_def IPv6zero_def valid_ip_def split: if_splits)

lemma ipFamily_valid: "valid_ip (IP ip) \<Longrightarrow> ipFamily ip = Inr (if is4 (IP ip) then IPv4 else IPv6)"
  using valid_ip_to16 [of "IP ip"] by (auto simp: ipFamily_def is4_def)

definition families_of :: "ipnet list \<Rightarrow> Family" where
  "families_of ips = (if \<exists>ip\<in>set ips. is4 (IP ip) then IPv4 else 0) OR
     (if \<exists>ip\<in>set ips. \<not> is4 (IP ip) then IPv6 else 0)"

lemma request_families_eq:
  "request_families ips f =
     (if \<forall>ip\<in>set ips. zero_ip ip then Inr (f OR families_of ips) else Inl (Err IPUnavailable))"
proof (induction ips arbitrary: f)
  case (Cons ip ips)
  have "(f OR k) OR families_of ips = f OR families_of (ip # ips)"
    if "k = (if is4 (IP ip) then IPv4 else IPv6)" for k
  proof -
    have "k OR families_of ips = families_of (ip # ips)"
      using that by (auto simp: families_of_def IPv4_def IPv6_def)
    then show ?thesis by (simp add: or.assoc)
  qed
  then show ?case
    using Cons.IH ipFamily_valid [OF zero_ip_valid, of ip] by auto
qed (simp add: families_of_def)

lemma families_of_cases:
  "ips \<noteq> [] \<Longrightarrow> families_of ips \<in> {IPv4, IPv6, DualStack}"
  by (auto simp: families_of_def DualStack_def neq_Nil_conv)

end
