(* ===== verification/Handler_Safety.thy ===== *)
theory Handler_Safety
  imports Handler
begin

text \<open>
  What the handler keeps, for any lease store and any address store with the contracts of
  \<open>Store_Interface\<close>: the addresses a store holds as allocated are the addresses of the leases, each of
  exactly one lease.
\<close>

section \<open>The invariant\<close>

definition allocators :: "multiIPAllocator \<Rightarrow> simpleIPAllocator set" where
  "allocators mia = (\<Union>f. set (mia_m mia f))"

definition nets :: "multiIPAllocator \<Rightarrow> ipnet set" where
  "nets mia = net_of ` allocators mia"

definition owned :: "ipnet \<Rightarrow> ipnet \<Rightarrow> bool" where
  "owned p ip \<longleftrightarrow> (\<exists>x. ip = alloc_addr p x \<and> net_base p \<le> x \<and> x \<le> net_last p)"

definition leased :: "(u64 \<Rightarrow> lease option) \<Rightarrow> ipnet set" where
  "leased m = {ip. \<exists>k l. m k = Some l \<and> ip \<in> set (Lease_IPs l)}"

definition lease_inv :: "ipnet set \<Rightarrow> alloc_view \<Rightarrow> (u64 \<Rightarrow> lease option) \<Rightarrow> bool" where
  "lease_inv N v m \<longleftrightarrow>
     (\<forall>p\<in>N. v (ipnet_String p) = Some (ipnet_String ` {ip \<in> leased m. contains p (IP ip)})) \<and>
     (\<forall>k l. m k = Some l \<longrightarrow> distinct (Lease_IPs l) \<and> Lease_IPs l \<noteq> [] \<and>
        (\<forall>ip\<in>set (Lease_IPs l). \<exists>p\<in>N. owned p ip)) \<and>
     (\<forall>k k' l l'. m k = Some l \<and> m k' = Some l' \<and> k \<noteq> k' \<longrightarrow> set (Lease_IPs l) \<inter> set (Lease_IPs l') = {})"

lemma leased_put: "leased (m(k := Some l)) = leased (m(k := None)) \<union> set (Lease_IPs l)"
  by (auto simp: leased_def)

lemma leased_split: "m k = Some l \<Longrightarrow> leased m = leased (m(k := None)) \<union> set (Lease_IPs l)"
  using leased_put [of m k l] by (simp add: fun_upd_idem)

text \<open>Networks fit to allocate from, no two of which share an address.\<close>

definition nets_ok :: "ipnet set \<Rightarrow> bool" where
  "nets_ok N \<longleftrightarrow> (\<forall>p\<in>N. prefix_ok p \<and> family_ok p) \<and>
     (\<forall>p\<in>N. \<forall>q\<in>N. (\<exists>ip. contains p ip \<and> contains q ip) \<longrightarrow> p = q)"

lemma owns_owned: "owns a ip \<longleftrightarrow> owned (net_of a) ip"
  by (simp add: owns_def owned_def)

lemma alloc_ok_net:
  assumes "alloc_ok a"
  shows "prefix_ok (net_of a)" "family_ok (net_of a)" "sia_f a = (if is4 (IP (net_of a)) then IPv4 else IPv6)"
  using assms by (auto simp: alloc_ok_def alloc_at_def alloc_static_def)

lemma nets_same: "same_nets mia mia' \<Longrightarrow> nets mia' = nets mia"
proof -
  assume "same_nets mia mia'"
  then have "map net_of (mia_m mia' f) = map net_of (mia_m mia f)" for f
    using list_all2_net_of by (auto simp: same_nets_def)
  then have "net_of ` set (mia_m mia' f) = net_of ` set (mia_m mia f)" for f
    by (metis list.set_map)
  then show ?thesis by (simp add: nets_def allocators_def image_UN)
qed

lemma multi_nets_ok:
  assumes "multi_ok mia" "nets_apart mia"
  shows "nets_ok (nets mia)"
  unfolding nets_ok_def
proof (intro conjI ballI impI)
  fix p assume "p \<in> nets mia"
  then show "prefix_ok p" "family_ok p"
    using assms(1) alloc_ok_net by (auto simp: nets_def allocators_def multi_ok_def)
next
  fix p q assume pq: "p \<in> nets mia" "q \<in> nets mia" "\<exists>ip. contains p ip \<and> contains q ip"
  obtain a f b g where a: "a \<in> set (mia_m mia f)" "p = net_of a" and b: "b \<in> set (mia_m mia g)" "q = net_of b"
    using pq by (auto simp: nets_def allocators_def)
  obtain ip where ip: "contains p ip" "contains q ip" using pq(3) by blast
  have ok: "alloc_ok a" "alloc_ok b" "sia_f a = f" "sia_f b = g" using a b assms(1) by (auto simp: multi_ok_def)
  have n: "net_ok p" "net_ok q" using alloc_ok_net(1) ok a b by (auto simp: prefix_ok_def)
  have "is4 (IP p) = is4 (IP q)"
    using ip contains_not_valid [OF n(1) ip(1)] by (simp add: contains_range n)
  then have "f = g" using ok alloc_ok_net(3) [OF ok(1)] alloc_ok_net(3) [OF ok(2)] a b by simp
  then show "p = q" using nets_apartD [OF assms(2) a(1)] b ip a(2) by simp
qed

lemma owned_ok:
  assumes "prefix_ok p" "family_ok p" "owned p ip"
  shows "net_ok ip" "contains p (IP ip)" "is4 (IP ip) = is4 (IP p)"
    "ip = \<lparr>IP = be_bytes 16 (ipval (IP ip)), Mask = (if is4 (IP ip) then CIDRMask 32 32 else CIDRMask 128 128)\<rparr>"
  using assms alloc_addr_ok [OF assms(1,2)] by (auto simp: owned_def alloc_addr_def)

lemma owned_text_inj:
  assumes "nets_ok N" "p \<in> N" "q \<in> N" "owned p ip" "owned q jp" "ipnet_String ip = ipnet_String jp"
  shows "ip = jp"
proof -
  have p: "prefix_ok p" "family_ok p" and q: "prefix_ok q" "family_ok q"
    using assms(1-3) by (auto simp: nets_ok_def)
  note i = owned_ok [OF p assms(4)] and j = owned_ok [OF q assms(5)]
  have "ipval (IP ip) = ipval (IP jp)" "is4 (IP ip) = is4 (IP jp)"
    using ipnet_String_inj [OF i(1) j(1) assms(6)] by auto
  then show ?thesis using i(4) j(4) by simp
qed

lemma net_text_inj:
  assumes "nets_ok N" "p \<in> N" "q \<in> N" "ipnet_String p = ipnet_String q"
  shows "p = q"
proof -
  have p: "prefix_ok p" and q: "prefix_ok q" using assms(1-3) by (auto simp: nets_ok_def)
  have "contains p = contains q"
    using same_text_contains(1) [OF _ _ assms(4)] p q by (auto simp: prefix_ok_def)
  then have "\<exists>ip. contains p ip \<and> contains q ip" using prefix_contains_own [OF p] by auto
  then show ?thesis using assms(1-3) by (simp add: nets_ok_def)
qed

lemma tickets_of_net:
  assumes "nets_ok N" "p \<in> N" "net_of ` set as \<subseteq> N" "list_all2 owns as ips"
  shows "{i. (ipnet_String p, i) \<in> tickets as ips} = ipnet_String ` {ip \<in> set ips. contains p (IP ip)}"
  using assms(4,3)
proof (induction rule: list_all2_induct)
  case (Cons a as ip ips)
  have a: "net_of a \<in> N" "owned (net_of a) ip" using Cons by (auto simp: owns_owned)
  then have c: "contains (net_of a) (IP ip)" using owned_ok(2) assms(1) by (auto simp: nets_ok_def)
  have "ipnet_String p = ipnet_String (net_of a) \<longleftrightarrow> contains p (IP ip)"
    using net_text_inj [OF assms(1,2) a(1)] c assms(1,2) a(1) unfolding nets_ok_def by metis
  then show ?case using Cons by (auto simp: ticket_def)
qed simp

lemma owned_list:
  "\<forall>ip\<in>set ips. \<exists>a\<in>S. owns a ip \<Longrightarrow> \<exists>as. list_all2 owns as ips \<and> set as \<subseteq> S"
proof (induction ips)
  case (Cons ip ips)
  then obtain a as where "a \<in> S" "owns a ip" "list_all2 owns as ips" "set as \<subseteq> S" by auto
  then show ?case by (intro exI [of _ "a # as"]) simp
qed (intro exI [of _ "[]"], simp)

section \<open>How it is kept\<close>

lemma owned_served: "list_all2 owns as ips \<Longrightarrow> net_of ` set as \<subseteq> N \<Longrightarrow> ip \<in> set ips \<Longrightarrow> \<exists>p\<in>N. owned p ip"
  by (auto simp: list_all2_conv_all_nth in_set_conv_nth owns_owned) (metis imageI nth_mem subsetD)

lemma lease_inv_add:
  assumes inv: "lease_inv N v m" and N: "nets_ok N" and k: "m k = None"
    and own: "list_all2 owns as ips" "net_of ` set as \<subseteq> N" "fresh_in v (tickets as ips)" "distinct ips"
    "ips \<noteq> []" and l: "Lease_IPs l = ips"
  shows "lease_inv N (view_add (tickets as ips) v) (m(k := Some l))"
proof -
  have each: "\<exists>p\<in>N. owned p ip" if "ip \<in> set ips" for ip
    using owned_served [OF own(1,2) that] .
  have L: "leased (m(k := Some l)) = leased m \<union> set ips"
    using leased_put [of m k l] k l by (simp add: fun_upd_idem)
  have J1: "v (ipnet_String p) = Some (ipnet_String ` {ip \<in> leased m. contains p (IP ip)})" if "p \<in> N" for p
    using inv that by (simp add: lease_inv_def)
  have new: "leased m \<inter> set ips = {}"
  proof (rule ccontr)
    assume "leased m \<inter> set ips \<noteq> {}"
    then obtain ip where ip: "ip \<in> leased m" "ip \<in> set ips" by blast
    obtain p where p: "p \<in> N" "owned p ip" using each ip(2) by blast
    have c: "contains p (IP ip)" using owned_ok(2) p N by (auto simp: nets_ok_def)
    have "(ipnet_String p, ipnet_String ip) \<in> tickets as ips"
      using tickets_of_net [OF N p(1) own(2,1)] ip(2) c by blast
    then show False using own(3) J1 [OF p(1)] ip(1) c by (auto simp: fresh_in_def)
  qed
  show ?thesis unfolding lease_inv_def L
  proof (intro conjI ballI allI impI)
    fix p assume p: "p \<in> N"
    show "view_add (tickets as ips) v (ipnet_String p) =
        Some (ipnet_String ` {ip \<in> leased m \<union> set ips. contains p (IP ip)})"
      using J1 [OF p] tickets_of_net [OF N p own(2,1)] by (auto simp: view_add_def)
  next
    fix k' l' assume "(m(k := Some l)) k' = Some l'"
    then show "distinct (Lease_IPs l')" "Lease_IPs l' \<noteq> []" "ip \<in> set (Lease_IPs l') \<Longrightarrow> \<exists>p\<in>N. owned p ip" for ip
      using inv l own(4,5) each by (auto simp: lease_inv_def split: if_splits)
  next
    fix k1 k2 l1 l2
    assume "(m(k := Some l)) k1 = Some l1 \<and> (m(k := Some l)) k2 = Some l2 \<and> k1 \<noteq> k2"
    then show "set (Lease_IPs l1) \<inter> set (Lease_IPs l2) = {}"
      using inv l new by (auto simp: lease_inv_def leased_def split: if_splits)
  qed
qed

lemma lease_inv_remove:
  assumes inv: "lease_inv N v m" and N: "nets_ok N" and k: "m k = Some l"
    and own: "list_all2 owns as (Lease_IPs l)" "net_of ` set as \<subseteq> N"
  shows "lease_inv N (view_del (tickets as (Lease_IPs l)) v) (m(k := None))"
proof -
  let ?ips = "Lease_IPs l" and ?m = "m(k := None)"
  have J1: "v (ipnet_String p) = Some (ipnet_String ` {ip \<in> leased m. contains p (IP ip)})" if "p \<in> N" for p
    using inv that by (simp add: lease_inv_def)
  have each: "\<exists>p\<in>N. owned p ip" if "ip \<in> leased m" for ip
    using inv that by (auto simp: lease_inv_def leased_def)
  have L: "leased m = leased ?m \<union> set ?ips" "leased ?m \<inter> set ?ips = {}"
  proof -
    show "leased m = leased ?m \<union> set ?ips" by (rule leased_split [of m k l, OF k])
    show "leased ?m \<inter> set ?ips = {}"
      using inv k unfolding lease_inv_def leased_def by (fastforce split: if_splits)
  qed
  have inj: "ip = jp" if "ip \<in> leased m" "jp \<in> leased m" "ipnet_String ip = ipnet_String jp" for ip jp
    using owned_text_inj [OF N] each that by metis
  show ?thesis unfolding lease_inv_def
  proof (intro conjI ballI allI impI)
    fix p assume p: "p \<in> N"
    have "ipnet_String ` {ip \<in> leased m. contains p (IP ip)} - ipnet_String ` {ip \<in> set ?ips. contains p (IP ip)} =
        ipnet_String ` {ip \<in> leased ?m. contains p (IP ip)}"
      using L inj by (auto; blast)
    then show "view_del (tickets as ?ips) v (ipnet_String p) =
        Some (ipnet_String ` {ip \<in> leased ?m. contains p (IP ip)})"
      using J1 [OF p] tickets_of_net [OF N p own(2,1)] by (simp add: view_del_def)
  next
    fix k' l' assume "?m k' = Some l'"
    then show "distinct (Lease_IPs l')" "Lease_IPs l' \<noteq> []" "ip \<in> set (Lease_IPs l') \<Longrightarrow> \<exists>p\<in>N. owned p ip" for ip
      using inv by (auto simp: lease_inv_def split: if_splits)
  next
    fix k1 k2 l1 l2
    assume "?m k1 = Some l1 \<and> ?m k2 = Some l2 \<and> k1 \<noteq> k2"
    then show "set (Lease_IPs l1) \<inter> set (Lease_IPs l2) = {}"
      using inv by (auto simp: lease_inv_def split: if_splits)
  qed
qed

lemma lease_inv_renew:
  assumes "lease_inv N v m" "m k = Some l" "Lease_IPs l' = Lease_IPs l"
  shows "lease_inv N v (m(k := Some l'))"
proof -
  have "leased (m(k := Some l')) = leased m"
    using leased_put [of m k l'] leased_split [of m k l, OF assms(2)] assms(3) by simp
  then have L: "leased (m(k := Some l')) = leased m" .
  have one: "\<exists>l0. m k0 = Some l0 \<and> Lease_IPs l0 = Lease_IPs l1" if "(m(k := Some l')) k0 = Some l1" for k0 l1
    using that assms(2,3) by (auto split: if_splits)
  show ?thesis unfolding lease_inv_def L
  proof (intro conjI ballI allI impI)
    fix p assume "p \<in> N"
    then show "v (ipnet_String p) = Some (ipnet_String ` {ip \<in> leased m. contains p (IP ip)})"
      using assms(1) by (simp add: lease_inv_def)
  next
    fix k0 l1 assume "(m(k := Some l')) k0 = Some l1"
    then obtain l0 where "m k0 = Some l0" "Lease_IPs l0 = Lease_IPs l1" using one by blast
    then show "distinct (Lease_IPs l1)" "Lease_IPs l1 \<noteq> []" "ip \<in> set (Lease_IPs l1) \<Longrightarrow> \<exists>p\<in>N. owned p ip" for ip
      using assms(1) unfolding lease_inv_def by metis+
  next
    fix k1 k2 l1 l2
    assume h: "(m(k := Some l')) k1 = Some l1 \<and> (m(k := Some l')) k2 = Some l2 \<and> k1 \<noteq> k2"
    obtain m1 where m1: "m k1 = Some m1" "Lease_IPs m1 = Lease_IPs l1" using one [of k1 l1] h by blast
    obtain m2 where m2: "m k2 = Some m2" "Lease_IPs m2 = Lease_IPs l2" using one [of k2 l2] h by blast
    have "set (Lease_IPs m1) \<inter> set (Lease_IPs m2) = {}"
      using assms(1) m1(1) m2(1) h unfolding lease_inv_def by blast
    then show "set (Lease_IPs l1) \<inter> set (Lease_IPs l2) = {}" using m1(2) m2(2) by simp
  qed
qed

section \<open>One request\<close>

lemma served_nets: "net_of ` set (served mia fs) \<subseteq> nets mia"
  by (auto simp: served_def nets_def allocators_def)

lemma served_distinct:
  assumes "multi_ok mia" "nets_apart mia" "distinct fs" "list_all2 owns (served mia fs) ips"
  shows "distinct ips"
proof -
  have srt: "sorted_wrt disjoint_nets (map net_of (served mia fs))"
    using assms(3)
  proof (induction fs)
    case (Cons f fs)
    have "disjoint_nets (net_of a) (net_of b)" if ab: "a \<in> set (mia_m mia f)" "b \<in> set (served mia fs)" for a b
    proof -
      obtain g where g: "g \<in> set fs" "b \<in> set (mia_m mia g)" using ab(2) by (auto simp: served_def)
      have ok: "alloc_ok a" "alloc_ok b" "sia_f a = f" "sia_f b = g"
        using ab(1) g(2) assms(1) by (auto simp: multi_ok_def)
      have n: "net_ok (net_of a)" "net_ok (net_of b)" using alloc_ok_net(1) ok by (auto simp: prefix_ok_def)
      have "f \<noteq> g" using Cons.prems g(1) by auto
      then have "is4 (IP (net_of a)) \<noteq> is4 (IP (net_of b))"
        using ok alloc_ok_net(3) by (metis (full_types))
      then show ?thesis
        using contains_not_valid n unfolding disjoint_nets_def by (metis contains_range)
    qed
    then show ?case
      using Cons assms(2) by (auto simp: served_def sorted_wrt_append nets_apart_def)
  qed (simp add: served_def)
  have ok: "\<forall>a\<in>set (served mia fs). alloc_ok a" using assms(1) by (auto simp: served_def multi_ok_def)
  show ?thesis using assms(4) srt ok
  proof (induction rule: list_all2_induct)
    case (Cons a as ip ips)
    have "ip \<notin> set ips"
    proof
      assume "ip \<in> set ips"
      then obtain b where b: "b \<in> set as" "owns b ip"
        using Cons.hyps(2) by (auto simp: list_all2_conv_all_nth in_set_conv_nth) (metis nth_mem)
      have "contains (net_of a) (IP ip)" "contains (net_of b) (IP ip)"
        using owns_ok(2) Cons.hyps(1) Cons.prems(2) b by auto
      then show False using Cons.prems(1) b(1) by (auto simp: disjoint_nets_def)
    qed
    then show ?case using Cons by simp
  qed simp
qed

definition handler_inv :: "('s \<Rightarrow> bool) \<Rightarrow> ('s \<Rightarrow> alloc_view) \<Rightarrow> ('s \<Rightarrow> u64 \<Rightarrow> lease option) \<Rightarrow>
    multiIPAllocator \<Rightarrow> 's \<Rightarrow> bool" where
  "handler_inv ok view leases_of a s \<longleftrightarrow>
     multi_ok a \<and> nets_apart a \<and> ok s \<and> lease_inv (nets a) (view s) (leases_of s)"

text \<open>What the invariant says of leases and tables.\<close>

lemma handler_inv_no_share:
  assumes "handler_inv ok view leases_of a s" "leases_of s k = Some l" "leases_of s k' = Some l'" "k \<noteq> k'"
    "ip \<in> set (Lease_IPs l)" "jp \<in> set (Lease_IPs l')"
  shows "ip \<noteq> jp \<and> ipnet_String ip \<noteq> ipnet_String jp"
proof -
  have inv: "lease_inv (nets a) (view s) (leases_of s)" and N: "nets_ok (nets a)"
    using assms(1) multi_nets_ok by (auto simp: handler_inv_def)
  have "set (Lease_IPs l) \<inter> set (Lease_IPs l') = {}"
    using inv assms(2-4) unfolding lease_inv_def by blast
  then have "ip \<noteq> jp" using assms(5,6) by blast
  moreover have "\<exists>p\<in>nets a. owned p ip" "\<exists>q\<in>nets a. owned q jp"
    using inv assms(2,3,5,6) unfolding lease_inv_def by blast+
  ultimately show ?thesis using owned_text_inj [OF N] by blast
qed

lemma handler_inv_tables:
  assumes "handler_inv ok view leases_of a s" "b \<in> allocators a"
  shows "view s (ipnet_String (net_of b)) =
    Some (ipnet_String ` {ip. \<exists>k l. leases_of s k = Some l \<and> ip \<in> set (Lease_IPs l) \<and> contains (net_of b) (IP ip)})"
proof -
  have "view s (ipnet_String (net_of b)) = Some (ipnet_String ` {ip \<in> leased (leases_of s). contains (net_of b) (IP ip)})"
    using assms by (simp add: handler_inv_def lease_inv_def nets_def)
  moreover have "{ip \<in> leased (leases_of s). contains (net_of b) (IP ip)} =
      {ip. \<exists>k l. leases_of s k = Some l \<and> ip \<in> set (Lease_IPs l) \<and> contains (net_of b) (IP ip)}"
    by (auto simp: leased_def)
  ultimately show ?thesis by simp
qed

text \<open>What a request does to the leases, by its result: a success saves one lease under the key of
  the client, and an error is that no address is available, and leaves every lease but an expired one of the
  client alone.\<close>

definition request_effect :: "u64 \<Rightarrow> time \<Rightarrow> duration \<Rightarrow> (u64 \<Rightarrow> lease option) \<Rightarrow> (u64 \<Rightarrow> lease option) \<Rightarrow>
    time \<Rightarrow> fault + RequestIP \<Rightarrow> bool" where
  "request_effect k now d m m' now' r \<longleftrightarrow>
     (case r of
        Inr res \<Rightarrow>
          m' = m(k := Some \<lparr>Lease_IPs = req_IPs res, Lease_Start = timeNow now', Lease_Length = d\<rparr>) \<and>
          req_IPs res \<noteq> [] \<and> req_LeaseStart res = timeNow now' \<and> req_LeaseTime res = d \<and>
          (\<forall>l. m k = Some l \<and> \<not> Lease_Expired l now \<longrightarrow> req_IPs res = Lease_IPs l)
      | Inl e \<Rightarrow> (\<forall>g. e = Err g \<longrightarrow> g = IPUnavailable) \<and>
          (m' = m \<or> (\<exists>l. m k = Some l \<and> Lease_Expired l now) \<and> m' = m(k := None)))"

lemma dom_view [simp]: "dom (view_add G v) = dom v" "dom (view_del G v) = dom v"
  by (auto simp: view_add_def view_del_def)

text \<open>A store for both addresses and leases, which can hold every lease the handler makes while the
  clock is in a range (\<open>clock_ok\<close>) the store can represent.\<close>

locale handler_store =
  ips: reliable_ip_store st inv view leases_of + leases: lease_store ls storable inv leases_of view
  for st :: "'s IPStore" and ls :: "'s LeaseStore" and storable :: "lease \<Rightarrow> bool" and inv :: "'s \<Rightarrow> bool"
    and view :: "'s \<Rightarrow> alloc_view" and leases_of :: "'s \<Rightarrow> u64 \<Rightarrow> lease option" +
  fixes clock_ok :: "time \<Rightarrow> bool"
  assumes storable_lease: "clock_ok t \<Longrightarrow> \<forall>ip\<in>set ips. \<exists>p. prefix_ok p \<and> family_ok p \<and> owned p ip \<Longrightarrow>
    storable \<lparr>Lease_IPs = ips, Lease_Start = timeNow t, Lease_Length = d\<rparr>"
begin

lemma newLease_safe:
  assumes inv: "handler_inv inv view leases_of a s" and k: "leases_of s (strKey src) = None"
    and clock: "clock_ok now'"
  shows "\<exists>r a' s'. newLease (multi_handler ls st d) strKey now' src req a s = Some (r, a', s') \<and> same_nets a a' \<and>
    ((\<forall>e. r \<noteq> Inl (Panic e)) \<longrightarrow> handler_inv inv view leases_of a' s' \<and>
      request_effect (strKey src) now d (leases_of s) (leases_of s') now' r \<and> dom (view s') = dom (view s))"
proof -
  let ?h = "multi_handler ls st d" and ?m = "leases_of s" and ?k = "strKey src"
  have a: "multi_ok a" "nets_apart a" "inv s" "lease_inv (nets a) (view s) ?m"
    using inv by (auto simp: handler_inv_def)
  let ?fam = "if req_IPs req = [] then Inr DualStack else request_families (req_IPs req) 0"
  have fam: "?fam = Inl (Err IPUnavailable) \<or> (\<exists>f fs. ?fam = Inr f \<and> allocate_families f = Inr fs \<and> distinct fs)"
    using families_of_cases [of "req_IPs req"]
    by (auto simp: request_families_eq allocate_families_def DualStack_def IPv4_def IPv6_def)
  then show ?thesis
  proof (elim disjE exE conjE)
    assume "?fam = Inl (Err IPUnavailable)"
    then have "newLease ?h strKey now' src req a s = Some (Inl (Err IPUnavailable), a, s)"
      unfolding newLease_def by (simp only: sum.case)
    then show ?thesis using inv
      by (intro exI [of _ "Inl (Err IPUnavailable)"] exI [of _ a] exI [of _ s]) (simp add: request_effect_def)
  next
    fix f fs assume f: "?fam = Inr f" "allocate_families f = Inr fs" "distinct fs"
    obtain r a' s' where l: "multi_Allocate st f a s = Some (r, a', s')" "inv s'" "leases_of s' = ?m"
      "same_nets a a'" "multi_ok a'" "multi_outcome (served a fs) (view s) (view s') r"
      "\<forall>e. r = Inl (Err e) \<longrightarrow> (\<exists>z. tryAllocate st fs a [] s = Some (Inl (Err e), z))"
      using ips.multi_Allocate_safe [OF a(1,2,3) f(2,3)] by blast
    have "\<forall>f. \<forall>b\<in>set (mia_m a f). view s (ipnet_String (net_of b)) \<noteq> None"
      using a(4) by (auto simp: lease_inv_def nets_def allocators_def)
    from ips.tryAllocate_no_error [OF a(1,3) this] have no: "r \<noteq> Inl (Err e)" for e using l(7) by blast
    have apart: "nets_apart a'" by (rule nets_apart_same [OF l(4) a(2)])
    have N: "nets a' = nets a" by (rule nets_same [OF l(4)])
    have al: "al_Allocate (h_IPs ?h) = multi_Allocate st" "h_Leases ?h = ls" "h_LeaseDuration ?h = d"
      by (simp_all add: multi_handler_def multi_IPs_def)
    consider e where "r = Inl (Panic e)" | e where "r = Inl (Err e)" | "r = Inr None" | ips where "r = Inr (Some ips)"
      by (metis fault.exhaust option.exhaust sum.exhaust)
    then show ?thesis
    proof cases
      case (1 e)
      then have "newLease ?h strKey now' src req a s = Some (Inl (Panic e), a', s')"
        unfolding newLease_def f(1) al using l(1) by simp
      then show ?thesis using l(4) by blast
    next
      case (2 e)
      then show ?thesis using no by simp
    next
      case 3
      then have "newLease ?h strKey now' src req a s = Some (Inl (Err IPUnavailable), a', s')"
        unfolding newLease_def f(1) al using l(1) by simp
      moreover have "view s' = view s" using l(6) 3 by (simp add: multi_outcome_def)
      ultimately show ?thesis using l a apart N
        by (intro exI [of _ "Inl (Err IPUnavailable)"] exI [of _ a'] exI [of _ s'])
          (simp add: handler_inv_def request_effect_def)
    next
      case (4 ips)
      then have o: "ips \<noteq> []" "list_all2 owns (served a fs) ips" "fresh_in (view s) (tickets (served a fs) ips)"
        "view s' = view_add (tickets (served a fs) ips) (view s)"
        using l(6) by (auto simp: multi_outcome_def)
      let ?l = "\<lparr>Lease_IPs = ips, Lease_Start = timeNow now', Lease_Length = d\<rparr>"
      have "\<forall>ip\<in>set ips. \<exists>p. prefix_ok p \<and> family_ok p \<and> owned p ip"
        using owned_served [OF o(2) served_nets] multi_nets_ok [OF a(1,2)] unfolding nets_ok_def by blast
      then obtain s2 where s2: "ls_SaveLease ls ?k ?l s' = (Inr (), s2)" "inv s2"
        "leases_of s2 = (leases_of s')(?k := Some ?l)" "view s2 = view s'"
        using leases.SaveLease_eq [OF l(2) storable_lease [OF clock]] by blast
      have "newLease ?h strKey now' src req a s =
          Some (Inr \<lparr>req_IPs = ips, req_LeaseStart = timeNow now', req_LeaseTime = d\<rparr>, a', s2)"
        unfolding newLease_def f(1) al using l(1) 4 s2(1) by simp
      moreover have "lease_inv (nets a) (view s2) (leases_of s2)"
        unfolding s2(3,4) l(3) o(4)
        using lease_inv_add [OF a(4) multi_nets_ok [OF a(1,2)] k o(2) served_nets o(3)
            served_distinct [OF a(1,2) f(3) o(2)] o(1)] by simp
      moreover have "dom (view s2) = dom (view s)" unfolding s2(4) o(4) by simp
      ultimately show ?thesis using l(3,4,5) s2(2,3) apart N o(1) k
        by (intro exI [of _ "Inr \<lparr>req_IPs = ips, req_LeaseStart = timeNow now', req_LeaseTime = d\<rparr>"]
            exI [of _ a'] exI [of _ s2]) (simp add: handler_inv_def request_effect_def)
    qed
  qed
qed

lemma free_lease_ok:
  assumes "multi_ok a" "nets_apart a" "inv s" "list_all2 owns as ips"
    "\<forall>b\<in>set as. b \<in> allocators a \<and> view s (ipnet_String (net_of b)) \<noteq> None"
  shows "\<exists>s'. free_lease (multi_handler ls st d) ips a s = (Inr (), s') \<and> inv s' \<and> leases_of s' = leases_of s \<and>
    view s' = view_del (tickets as ips) (view s)"
  using assms(4,5,3)
proof (induction arbitrary: s rule: list_all2_induct)
  case (Cons b as ip ips)
  obtain f where f: "b \<in> set (mia_m a f)" and k: "view s (ipnet_String (net_of b)) \<noteq> None"
    using Cons.prems(1) by (auto simp: allocators_def)
  obtain s1 where s1: "multi_Free st a ip s = (Inr (), s1)" "inv s1" "leases_of s1 = leases_of s"
    "view s1 = view_del {ticket (net_of b) ip} (view s)"
    using ips.multi_Free_ok [OF assms(1,2) Cons.prems(2) f Cons.hyps(1) k] by blast
  have "\<forall>b\<in>set as. b \<in> allocators a \<and> view s1 (ipnet_String (net_of b)) \<noteq> None"
    unfolding s1(4) using Cons.prems(1) by (simp add: view_del_def)
  then obtain s2 where "free_lease (multi_handler ls st d) ips a s1 = (Inr (), s2)" "inv s2"
    "leases_of s2 = leases_of s1" "view s2 = view_del (tickets as ips) (view s1)"
    using Cons.IH s1(2) by blast
  then show ?case using s1 by (simp add: view_del_del multi_handler_def multi_IPs_def)
qed simp

text \<open>A request, from a state that keeps the invariant: the handler returns, and unless it panics the
  invariant holds again.\<close>

lemma requestIP_safe:
  assumes inv: "handler_inv inv view leases_of a s" and clock: "clock_ok now'"
  shows "\<exists>r a' s'. requestIP (multi_handler ls st d) strKey now now' src req a s = Some (r, a', s') \<and>
    same_nets a a' \<and>
    ((\<forall>e. r \<noteq> Inl (Panic e)) \<longrightarrow> handler_inv inv view leases_of a' s' \<and>
      request_effect (strKey src) now d (leases_of s) (leases_of s') now' r \<and> dom (view s') = dom (view s))"
proof -
  let ?h = "multi_handler ls st d" and ?m = "leases_of s" and ?k = "strKey src"
  have a: "multi_ok a" "nets_apart a" "inv s" "lease_inv (nets a) (view s) ?m"
    using inv by (auto simp: handler_inv_def)
  have hl: "h_Leases ?h = ls" "h_LeaseDuration ?h = d" by (simp_all add: multi_handler_def)
  have look: "ls_Lease (h_Leases ?h) ?k s = (Inr (?m ?k), s)" using leases.Lease_eq [OF a(3)] hl by simp
  show ?thesis
  proof (cases "?m ?k")
    case None
    then have "requestIP ?h strKey now now' src req a s = newLease ?h strKey now' src req a s"
      unfolding requestIP_def look by simp
    then show ?thesis using newLease_safe [of a s strKey src, OF inv None clock] by simp
  next
    case (Some l)
    show ?thesis
    proof (cases "Lease_Expired l now")
      case False
      then have q: "requestIP ?h strKey now now' src req a s = renewLease ?h strKey now' src req l a s"
        unfolding requestIP_def look using Some by (simp add: since_expired)
      let ?l = "l\<lparr>Lease_Start := timeNow now', Lease_Length := d\<rparr>"
      have "\<forall>ip\<in>set (Lease_IPs l). \<exists>p. prefix_ok p \<and> family_ok p \<and> owned p ip"
        using a(4) Some multi_nets_ok [OF a(1,2)] unfolding lease_inv_def nets_ok_def by blast
      then have "storable ?l" using storable_lease [OF clock, of "Lease_IPs l" d] by (simp add: lease_restart)
      then obtain s2 where s2: "ls_SaveLease ls ?k ?l s = (Inr (), s2)" "inv s2"
        "leases_of s2 = ?m(?k := Some ?l)" "view s2 = view s"
        using leases.SaveLease_eq [OF a(3)] by blast
      show ?thesis
      proof (cases "renew_allowed (req_IPs req) l")
        case True
        then have "renewLease ?h strKey now' src req l a s =
          Some (Inr \<lparr>req_IPs = Lease_IPs l, req_LeaseStart = timeNow now', req_LeaseTime = d\<rparr>, a, s2)"
          using s2(1) hl by (simp add: renewLease_def Let_def)
        moreover have "lease_inv (nets a) (view s2) (leases_of s2)"
          unfolding s2(3,4) by (rule lease_inv_renew [OF a(4) Some]) simp
        moreover have l': "?l = \<lparr>Lease_IPs = Lease_IPs l, Lease_Start = timeNow now', Lease_Length = d\<rparr>" by (rule lease_restart)
        moreover have "Lease_IPs l \<noteq> []" using a(4) Some by (simp add: lease_inv_def)
        moreover have "dom (view s2) = dom (view s)" unfolding s2(4) ..
        ultimately show ?thesis using q a s2(2) s2(3) [unfolded l'] Some False True
          by (intro exI [of _ "Inr \<lparr>req_IPs = Lease_IPs l, req_LeaseStart = timeNow now', req_LeaseTime = d\<rparr>"]
              exI [of _ a] exI [of _ s2]) (simp add: handler_inv_def request_effect_def)
      next
        case False
        then have "renewLease ?h strKey now' src req l a s = Some (Inl (Err IPUnavailable), a, s)"
          by (simp add: renewLease_def)
        then show ?thesis using q inv
          by (intro exI [of _ "Inl (Err IPUnavailable)"] exI [of _ a] exI [of _ s]) (simp add: request_effect_def)
      qed
    next
      case True
      obtain s1 where s1: "ls_DeleteLease ls ?k s = (Inr (), s1)" "inv s1" "leases_of s1 = ?m(?k := None)"
        "view s1 = view s"
        using leases.DeleteLease_eq [OF a(3)] by blast
      have each: "\<forall>ip\<in>set (Lease_IPs l). \<exists>b\<in>allocators a. owns b ip"
        using a(4) Some by (auto simp: lease_inv_def nets_def owns_owned)
      obtain as where as: "list_all2 owns as (Lease_IPs l)" "set as \<subseteq> allocators a"
        using owned_list [OF each] by blast
      have sub: "net_of ` set as \<subseteq> nets a" using as(2) by (auto simp: nets_def)
      have known: "\<forall>b\<in>set as. b \<in> allocators a \<and> view s1 (ipnet_String (net_of b)) \<noteq> None"
        using as(2) a(4) s1(4) by (auto simp: lease_inv_def nets_def)
      obtain s2 where s2: "free_lease ?h (Lease_IPs l) a s1 = (Inr (), s2)" "inv s2" "leases_of s2 = leases_of s1"
        "view s2 = view_del (tickets as (Lease_IPs l)) (view s1)"
        using free_lease_ok [OF a(1,2) s1(2) as(1) known] by blast
      have q: "requestIP ?h strKey now now' src req a s = newLease ?h strKey now' src req a s2"
        unfolding requestIP_def look using Some True s1(1) s2(1) hl(1) by (simp add: since_expired)
      have "lease_inv (nets a) (view s2) (leases_of s2)"
        unfolding s2(3,4) s1(3,4) by (rule lease_inv_remove [OF a(4) multi_nets_ok [OF a(1,2)] Some as(1) sub])
      then have inv2: "handler_inv inv view leases_of a s2" using a s2(2) by (simp add: handler_inv_def)
      have "leases_of s2 ?k = None" using s2(3) s1(3) by simp
      then obtain r a' s' where r: "newLease ?h strKey now' src req a s2 = Some (r, a', s')" "same_nets a a'"
        "(\<forall>e. r \<noteq> Inl (Panic e)) \<longrightarrow> handler_inv inv view leases_of a' s' \<and>
          request_effect ?k now d (leases_of s2) (leases_of s') now' r \<and> dom (view s') = dom (view s2)"
        using newLease_safe [of a s2 strKey src, OF inv2 _ clock] by blast
      have "request_effect ?k now d (leases_of s2) m' now' r \<Longrightarrow> request_effect ?k now d ?m m' now' r" for m'
        unfolding s2(3) s1(3) using Some True by (auto simp: request_effect_def split: sum.splits)
      moreover have "dom (view s2) = dom (view s)" unfolding s2(4) s1(4) by simp
      ultimately show ?thesis using q r by (intro exI [of _ r] exI [of _ a'] exI [of _ s']) simp
    qed
  qed
qed

end

end
