(* ===== verification/Memory_Server.thy ===== *)
theory Memory_Server
  imports Handler_Safety
begin

text \<open>
  One interface of the daemon (\<open>runServer\<close> of internal/wgipamd/server.go) over the in-memory store: an
  allocator made from the configured subnets, requests served by the handler, and expired leases
  purged now and then.  Each request and each purge is one step; the steps come in any order.
\<close>

section \<open>The memory store under the handler\<close>

interpretation mh: handler_store mem_ips mem_leases "\<lambda>l. True" mem_ok subnets leases "\<lambda>t. True"
  by unfold_locales simp

definition mem_handler :: "duration \<Rightarrow> (multiIPAllocator, memoryStore) Handler" where
  "mem_handler d = multi_handler mem_leases mem_ips d"

abbreviation mem_inv :: "multiIPAllocator \<Rightarrow> memoryStore \<Rightarrow> bool" where
  "mem_inv \<equiv> handler_inv mem_ok subnets leases"

section \<open>Purge\<close>

lemma key_contains_net: "net_ok p \<Longrightarrow> key_contains (ipnet_String p) = contains p"
proof -
  assume "net_ok p"
  then obtain x cidr where "ParseCIDR (ipnet_String p) = Inr (x, cidr)" "contains (cidr\<lparr>IP := x\<rparr>) = contains p"
    using ParseCIDR_key [of p] by blast
  then show ?thesis by (simp add: key_contains_def fun_eq_iff)
qed

lemma expired_ips_iff: "ip \<in> set (expired_ips t m k) \<longleftrightarrow>
    (\<exists>l. m k = Some l \<and> Lease_Expired l t \<and> ip \<in> set (Lease_IPs l))"
  by (cases "m k") (auto simp: expired_ips_def)

lemma live_leases_Some: "live_leases t m k = Some l \<longleftrightarrow> m k = Some l \<and> \<not> Lease_Expired l t"
  by (auto simp: live_leases_def split: option.splits if_splits)

lemma leased_live: "leased (live_leases t m) \<union> {ip. \<exists>k. ip \<in> set (expired_ips t m k)} = leased m"
  by (auto simp: leased_def live_leases_Some expired_ips_iff)

text \<open>A purge of the tables of at least the subnets \<open>N\<close>.\<close>

lemma lease_inv_purge:
  assumes inv: "lease_inv N v m" and N: "nets_ok N"
    and v': "\<And>p. p \<in> N \<Longrightarrow> v' (ipnet_String p) =
      map_option (\<lambda>A. A - purged_ips t m (ipnet_String p)) (v (ipnet_String p))"
  shows "lease_inv N v' (live_leases t m)"
proof -
  let ?m = "live_leases t m" and ?E = "{ip. \<exists>k. ip \<in> set (expired_ips t m k)}"
  have J1: "v (ipnet_String p) = Some (ipnet_String ` {ip \<in> leased m. contains p (IP ip)})" if "p \<in> N" for p
    using inv that by (simp add: lease_inv_def)
  have each: "\<exists>p\<in>N. owned p ip" if "ip \<in> leased m" for ip
    using inv that by (auto simp: lease_inv_def leased_def)
  have inj: "ip = jp" if "ip \<in> leased m" "jp \<in> leased m" "ipnet_String ip = ipnet_String jp" for ip jp
    using owned_text_inj [OF N] each that by metis
  have apart: "leased ?m \<inter> ?E = {}"
  proof (rule ccontr)
    assume "leased ?m \<inter> ?E \<noteq> {}"
    then obtain ip k l k' where h: "?m k = Some l" "ip \<in> set (Lease_IPs l)" "ip \<in> set (expired_ips t m k')"
      by (auto simp: leased_def)
    then obtain l' where l': "m k' = Some l'" "Lease_Expired l' t" "ip \<in> set (Lease_IPs l')"
      by (auto simp: expired_ips_iff)
    have "m k = Some l" "\<not> Lease_Expired l t" using h(1) by (auto simp: live_leases_Some)
    then show False using inv l' h(2) unfolding lease_inv_def by (metis IntI empty_iff option.inject)
  qed
  have L: "leased m = leased ?m \<union> ?E" using leased_live [of t m] by simp
  show ?thesis unfolding lease_inv_def
  proof (intro conjI ballI allI impI)
    fix p assume p: "p \<in> N"
    then have "key_contains (ipnet_String p) = contains p"
      using N key_contains_net by (auto simp: nets_ok_def prefix_ok_def)
    then have "purged_ips t m (ipnet_String p) = ipnet_String ` {ip \<in> ?E. contains p (IP ip)}"
      by (auto simp: purged_ips_def)
    moreover have "ipnet_String ` {ip \<in> leased m. contains p (IP ip)} - ipnet_String ` {ip \<in> ?E. contains p (IP ip)} =
        ipnet_String ` {ip \<in> leased ?m. contains p (IP ip)}"
      using inj apart unfolding L by (auto; blast)
    ultimately show "v' (ipnet_String p) =
        Some (ipnet_String ` {ip \<in> leased ?m. contains p (IP ip)})"
      using J1 [OF p] v' [OF p] by simp
  next
    fix k l assume "?m k = Some l"
    then show "distinct (Lease_IPs l)" "Lease_IPs l \<noteq> []" "ip \<in> set (Lease_IPs l) \<Longrightarrow> \<exists>p\<in>N. owned p ip" for ip
      using inv by (auto simp: lease_inv_def live_leases_Some)
  next
    fix k1 k2 l1 l2
    assume "?m k1 = Some l1 \<and> ?m k2 = Some l2 \<and> k1 \<noteq> k2"
    then show "set (Lease_IPs l1) \<inter> set (Lease_IPs l2) = {}"
      using inv unfolding lease_inv_def live_leases_Some by blast
  qed
qed

lemma mem_inv_purge: "mem_inv a s \<Longrightarrow> mem_inv a (snd (purge_result t s))"
  using lease_inv_purge [of "nets a" "subnets s" "leases s" _ t] multi_nets_ok [of a]
    mem_ok_purge_result [of s t]
  by (simp add: handler_inv_def purge_result_def)

section \<open>The server\<close>

text \<open>Every subnet of the allocator is stored, with nothing allocated in it.\<close>

lemma new_allocators_mem_empty:
  "new_allocators mem_ips subs s = (r, s') \<Longrightarrow> (\<And>t A. subnets s t = Some A \<Longrightarrow> A = {}) \<Longrightarrow>
    leases s' = leases s \<and> (\<forall>t A. subnets s' t = Some A \<longrightarrow> A = {})"
proof (induction subs arbitrary: s r s')
  case (Cons x subs)
  obtain r1 s1 where s1: "SimpleIPAllocator mem_ips x s = (r1, s1)" by fastforce
  then have "s1 = s \<or> s1 = s\<lparr>subnets := (subnets s)(ipnet_String (Subnet_Subnet x) := Some {})\<rparr>"
    by (auto simp: SimpleIPAllocator_def mem_ips_def memoryStore_SaveSubnet_def split: sum.splits)
  then have e: "leases s1 = leases s" "\<And>t A. subnets s1 t = Some A \<Longrightarrow> A = {}"
  proof -
    show "leases s1 = leases s" using \<open>s1 = s \<or> _\<close> by auto
    fix t A assume "subnets s1 t = Some A"
    then have "subnets s t = Some A \<or> A = {}" using \<open>s1 = s \<or> _\<close> by (auto split: if_splits)
    then show "A = {}" using Cons.prems(2) by blast
  qed
  show ?case
  proof (cases r1)
    case (Inl e)
    then show ?thesis using Cons.prems(1) s1 e by auto
  next
    case (Inr a)
    obtain r2 s2 where s2: "new_allocators mem_ips subs s1 = (r2, s2)" by fastforce
    then show ?thesis using Cons.IH [OF s2 e(2)] Cons.prems(1) s1 Inr e(1) by (auto split: sum.splits)
  qed
qed auto

lemma starts_nets: "list_all2 starts as xs \<Longrightarrow> \<forall>x\<in>set xs. subnet_ok x \<Longrightarrow>
    map net_of as = map (\<lambda>x. NewPrefix (Subnet_Subnet x)) xs"
  by (induction rule: list_all2_induct) (auto simp: starts_ok)

lemma sorted_disjoint_prefix:
  "\<forall>x\<in>set xs. subnet_ok x \<Longrightarrow> sorted_wrt disjoint_nets (map Subnet_Subnet xs) \<Longrightarrow>
    sorted_wrt disjoint_nets (map (\<lambda>x. NewPrefix (Subnet_Subnet x)) (filter P xs))"
  by (induction xs) (auto simp: subnet_ok_def disjoint_nets_def NewPrefix_same)

text \<open>The subnets of the allocator are the configured ones, in 16-byte form.\<close>

lemma server_nets:
  assumes "\<forall>x\<in>set subs. subnet_ok x" "sorted_wrt disjoint_nets (map Subnet_Subnet subs)"
    "list_all2 starts (mia_m a IPv4) (filter (\<lambda>x. to4 (IP (Subnet_Subnet x)) \<noteq> None) subs)"
    "list_all2 starts (mia_m a IPv6) (filter (\<lambda>x. to4 (IP (Subnet_Subnet x)) = None) subs)"
    "\<forall>f. f \<noteq> IPv4 \<and> f \<noteq> IPv6 \<longrightarrow> mia_m a f = []"
  shows "nets_apart a" "nets a = (\<lambda>x. NewPrefix (Subnet_Subnet x)) ` set subs"
proof -
  have n: "map net_of (mia_m a IPv4) =
      map (\<lambda>x. NewPrefix (Subnet_Subnet x)) (filter (\<lambda>x. to4 (IP (Subnet_Subnet x)) \<noteq> None) subs)"
    "map net_of (mia_m a IPv6) =
      map (\<lambda>x. NewPrefix (Subnet_Subnet x)) (filter (\<lambda>x. to4 (IP (Subnet_Subnet x)) = None) subs)"
    using starts_nets [OF assms(3)] starts_nets [OF assms(4)] assms(1) by auto
  have "sorted_wrt disjoint_nets (map net_of (mia_m a f))" for f
    using sorted_disjoint_prefix [OF assms(1,2)] assms(5) n by (cases "f = IPv4"; cases "f = IPv6") auto
  then show "nets_apart a" by (simp add: nets_apart_def)
  have "nets a = set (map net_of (mia_m a IPv4)) \<union> set (map net_of (mia_m a IPv6))"
  proof -
    have "allocators a = set (mia_m a IPv4) \<union> set (mia_m a IPv6)"
    proof
      show "allocators a \<subseteq> set (mia_m a IPv4) \<union> set (mia_m a IPv6)"
      proof
        fix b assume "b \<in> allocators a"
        then obtain f where "b \<in> set (mia_m a f)" by (auto simp: allocators_def)
        then show "b \<in> set (mia_m a IPv4) \<union> set (mia_m a IPv6)"
          using assms(5) by (cases "f = IPv4"; cases "f = IPv6") auto
      qed
    qed (auto simp: allocators_def)
    then show ?thesis by (simp add: nets_def image_Un)
  qed
  then show "nets a = (\<lambda>x. NewPrefix (Subnet_Subnet x)) ` set subs"
    unfolding n set_map image_Un [symmetric] by (auto intro!: arg_cong2 [where f = image])
qed

lemma new_server_inv:
  assumes "config_ok subs"
  shows "\<exists>a s. DualStackIPAllocator mem_ips subs MemoryStore = (Inr a, s) \<and> mem_inv a s \<and> leases s = Map.empty"
proof -
  let ?P4 = "\<lambda>x. to4 (IP (Subnet_Subnet x)) \<noteq> None" and ?P6 = "\<lambda>x. to4 (IP (Subnet_Subnet x)) = None"
  have c: "subs \<noteq> []" "\<forall>x\<in>set subs. subnet_ok x \<and> Validate x = Inr ()" "\<forall>x\<in>set subs. subnet_ok x"
    "sorted_wrt disjoint_nets (map Subnet_Subnet subs)"
    using assms by (auto simp: config_ok_def)
  obtain a s where a: "DualStackIPAllocator mem_ips subs MemoryStore = (Inr a, s)" "mem_ok s"
    "leases s = leases MemoryStore" "multi_ok a"
    "list_all2 starts (mia_m a IPv4) (filter ?P4 subs)" "list_all2 starts (mia_m a IPv6) (filter ?P6 subs)"
    "\<forall>f. f \<noteq> IPv4 \<and> f \<noteq> IPv6 \<longrightarrow> mia_m a f = []"
    "\<forall>x\<in>set subs. subnets s (ipnet_String (Subnet_Subnet x)) \<noteq> None"
    using mem.DualStackIPAllocator_ok [OF c(1,2) mem_ok_MemoryStore] by blast
  note apart = server_nets(1) [OF c(3,4) a(5-7)] and N = server_nets(2) [OF c(3,4) a(5-7)]
  obtain r4 s4 where s4: "new_allocators mem_ips (filter ?P4 subs) MemoryStore = (r4, s4)" by fastforce
  obtain r6 s6 where s6: "new_allocators mem_ips (filter ?P6 subs) s4 = (r6, s6)" by fastforce
  have e4: "\<And>t A. subnets s4 t = Some A \<Longrightarrow> A = {}"
    using new_allocators_mem_empty [OF s4] by (auto simp: MemoryStore_def)
  have e6: "\<And>t A. subnets s6 t = Some A \<Longrightarrow> A = {}"
    using new_allocators_mem_empty [OF s6 e4] by auto
  have "s = s6" using a(1) s4 s6 c(1) by (auto simp: DualStackIPAllocator_def split: sum.splits)
  then have empty: "subnets s t = Some A \<Longrightarrow> A = {}" for t A using e6 by blast
  have known: "subnets s (ipnet_String p) = Some {}" if p: "p \<in> nets a" for p
  proof -
    obtain x where "x \<in> set subs" "p = NewPrefix (Subnet_Subnet x)" using p unfolding N by blast
    then show ?thesis
      using a(8) empty c(2) NewPrefix_same(8) by (fastforce simp: subnet_ok_def)
  qed
  have "leased Map.empty = {}" by (simp add: leased_def)
  then have "lease_inv (nets a) (subnets s) Map.empty" using known by (auto simp: lease_inv_def)
  moreover have "leases s = Map.empty" using a(3) by (simp add: MemoryStore_def)
  ultimately show ?thesis using a(1,2,4) apart by (auto simp: handler_inv_def)
qed

text \<open>Steps of the running server: a request that ends without a panic, or a purge (with the orders
  in which Go ranges over the two maps).\<close>

inductive server_step :: "(string \<Rightarrow> u64) \<Rightarrow> duration \<Rightarrow>
    multiIPAllocator \<times> memoryStore \<Rightarrow> multiIPAllocator \<times> memoryStore \<Rightarrow> bool"
  for strKey :: "string \<Rightarrow> u64" and d :: duration where
  request: "requestIP (mem_handler d) strKey now now' src req a s = Some (r, a', s') \<Longrightarrow>
    \<not> (\<exists>e. r = Inl (Panic e)) \<Longrightarrow> server_step strKey d (a, s) (a', s')"
| purge: "range_order ks (leases s) \<Longrightarrow> range_order ss (subnets s) \<Longrightarrow>
    memoryStore_Purge ks ss t s = (r, s') \<Longrightarrow> server_step strKey d (a, s) (a, s')"

inductive server_reach :: "Subnet list \<Rightarrow> (string \<Rightarrow> u64) \<Rightarrow> duration \<Rightarrow> multiIPAllocator \<times> memoryStore \<Rightarrow> bool"
  for subs :: "Subnet list" and strKey :: "string \<Rightarrow> u64" and d :: duration where
  start: "DualStackIPAllocator mem_ips subs MemoryStore = (Inr a, s) \<Longrightarrow> server_reach subs strKey d (a, s)"
| step: "server_reach subs strKey d x \<Longrightarrow> server_step strKey d x y \<Longrightarrow> server_reach subs strKey d y"

inductive_cases server_stepE: "server_step strKey d x y"

lemma request_step:
  assumes "mem_inv a s" "requestIP (mem_handler d) strKey now now' src req a s = Some (r, a', s')"
    "\<not> (\<exists>e. r = Inl (Panic e))"
  shows "mem_inv a' s'" "request_effect (strKey src) now d (leases s) (leases s') now' r" "dom (subnets s') = dom (subnets s)"
  using mh.requestIP_safe [OF assms(1) TrueI, of d strKey now now' src req] assms(2,3)
  by (auto simp: mem_handler_def)

lemma server_step_inv: "server_step strKey d x y \<Longrightarrow> mem_inv (fst x) (snd x) \<Longrightarrow> mem_inv (fst y) (snd y)"
proof (induction rule: server_step.induct)
  case (request now now' src req a s r a' s')
  then show ?case using request_step(1) by simp
next
  case (purge ks s ss t r s' a)
  then have "memoryStore_Purge ks ss t s = purge_result t s" by (intro Purge_eq) (simp_all add: handler_inv_def)
  then have "s' = snd (purge_result t s)" using purge(3) by (metis snd_conv)
  then show ?case using purge(4) mem_inv_purge [of a s t] by simp
qed

lemma server_reach_inv: "server_reach subs strKey d x \<Longrightarrow> config_ok subs \<Longrightarrow> mem_inv (fst x) (snd x)"
proof (induction rule: server_reach.induct)
  case (start a s)
  then show ?case using new_server_inv [of subs] by auto
next
  case (step x y)
  then show ?case using server_step_inv by blast
qed

section \<open>A small dual-stack configuration\<close>

text \<open>\<open>10.0.0.0/30\<close> without its first and last address, and \<open>fd00::/126\<close>; two clients.\<close>

definition demo_subnets :: "Subnet list" where
  "demo_subnets =
     [\<lparr>Subnet_Subnet = \<lparr>IP = [10, 0, 0, 0], Mask = CIDRMask 30 32\<rparr>, Subnet_Start = None, Subnet_End = None,
       Subnet_Reserved = [[10, 0, 0, 0], [10, 0, 0, 3]]\<rparr>,
      \<lparr>Subnet_Subnet = \<lparr>IP = 0xfd # replicate 15 0, Mask = CIDRMask 126 128\<rparr>, Subnet_Start = None,
       Subnet_End = None, Subnet_Reserved = []\<rparr>]"

definition demo_key :: "string \<Rightarrow> u64" where
  "demo_key src = (if src = ''fe80::a'' then 1 else 2)"

definition any_request :: RequestIP where
  "any_request = \<lparr>req_IPs = [], req_LeaseStart = 0, req_LeaseTime = 0\<rparr>"

definition boot :: "Subnet list \<Rightarrow> (multiIPAllocator \<times> memoryStore) option" where
  "boot subs = (case DualStackIPAllocator mem_ips subs MemoryStore of (Inr a, s) \<Rightarrow> Some (a, s) | _ \<Rightarrow> None)"

definition serve :: "(string \<Rightarrow> u64) \<Rightarrow> duration \<Rightarrow> time \<Rightarrow> string \<Rightarrow> RequestIP \<Rightarrow>
    multiIPAllocator \<times> memoryStore \<Rightarrow> (multiIPAllocator \<times> memoryStore) option" where
  "serve strKey d now src req x =
     (case x of (a, s) \<Rightarrow>
        (case requestIP (mem_handler d) strKey now now src req a s of
           Some (Inr res, a', s') \<Rightarrow> Some (a', s')
         | _ \<Rightarrow> None))"

lemma demo_config_ok: "config_ok demo_subnets"
proof -
  have "\<forall>x\<in>set demo_subnets. subnet_ok x \<and> Validate x = Inr ()" by code_simp
  moreover have "sorted_wrt disjoint_nets (map Subnet_Subnet demo_subnets)"
  proof -
    let ?p = "\<lparr>IP = [10, 0, 0, 0], Mask = CIDRMask 30 32\<rparr>"
    let ?q = "\<lparr>IP = 0xfd # replicate 15 0, Mask = CIDRMask 126 128\<rparr>"
    have n: "net_ok ?p" "net_ok ?q" and f: "is4 (IP ?p)" "\<not> is4 (IP ?q)" by code_simp+
    have "disjoint_nets ?p ?q"
      using contains_range [OF n(1)] contains_range [OF n(2)] contains_not_valid [OF n(1)] f
      unfolding disjoint_nets_def by metis
    then show ?thesis by (simp add: demo_subnets_def)
  qed
  ultimately show ?thesis by (simp add: config_ok_def demo_subnets_def)
qed

text \<open>Its first subnet alone, and the leases the two clients get from it.\<close>

definition small_subnets :: "Subnet list" where
  "small_subnets = [hd demo_subnets]"

lemma small_config_ok: "config_ok small_subnets"
  using demo_config_ok by (simp add: config_ok_def small_subnets_def demo_subnets_def)

definition small_address :: "nat \<Rightarrow> ipnet" where
  "small_address i = \<lparr>IP = v4InV6Prefix @ [10, 0, 0, of_nat i], Mask = CIDRMask 32 32\<rparr>"

definition small_lease :: "nat \<Rightarrow> lease" where
  "small_lease i = \<lparr>Lease_IPs = [small_address i], Lease_Start = 0, Lease_Length = 60 * Second\<rparr>"

lemma reach_boot: "boot subs = Some x \<Longrightarrow> server_reach subs strKey d x"
  by (auto simp: boot_def intro: server_reach.start split: sum.splits prod.splits)

lemma reach_serve:
  assumes "server_reach subs strKey d x" "serve strKey d now src req x = Some y"
  shows "server_reach subs strKey d y"
proof -
  obtain a s res a' s' where r: "x = (a, s)" "y = (a', s')"
    "requestIP (mem_handler d) strKey now now src req a s = Some (Inr res, a', s')"
    using assms(2) by (auto simp: serve_def split: prod.splits option.splits sum.splits)
  have "server_step strKey d (a, s) (a', s')" by (rule server_step.request [OF r(3)]) simp
  then show ?thesis using server_reach.step assms(1) r by blast
qed

definition demo_lease_a :: lease where
  "demo_lease_a = \<lparr>Lease_IPs = [\<lparr>IP = v4InV6Prefix @ [10, 0, 0, 1], Mask = CIDRMask 32 32\<rparr>,
     \<lparr>IP = 0xfd # replicate 15 0, Mask = CIDRMask 128 128\<rparr>], Lease_Start = 0, Lease_Length = 60 * Second\<rparr>"

definition demo_lease_b :: lease where
  "demo_lease_b = \<lparr>Lease_IPs = [\<lparr>IP = v4InV6Prefix @ [10, 0, 0, 2], Mask = CIDRMask 32 32\<rparr>,
     \<lparr>IP = 0xfd # replicate 14 0 @ [1], Mask = CIDRMask 128 128\<rparr>], Lease_Start = 0, Lease_Length = 60 * Second\<rparr>"

lemma demo_eval:
  "case boot demo_subnets of
     None \<Rightarrow> False
   | Some x0 \<Rightarrow>
       (case serve demo_key (60 * Second) 5 ''fe80::a'' any_request x0 of
          None \<Rightarrow> False
        | Some x1 \<Rightarrow>
            (case serve demo_key (60 * Second) 6 ''fe80::b'' any_request x1 of
               None \<Rightarrow> False
             | Some x2 \<Rightarrow> leases (snd x2) 1 = Some demo_lease_a \<and> leases (snd x2) 2 = Some demo_lease_b \<and>
                 mia_m (fst x2) IPv4 \<noteq> []))"
  by code_simp

lemma demo_run:
  "\<exists>a s. server_reach demo_subnets demo_key (60 * Second) (a, s) \<and>
    leases s 1 = Some demo_lease_a \<and> leases s 2 = Some demo_lease_b \<and> mia_m a IPv4 \<noteq> []"
proof -
  obtain x0 x1 x2 where x: "boot demo_subnets = Some x0"
    "serve demo_key (60 * Second) 5 ''fe80::a'' any_request x0 = Some x1"
    "serve demo_key (60 * Second) 6 ''fe80::b'' any_request x1 = Some x2"
    "leases (snd x2) 1 = Some demo_lease_a" "leases (snd x2) 2 = Some demo_lease_b" "mia_m (fst x2) IPv4 \<noteq> []"
    using demo_eval by (auto split: option.splits)
  have "server_reach demo_subnets demo_key (60 * Second) (fst x2, snd x2)"
    using reach_serve [OF reach_serve [OF reach_boot [OF x(1)] x(2)] x(3)] by simp
  then show ?thesis using x(4-6) by blast
qed

section \<open>Properties\<close>

text \<open>In every state the server reaches, through any requests and purges in any order, the leases of
  two different clients have no address in common, as a text or as an address.\<close>

theorem leases_never_share:
  assumes "config_ok subs" "server_reach subs strKey d (a, s)"
    "leases s k = Some l" "leases s k' = Some l'" "k \<noteq> k'"
    "ip \<in> set (Lease_IPs l)" "jp \<in> set (Lease_IPs l')"
  shows "ip \<noteq> jp \<and> ipnet_String ip \<noteq> ipnet_String jp"
  using handler_inv_no_share [OF server_reach_inv [OF assms(2,1), simplified] assms(3-7)] .

theorem leases_never_share_witness:
  "\<exists>a s. server_reach demo_subnets demo_key (60 * Second) (a, s) \<and> leases s 1 = Some demo_lease_a \<and>
    leases s 2 = Some demo_lease_b \<and>
    ipnet_String (Lease_IPs demo_lease_a ! 0) \<noteq> ipnet_String (Lease_IPs demo_lease_b ! 0)"
proof -
  obtain a s where r: "server_reach demo_subnets demo_key (60 * Second) (a, s)"
    "leases s 1 = Some demo_lease_a" "leases s 2 = Some demo_lease_b"
    using demo_run by blast
  have ne: "(1 :: u64) \<noteq> 2" by simp
  have m: "Lease_IPs demo_lease_a ! 0 \<in> set (Lease_IPs demo_lease_a)"
    "Lease_IPs demo_lease_b ! 0 \<in> set (Lease_IPs demo_lease_b)"
    by (simp_all add: demo_lease_a_def demo_lease_b_def)
  show ?thesis using leases_never_share [OF demo_config_ok r ne m] r by blast
qed

text \<open>In every reachable state the store's table of a configured subnet holds exactly the addresses
  of that subnet that are in some lease: nothing leaks and nothing leased counts as free.\<close>

theorem allocated_iff_leased:
  assumes "config_ok subs" "server_reach subs strKey d (a, s)" "b \<in> allocators a"
  shows "subnets s (ipnet_String (net_of b)) =
    Some (ipnet_String ` {ip. \<exists>k l. leases s k = Some l \<and> ip \<in> set (Lease_IPs l) \<and> contains (net_of b) (IP ip)})"
  using handler_inv_tables [OF server_reach_inv [OF assms(2,1), simplified] assms(3)] .

theorem allocated_iff_leased_witness:
  "\<exists>a s b. server_reach demo_subnets demo_key (60 * Second) (a, s) \<and> leases s 1 = Some demo_lease_a \<and>
    b \<in> set (mia_m a IPv4) \<and> subnets s (ipnet_String (net_of b)) =
    Some (ipnet_String ` {ip. \<exists>k l. leases s k = Some l \<and> ip \<in> set (Lease_IPs l) \<and> contains (net_of b) (IP ip)})"
proof -
  obtain a s where r: "server_reach demo_subnets demo_key (60 * Second) (a, s)"
    "leases s 1 = Some demo_lease_a" "mia_m a IPv4 \<noteq> []"
    using demo_run by blast
  then have b: "hd (mia_m a IPv4) \<in> set (mia_m a IPv4)" by simp
  then have "hd (mia_m a IPv4) \<in> allocators a" unfolding allocators_def by blast
  then show ?thesis using allocated_iff_leased [OF demo_config_ok r(1)] r(1,2) b by blast
qed

text \<open>C3: In every reachable state a request is answered: the handler returns, and unless it panics the
  state it leaves is reachable.  On success the client gets a lease with at least one address, stamped
  with the time and the configured duration, the addresses of its live lease if it had one, and no
  other client's lease is touched; an error is that no address is available, and no lease is touched by it except
  an expired one of the client.\<close>

theorem request_answered:
  assumes "config_ok subs" "server_reach subs strKey d (a, s)"
  shows "\<exists>r a' s'. requestIP (mem_handler d) strKey now now' src req a s = Some (r, a', s') \<and>
    ((\<exists>e. r = Inl (Panic e)) \<or> server_reach subs strKey d (a', s') \<and>
      request_effect (strKey src) now d (leases s) (leases s') now' r)"
proof -
  have inv: "mem_inv a s" using server_reach_inv [OF assms(2,1)] by simp
  obtain r a' s' where r: "requestIP (mem_handler d) strKey now now' src req a s = Some (r, a', s')"
    using mh.requestIP_safe [OF inv TrueI] unfolding mem_handler_def by blast
  show ?thesis
  proof (cases "\<exists>e. r = Inl (Panic e)")
    case True
    then show ?thesis using r by blast
  next
    case False
    have "server_reach subs strKey d (a', s')"
      by (rule server_reach.step [OF assms(2) server_step.request [OF r False]])
    then show ?thesis using r request_step(2) [OF inv r False] by blast
  qed
qed

theorem request_answered_witness:
  "\<exists>a s r a' s'. server_reach demo_subnets demo_key (60 * Second) (a, s) \<and>
    requestIP (mem_handler (60 * Second)) demo_key 7 7 ''fe80::a'' any_request a s = Some (r, a', s') \<and>
    ((\<exists>e. r = Inl (Panic e)) \<or> server_reach demo_subnets demo_key (60 * Second) (a', s'))"
proof -
  obtain a s where r: "server_reach demo_subnets demo_key (60 * Second) (a, s)" using demo_run by blast
  show ?thesis using request_answered [OF demo_config_ok r, of 7 7 "''fe80::a''" any_request] r by blast
qed

text \<open>When two addresses are equal, and so what a renewal may ask for, on numbers.\<close>

lemma ip_equal_valid: "valid_ip x \<Longrightarrow> ip_equal ip x \<longleftrightarrow> valid_ip ip \<and> ipval ip = ipval x"
  using ip_equal_iff [of ip x] by (auto simp: ip_equal_def valid_ip_def split: if_splits)

lemma renew_allowed_iff:
  assumes "\<forall>lip\<in>set (Lease_IPs l). valid_ip (IP lip)"
  shows "renew_allowed ips l \<longleftrightarrow> (\<forall>ip\<in>set ips. valid_ip (IP ip) \<and>
    ipval (IP ip) \<in> {0, mapped_base} \<union> (\<lambda>lip. ipval (IP lip)) ` set (Lease_IPs l))"
proof -
  have z: "valid_ip IPv4zero" "valid_ip IPv6zero" "ipval IPv4zero = mapped_base" "ipval IPv6zero = 0" by code_simp+
  have "zero_ip ip \<longleftrightarrow> valid_ip (IP ip) \<and> ipval (IP ip) \<in> {0, mapped_base}" for ip
    using ip_equal_valid z by (auto simp: zero_ip_def)
  moreover have "(\<exists>lip\<in>set (Lease_IPs l). ip_equal (IP ip) (IP lip)) \<longleftrightarrow>
      valid_ip (IP ip) \<and> ipval (IP ip) \<in> (\<lambda>lip. ipval (IP lip)) ` set (Lease_IPs l)" for ip
    using ip_equal_valid assms by auto
  ultimately show ?thesis unfolding renew_allowed_def list_all_iff list_ex_iff by blast
qed

text \<open>C16: A client with a live lease gets it renewed, with the same addresses, the time of the request and the
  configured duration, exactly when every address it names is valid and, as a number, is a zero address of either
  family or an address of its lease (so in particular when it names none); otherwise it is refused with
  \<open>ErrIPUnavailable\<close> and nothing changes.  In both cases the allocator, the tables of addresses and the other
  leases are left alone.  The addresses of the lease are valid, as those the allocator makes are.\<close>

theorem live_lease_renewed:
  assumes "leases s (strKey src) = Some l" "\<not> Lease_Expired l now" "\<forall>lip\<in>set (Lease_IPs l). valid_ip (IP lip)"
  shows "requestIP (mem_handler d) strKey now now' src req a s =
    (if \<forall>ip\<in>set (req_IPs req). valid_ip (IP ip) \<and>
          ipval (IP ip) \<in> {0, mapped_base} \<union> (\<lambda>lip. ipval (IP lip)) ` set (Lease_IPs l)
     then Some (Inr \<lparr>req_IPs = Lease_IPs l, req_LeaseStart = timeNow now', req_LeaseTime = d\<rparr>, a,
            s\<lparr>leases := (leases s)(strKey src := Some \<lparr>Lease_IPs = Lease_IPs l, Lease_Start = timeNow now',
              Lease_Length = d\<rparr>)\<rparr>)
     else Some (Inl (Err IPUnavailable), a, s))"
  unfolding renew_allowed_iff [OF assms(3), symmetric] using assms(1,2)
  by (simp add: requestIP_def mem_handler_def multi_handler_def mem_leases_def memoryStore_Lease_def
      memoryStore_SaveLease_def renewLease_def since_expired Let_def lease_restart)

theorem live_lease_renewed_witness:
  "requestIP (mem_handler 10) (\<lambda>src. 2) 12 12 ''fe80::a'' \<lparr>req_IPs = [demo_ip 9], req_LeaseStart = 0, req_LeaseTime = 0\<rparr>
      \<lparr>mia_m = (\<lambda>f. [])\<rparr> demo_store =
    Some (Inl (Err IPUnavailable), \<lparr>mia_m = (\<lambda>f. [])\<rparr>, demo_store) \<and>
   (\<exists>s'. requestIP (mem_handler 10) (\<lambda>src. 2) 12 12 ''fe80::a'' \<lparr>req_IPs = [demo_ip 2], req_LeaseStart = 0, req_LeaseTime = 0\<rparr>
      \<lparr>mia_m = (\<lambda>f. [])\<rparr> demo_store =
    Some (Inr \<lparr>req_IPs = [demo_ip 2], req_LeaseStart = timeNow 12, req_LeaseTime = 10\<rparr>, \<lparr>mia_m = (\<lambda>f. [])\<rparr>, s'))"
proof -
  let ?l = "\<lparr>Lease_IPs = [demo_ip 2], Lease_Start = 5, Lease_Length = 10\<rparr>"
  have l: "leases demo_store ((\<lambda>src. 2) ''fe80::a'') = Some ?l" "\<not> Lease_Expired ?l 12"
    by (simp_all add: demo_store_def Expired_iff)
  have v: "valid_ip (IP (demo_ip 2))" "ipval (IP (demo_ip 9)) \<notin> {0, mapped_base, ipval (IP (demo_ip 2))}" by code_simp+
  show ?thesis using live_lease_renewed [OF l, where a = "\<lparr>mia_m = (\<lambda>f. [])\<rparr>"] v by simp
qed

text \<open>The handler takes a lease for live exactly when a purge at that moment keeps it.\<close>

theorem handler_and_purge_agree:
  "(\<exists>l'. live_leases now (leases s) k = Some l' \<and> l' = l) \<longleftrightarrow>
    leases s k = Some l \<and> time_Since now (Lease_Start l + Lease_Length l) < 0"
  by (auto simp: since_expired live_leases_Some)

text \<open>C17: A request without a lease is refused before anything is allocated if it names an address that is not
  zero; otherwise it asks for the families of the zero addresses it names, or for both if it names none.\<close>

theorem new_lease_families:
  assumes "leases s (strKey src) = None"
  shows "requestIP (mem_handler d) strKey now now' src req a s =
    (if \<exists>ip\<in>set (req_IPs req). \<not> zero_ip ip then Some (Inl (Err IPUnavailable), a, s)
     else case multi_Allocate mem_ips (if req_IPs req = [] then DualStack else families_of (req_IPs req)) a s of
            None \<Rightarrow> None
          | Some (Inl e, a', s') \<Rightarrow> Some (Inl e, a', s')
          | Some (Inr None, a', s') \<Rightarrow> Some (Inl (Err IPUnavailable), a', s')
          | Some (Inr (Some ips), a', s') \<Rightarrow>
              Some (Inr \<lparr>req_IPs = ips, req_LeaseStart = timeNow now', req_LeaseTime = d\<rparr>, a',
                s'\<lparr>leases := (leases s')(strKey src := Some \<lparr>Lease_IPs = ips, Lease_Start = timeNow now',
                  Lease_Length = d\<rparr>)\<rparr>))"
  using assms
  by (auto simp: requestIP_def mem_handler_def multi_handler_def multi_IPs_def mem_leases_def memoryStore_Lease_def
      memoryStore_SaveLease_def newLease_def request_families_eq split: option.splits sum.splits)

theorem new_lease_families_witness:
  "requestIP (mem_handler 10) (\<lambda>src. 3) 12 12 ''fe80::c'' \<lparr>req_IPs = [demo_ip 9], req_LeaseStart = 0, req_LeaseTime = 0\<rparr>
      \<lparr>mia_m = (\<lambda>f. [])\<rparr> demo_store =
    Some (Inl (Err IPUnavailable), \<lparr>mia_m = (\<lambda>f. [])\<rparr>, demo_store)"
proof -
  have l: "leases demo_store ((\<lambda>src. 3) ''fe80::c'') = None" by (simp add: demo_store_def)
  have "\<not> zero_ip (demo_ip 9)" by code_simp
  then show ?thesis using new_lease_families [OF l, where a = "\<lparr>mia_m = (\<lambda>f. [])\<rparr>"] by simp
qed

text \<open>C18: \<open>Allocate\<close> over several subnets is all or nothing.  A success is one address of every subnet of the
  families asked for, each free before, and these are all that is marked; after running out or an
  error, the tables are what they were.\<close>

theorem multi_Allocate_all_or_nothing:
  assumes "multi_ok mia" "nets_apart mia" "mem_ok s" "allocate_families family = Inr fs"
  shows "\<exists>r mia' s'. multi_Allocate mem_ips family mia s = Some (r, mia', s') \<and> leases s' = leases s \<and>
    (case r of
       Inr (Some ips) \<Rightarrow> ips \<noteq> [] \<and> list_all2 owns (served mia fs) ips \<and>
         fresh_in (subnets s) (tickets (served mia fs) ips) \<and>
         subnets s' = view_add (tickets (served mia fs) ips) (subnets s)
     | Inr None \<Rightarrow> subnets s' = subnets s
     | Inl (Err e) \<Rightarrow> subnets s' = subnets s
     | Inl (Panic e) \<Rightarrow> True)"
proof -
  have "distinct fs"
    using assms(4) by (auto simp: allocate_families_def IPv4_def IPv6_def split: if_splits)
  from mem.multi_Allocate_safe [OF assms this]
  obtain r mia' s' where r: "multi_Allocate mem_ips family mia s = Some (r, mia', s')" "leases s' = leases s"
    "multi_outcome (served mia fs) (subnets s) (subnets s') r"
    by blast
  then show ?thesis
    by (intro exI [of _ r] exI [of _ mia'] exI [of _ s'])
      (auto simp: multi_outcome_def split: sum.splits option.splits fault.splits)
qed

theorem multi_Allocate_all_or_nothing_witness:
  "\<exists>a s r a' s'. DualStackIPAllocator mem_ips demo_subnets MemoryStore = (Inr a, s) \<and>
    multi_Allocate mem_ips DualStack a s = Some (r, a', s') \<and> leases s' = leases s"
proof -
  obtain a s where a: "DualStackIPAllocator mem_ips demo_subnets MemoryStore = (Inr a, s)" "mem_inv a s"
    using new_server_inv [OF demo_config_ok] by blast
  then have h: "multi_ok a" "nets_apart a" "mem_ok s" by (auto simp: handler_inv_def)
  have "allocate_families DualStack = Inr [IPv4, IPv6]"
    by (simp add: allocate_families_def DualStack_def IPv4_def IPv6_def)
  from multi_Allocate_all_or_nothing [OF h this] show ?thesis using a(1) by blast
qed

text \<open>\<open>Free\<close> takes an address of one of the allocator's subnets out of the table of that subnet and no
  other, and a second \<open>Free\<close> of it succeeds and changes nothing.\<close>

theorem multi_Free_idempotent:
  assumes "multi_ok mia" "nets_apart mia" "mem_ok s" "b \<in> set (mia_m mia f)" "owns b ip"
    "subnets s (ipnet_String (net_of b)) \<noteq> None"
  shows "\<exists>s'. multi_Free mem_ips mia ip s = (Inr (), s') \<and> leases s' = leases s \<and>
    subnets s' = view_remove (net_of b) ip (subnets s) \<and>
    (\<exists>s''. multi_Free mem_ips mia ip s' = (Inr (), s'') \<and> leases s'' = leases s' \<and> subnets s'' = subnets s')"
proof -
  obtain s1 where s1: "multi_Free mem_ips mia ip s = (Inr (), s1)" "mem_ok s1" "leases s1 = leases s"
    "subnets s1 = view_del {ticket (net_of b) ip} (subnets s)"
    using mem.multi_Free_ok [OF assms] by blast
  have "subnets s1 (ipnet_String (net_of b)) \<noteq> None"
    unfolding s1(4) using assms(6) by (simp add: view_del_def)
  then obtain s2 where "multi_Free mem_ips mia ip s1 = (Inr (), s2)" "leases s2 = leases s1"
    "subnets s2 = view_del {ticket (net_of b) ip} (subnets s1)"
    using mem.multi_Free_ok [OF assms(1,2) s1(2) assms(4,5)] by blast
  then show ?thesis using s1 by (simp add: view_remove_del view_del_del)
qed

theorem multi_Free_idempotent_witness:
  "\<exists>a s b s'. DualStackIPAllocator mem_ips demo_subnets MemoryStore = (Inr a, s) \<and> b \<in> set (mia_m a IPv4) \<and>
    multi_Free mem_ips a (alloc_addr (net_of b) (net_base (net_of b))) s = (Inr (), s')"
proof -
  obtain a s where a: "DualStackIPAllocator mem_ips demo_subnets MemoryStore = (Inr a, s)" "mem_inv a s"
    using new_server_inv [OF demo_config_ok] by blast
  then have h: "multi_ok a" "nets_apart a" "mem_ok s" by (auto simp: handler_inv_def)
  have "case DualStackIPAllocator mem_ips demo_subnets MemoryStore of (Inr a, s) \<Rightarrow> mia_m a IPv4 \<noteq> [] | _ \<Rightarrow> False"
    by code_simp
  then have "mia_m a IPv4 \<noteq> []" using a(1) by simp
  then obtain b where b: "b \<in> set (mia_m a IPv4)" using list.set_sel(1) by blast
  have o: "owns b (alloc_addr (net_of b) (net_base (net_of b)))"
    unfolding owns_def using net_base_le_last by blast
  have "net_of b \<in> nets a" using b unfolding nets_def allocators_def by blast
  then have "subnets s (ipnet_String (net_of b)) \<noteq> None"
    using a(2) by (simp add: handler_inv_def lease_inv_def)
  from multi_Free_idempotent [OF h b o this] show ?thesis using a(1) b by blast
qed

text \<open>The allocator for several subnets is made exactly when there is at least one subnet and
  \<open>Validate\<close> accepts every one.\<close>

theorem DualStack_accepts:
  assumes "\<forall>x\<in>set subs. subnet_ok x" "mem_ok s"
  shows "(\<exists>a s'. DualStackIPAllocator mem_ips subs s = (Inr a, s')) \<longleftrightarrow>
    subs \<noteq> [] \<and> (\<forall>x\<in>set subs. Validate x = Inr ())"
proof
  assume "subs \<noteq> [] \<and> (\<forall>x\<in>set subs. Validate x = Inr ())"
  then show "\<exists>a s'. DualStackIPAllocator mem_ips subs s = (Inr a, s')"
    using mem.DualStackIPAllocator_ok [of subs s] assms by blast
next
  have val: "\<forall>x\<in>set xs. Validate x = Inr ()" if "new_allocators mem_ips xs s = (Inr as, s')" for xs s as s'
    using that
  proof (induction xs arbitrary: s as)
    case (Cons x xs)
    then obtain b s1 as1 s2 where h: "SimpleIPAllocator mem_ips x s = (Inr b, s1)"
      "new_allocators mem_ips xs s1 = (Inr as1, s2)" "s2 = s'"
      by (auto split: prod.splits sum.splits)
    have "Validate x = Inr ()" using h(1) by (cases "Validate x") (auto simp: SimpleIPAllocator_def)
    then show ?case using Cons.IH h(2,3) by auto
  qed simp
  assume "\<exists>a s'. DualStackIPAllocator mem_ips subs s = (Inr a, s')"
  then obtain as4 s4 as6 s6 where "subs \<noteq> []"
    "new_allocators mem_ips (filter (\<lambda>x. to4 (IP (Subnet_Subnet x)) \<noteq> None) subs) s = (Inr as4, s4)"
    "new_allocators mem_ips (filter (\<lambda>x. to4 (IP (Subnet_Subnet x)) = None) subs) s4 = (Inr as6, s6)"
    by (auto simp: DualStackIPAllocator_def split: if_splits prod.splits sum.splits)
  then show "subs \<noteq> [] \<and> (\<forall>x\<in>set subs. Validate x = Inr ())"
    using val [of "filter (\<lambda>x. to4 (IP (Subnet_Subnet x)) \<noteq> None) subs"]
      val [of "filter (\<lambda>x. to4 (IP (Subnet_Subnet x)) = None) subs"] by fastforce
qed

theorem DualStack_accepts_witness:
  "\<exists>a s'. DualStackIPAllocator mem_ips demo_subnets MemoryStore = (Inr a, s')"
  using DualStack_accepts [OF _ mem_ok_MemoryStore, of demo_subnets] demo_config_ok
  by (auto simp: config_ok_def)

text \<open>What \<open>RequestIP\<close> answers and counts, by the result of \<open>requestIP\<close>.\<close>

lemma RequestIP_counts:
  assumes "requestIP h strKey now now' src req a s = Some (r, a', s')"
  shows "\<exists>m'. Handler_RequestIP h strKey now now' src req (Some m) a s = Some (r, Some m', a', s') \<and>
    RequestsTotal m' = inc op_request_ip (RequestsTotal m) \<and>
    ErrorsTotal m' = (case r of Inl (Err e) \<Rightarrow> inc (op_request_ip, error_type e) (ErrorsTotal m) | _ \<Rightarrow> ErrorsTotal m)"
  using assms by (cases r; cases "projl r")
    (auto simp: Handler_RequestIP_def count_request_def count_error_def split: sum.splits fault.splits)

text \<open>C19: In every state the server with the memory store reaches, \<open>RequestIP\<close> returns and adds one to the requests
  counted.  Unless the request panics, it ends in success, and no error is counted, or in \<open>ErrIPUnavailable\<close> and in no
  other error, and one error of the type \<open>ip_unavailable\<close> is counted; no other counter changes.\<close>

theorem metrics_count_requests:
  assumes "config_ok subs" "server_reach subs strKey d (a, s)"
  shows "\<exists>r m' a' s'. Handler_RequestIP (mem_handler d) strKey now now' src req (Some m) a s = Some (r, Some m', a', s') \<and>
    RequestsTotal m' = (RequestsTotal m)(''request_ip'' := RequestsTotal m ''request_ip'' + 1) \<and>
    ((\<exists>res. r = Inr res) \<and> ErrorsTotal m' = ErrorsTotal m \<or>
     r = Inl (Err IPUnavailable) \<and> ErrorsTotal m' = (ErrorsTotal m)
       ((''request_ip'', ''ip_unavailable'') := ErrorsTotal m (''request_ip'', ''ip_unavailable'') + 1) \<or>
     (\<exists>e. r = Inl (Panic e)) \<and> ErrorsTotal m' = ErrorsTotal m)"
proof -
  have inv: "mem_inv a s" using server_reach_inv [OF assms(2,1)] by simp
  obtain r a' s' where r: "requestIP (mem_handler d) strKey now now' src req a s = Some (r, a', s')"
    "(\<forall>e. r \<noteq> Inl (Panic e)) \<longrightarrow> request_effect (strKey src) now d (leases s) (leases s') now' r"
    using mh.requestIP_safe [OF inv TrueI] unfolding mem_handler_def by blast
  then have e: "r = Inl (Err e) \<Longrightarrow> e = IPUnavailable" for e by (auto simp: request_effect_def)
  obtain m' where m': "Handler_RequestIP (mem_handler d) strKey now now' src req (Some m) a s = Some (r, Some m', a', s')"
    "RequestsTotal m' = inc op_request_ip (RequestsTotal m)"
    "ErrorsTotal m' = (case r of Inl (Err e) \<Rightarrow> inc (op_request_ip, error_type e) (ErrorsTotal m) | _ \<Rightarrow> ErrorsTotal m)"
    using RequestIP_counts [OF r(1)] by blast
  then show ?thesis
    using e by (intro exI [of _ r] exI [of _ m'] exI [of _ a'] exI [of _ s'])
      (auto simp: inc_def op_request_ip_def split: sum.splits fault.splits)
qed

theorem metrics_count_requests_witness:
  "\<exists>a s r m' a' s'. server_reach demo_subnets demo_key (60 * Second) (a, s) \<and> leases s 1 = Some demo_lease_a \<and>
    Handler_RequestIP (mem_handler (60 * Second)) demo_key 7 7 ''fe80::a'' any_request
      (Some \<lparr>RequestsTotal = (\<lambda>k. 0), ErrorsTotal = (\<lambda>k. 0)\<rparr>) a s = Some (r, Some m', a', s') \<and>
    RequestsTotal m' ''request_ip'' = 1"
proof -
  obtain a s where r: "server_reach demo_subnets demo_key (60 * Second) (a, s)" "leases s 1 = Some demo_lease_a"
    using demo_run by blast
  let ?m = "\<lparr>RequestsTotal = (\<lambda>k. 0), ErrorsTotal = (\<lambda>k. 0)\<rparr>"
  obtain q m' a' s' where q: "Handler_RequestIP (mem_handler (60 * Second)) demo_key 7 7 ''fe80::a'' any_request (Some ?m) a s =
      Some (q, Some m', a', s')" "RequestsTotal m' = (RequestsTotal ?m)(''request_ip'' := RequestsTotal ?m ''request_ip'' + 1)"
    using metrics_count_requests [OF demo_config_ok r(1), of 7 7 "''fe80::a''" any_request ?m] by blast
  have "RequestsTotal m' ''request_ip'' = 1" using q(2) by simp
  then show ?thesis using r q(1) by blast
qed

end
