(* ===== verification/Ipaddr_Summary.thy ===== *)
theory Ipaddr_Summary
  imports Ipaddr_Overlap
begin

text \<open>
  \<open>Summarize\<close> of package \<open>ipaddr\<close> (vendor/github.com/mikioh/ipaddr/prefix.go): the prefixes that cover a range
  of addresses.  The two loops are shown to end and to tile the range: every address of it lies in
  exactly one of the prefixes.
\<close>

section \<open>The loops\<close>

definition ipv4Int_cmp :: "32 word \<Rightarrow> 32 word \<Rightarrow> int" where
  "ipv4Int_cmp i j = (if i < j then -1 else if j < i then 1 else 0)"

definition ipv4Int_ip :: "32 word \<Rightarrow> ip" where
  "ipv4Int_ip i = v4InV6Prefix @ be_bytes 4 (unat i)"

definition ipv4Int_prefix :: "32 word \<Rightarrow> nat \<Rightarrow> nat \<Rightarrow> prefix" where
  "ipv4Int_prefix i l z =
     (let m = CIDRMask l z
      in \<lparr>IP = (case to16 (ip_mask (ipv4Int_ip i) m) of Some x \<Rightarrow> x | None \<Rightarrow> []), Mask = m\<rparr>)"

definition ipv6Int_mask :: "nat \<Rightarrow> ipv6Int" where
  "ipv6Int_mask n = (if 64 < n then (mask64 64, mask64 (n - 64)) else (mask64 n, 0))"

definition ipv6Int_prefix :: "ipv6Int \<Rightarrow> nat \<Rightarrow> nat \<Rightarrow> prefix" where
  "ipv6Int_prefix i l z = (let m = CIDRMask l z in \<lparr>IP = ip_mask (ipv6Int_ip i) m, Mask = m\<rparr>)"

definition prefix_Last :: "prefix \<Rightarrow> ip" where
  "prefix_Last p =
     (if to4 (IP p) \<noteq> None then ipv4Int_ip (lastIPv4Int p)
      else if to16 (IP p) \<noteq> None \<and> to4 (IP p) = None then ipv6Int_ip (lastIPv6Int p)
      else [])"

definition invert :: "byte list \<Rightarrow> byte list" where
  "invert s = map (\<lambda>b. NOT b) s"

definition NumNodes :: "prefix \<Rightarrow> nat" where
  "NumNodes p = be_nat (invert (Mask p)) + 1"

text \<open>The inner loops: the shortest prefix that starts at \<open>fi\<close> and does not pass \<open>li\<close>.\<close>

fun widen4 :: "nat \<Rightarrow> 32 word \<Rightarrow> 32 word \<Rightarrow> nat" where
  "widen4 0 fi li = 0"
| "widen4 (Suc n) fi li =
     (let l = fi AND mask32 n; r = fi OR NOT (mask32 n)
      in if ipv4Int_cmp fi l \<noteq> 0 \<or> ipv4Int_cmp r li > 0 then Suc n else widen4 n fi li)"

fun widen6 :: "nat \<Rightarrow> ipv6Int \<Rightarrow> ipv6Int \<Rightarrow> nat" where
  "widen6 0 fi li = 0"
| "widen6 (Suc n) fi li =
     (let m = ipv6Int_mask n; l = (fst fi AND fst m, snd fi AND snd m);
          q = invmask n; r = (fst fi OR fst q, snd fi OR snd q)
      in if ipv6Int_cmp fi l \<noteq> 0 \<or> ipv6Int_cmp r li > 0 then Suc n else widen6 n fi li)"

section \<open>Values of the words\<close>

lemma ipv4Int_cmp_iff: "ipv4Int_cmp i j \<noteq> 0 \<longleftrightarrow> i \<noteq> j" "ipv4Int_cmp i j > 0 \<longleftrightarrow> j < i" "ipv4Int_cmp i j \<le> 0 \<longleftrightarrow> i \<le> j"
  by (auto simp: ipv4Int_cmp_def)

lemma cval_less_iff: "cval i < cval j \<longleftrightarrow> fst i < fst j \<or> fst i = fst j \<and> snd i < snd j"
  using unat64_less [of "snd i"] unat64_less [of "snd j"]
  by (auto simp: cval_def word_less_nat_alt word_unat_eq_iff)

lemma ipv6Int_cmp_iff: "ipv6Int_cmp i j \<noteq> 0 \<longleftrightarrow> i \<noteq> j" "ipv6Int_cmp i j > 0 \<longleftrightarrow> cval j < cval i"
  "ipv6Int_cmp i j \<le> 0 \<longleftrightarrow> cval i \<le> cval j"
  unfolding not_less [symmetric] cval_less_iff by (auto simp: ipv6Int_cmp_def prod_eq_iff)

lemma ipval_ipv4Int_ip: "ipval (ipv4Int_ip i) = mapped_base + unat i"
proof -
  have "be_nat (be_bytes 4 (unat i)) = unat i" using unat32_less [of i] by (simp add: be_nat_be_bytes)
  then show ?thesis by (simp add: ipv4Int_ip_def ipval_16 be_nat_prefix mapped_base_def)
qed

lemma dvd_bits: "(2 :: nat) ^ h dvd x \<longleftrightarrow> (\<forall>j<h. \<not> bit x j)"
  by (simp add: dvd_eq_mod_eq_0 flip: take_bit_eq_mod) (auto simp: bit_eq_iff bit_simps)

lemma and_mask32_dvd: "n \<le> 32 \<Longrightarrow> fi = fi AND mask32 n \<Longrightarrow> 2 ^ (32 - n) dvd unat fi"
proof -
  assume n: "n \<le> 32" and e: "fi = fi AND mask32 n"
  have "mask32 n = NOT (mask (32 - n))" using mask32_eq [OF n] by (metis bit.double_compl)
  then have "\<not> bit fi j" if "j < 32 - n" for j using that by (subst e) (auto simp: bit_simps)
  then show ?thesis by (simp add: dvd_bits bit_unat)
qed

lemma and_mask6_dvd:
  assumes n: "n \<le> 128" and e: "fi = (fst fi AND fst (ipv6Int_mask n), snd fi AND snd (ipv6Int_mask n))"
  shows "2 ^ (128 - n) dvd cval fi"
proof -
  have m: "k \<le> 64 \<Longrightarrow> mask64 k = NOT (mask (64 - k))" for k using mask64_eq [of k] by (metis bit.double_compl)
  have "\<not> bit (cval fi) j" if "j < 128 - n" for j
    using that n by (subst e) (auto simp: bit_cval ipv6Int_mask_def m bit_simps)
  then show ?thesis by (simp add: dvd_bits)
qed

lemma cval_or_invmask:
  assumes "n \<le> 128"
  shows "cval (fst i OR fst (invmask n), snd i OR snd (invmask n)) =
    cval i div 2 ^ (128 - n) * 2 ^ (128 - n) + (2 ^ (128 - n) - 1)"
proof -
  have m64: "mask64 64 = -1" by (simp add: mask64_def)
  show ?thesis
  proof (cases "64 < n")
    case True
    then show ?thesis
      using cval_or_low [of "128 - n" "fst i" "snd i"] assms by (simp add: invmask_def m64 mask64_eq)
  next
    case False
    then show ?thesis
      using cval_or_high [of "128 - n" "fst i" "snd i"] by (simp add: invmask_def m64 mask64_eq)
  qed
qed

section \<open>The inner loops\<close>

lemma widen4:
  assumes "k \<le> 32" "2 ^ (32 - k) dvd unat fi" "unat fi + (2 ^ (32 - k) - 1) \<le> unat li" "n = widen4 k fi li"
  shows "n \<le> 32 \<and> 2 ^ (32 - n) dvd unat fi \<and> unat fi + (2 ^ (32 - n) - 1) \<le> unat li"
  using assms
proof (induction k fi li rule: widen4.induct)
  case (2 k fi li)
  show ?case
  proof (cases "fi \<noteq> fi AND mask32 k \<or> li < fi OR NOT (mask32 k)")
    case True
    then show ?thesis using 2 by (simp add: Let_def ipv4Int_cmp_iff)
  next
    case False
    then have d: "2 ^ (32 - k) dvd unat fi" using and_mask32_dvd [of k fi] 2 by simp
    have "unat (fi OR NOT (mask32 k)) = unat fi + (2 ^ (32 - k) - 1)"
      using unat_or_mask [of "32 - k" fi] 2 d by (simp add: mask32_eq)
    moreover have "unat (fi OR NOT (mask32 k)) \<le> unat li" using False by (metis not_less word_le_nat_alt)
    ultimately show ?thesis
      using 2 d False by (simp add: Let_def ipv4Int_cmp_iff)
  qed
qed simp

lemma widen6:
  assumes "k \<le> 128" "2 ^ (128 - k) dvd cval fi" "cval fi + (2 ^ (128 - k) - 1) \<le> cval li" "n = widen6 k fi li"
  shows "n \<le> 128 \<and> 2 ^ (128 - n) dvd cval fi \<and> cval fi + (2 ^ (128 - n) - 1) \<le> cval li"
  using assms
proof (induction k fi li rule: widen6.induct)
  case (2 k fi li)
  let ?l = "(fst fi AND fst (ipv6Int_mask k), snd fi AND snd (ipv6Int_mask k))"
  let ?r = "(fst fi OR fst (invmask k), snd fi OR snd (invmask k))"
  show ?case
  proof (cases "fi \<noteq> ?l \<or> cval li < cval ?r")
    case True
    then have "widen6 (Suc k) fi li = Suc k" by (auto simp: Let_def ipv6Int_cmp_iff)
    then show ?thesis using 2 by simp
  next
    case False
    then have d: "2 ^ (128 - k) dvd cval fi" using and_mask6_dvd [of k fi] 2 by simp
    have "cval ?r = cval fi + (2 ^ (128 - k) - 1)" using cval_or_invmask [of k fi] 2 d by simp
    then have "cval fi + (2 ^ (128 - k) - 1) \<le> cval li" using False by simp
    moreover have "widen6 (Suc k) fi li = widen6 k fi li" using False by (simp add: Let_def ipv6Int_cmp_iff)
    ultimately show ?thesis using 2 d False by (simp add: Let_def ipv6Int_cmp_iff)
  qed
qed simp

section \<open>The prefixes they make\<close>

lemma ipv4Int_prefix:
  assumes "n \<le> 32" "2 ^ (32 - n) dvd unat fi" "p = ipv4Int_prefix fi n 32"
  shows "prefix_ok p" "is4 (IP p)" "host_bits p = 32 - n" "net_base p = mapped_base + unat fi"
proof -
  let ?x = "be_bytes 4 (unat fi)" and ?m = "cidr_bytes 4 n"
  have b: "be_nat ?x = unat fi" using unat32_less [of fi] by (simp add: be_nat_be_bytes)
  have "be_nat (bytes_and ?x ?m) = be_nat ?x"
    using be_nat_bytes_and_cidr [of ?x 4 n] assms(1,2) b by simp
  then have x: "bytes_and ?x ?m = ?x" by (simp add: be_nat_inj)
  have "ip_mask (v4InV6Prefix @ ?x) ?m = ?x" using x by (simp add: ip_mask_def Let_def)
  then have p: "p = \<lparr>IP = ipv4Int_ip fi, Mask = ?m\<rparr>"
    using assms(1,3) by (simp add: ipv4Int_prefix_def ipv4Int_ip_def Let_def CIDRMask_32 to16_def)
  have i4: "is4 (IP p)" by (simp add: p is4_def to4_def ipv4Int_ip_def)
  then show "is4 (IP p)" .
  have ones: "mask_ones (Mask p) = n" using mask_ones_cidr [of n 4] assms(1) by (simp add: p)
  have l: "length (IP p) = 16" by (simp add: p ipv4Int_ip_def)
  have ok: "net_ok p"
    using l i4 ones assms(1) by (simp add: net_ok_def valid_ip_def addr_bits_def CIDRMask_32) (simp add: p)
  show h: "host_bits p = 32 - n" using ones i4 by (simp add: host_bits_def addr_bits_def)
  have v: "ipval (IP p) = mapped_base + unat fi" by (simp add: p ipval_ipv4Int_ip)
  have "2 ^ host_bits p dvd ipval (IP p)"
    unfolding v h using assms(2) mapped_base_dvd [of "32 - n"] by (intro dvd_add) auto
  then have base: "net_base p = ipval (IP p)" by (simp add: net_base_def)
  then show "net_base p = mapped_base + unat fi" using v by simp
  show "prefix_ok p" using ok l base by (simp add: prefix_ok_def)
qed

lemma ipv6Int_prefix_eq:
  assumes "n \<le> 128" "2 ^ (128 - n) dvd cval fi"
  shows "ipv6Int_prefix fi n 128 = \<lparr>IP = ipv6Int_ip fi, Mask = cidr_bytes 16 n\<rparr>"
proof -
  let ?x = "ipv6Int_ip fi" and ?m = "cidr_bytes 16 n"
  have b: "be_nat ?x = cval fi" by (rule be_nat_ipv6Int_ip)
  have "be_nat (bytes_and ?x ?m) = be_nat ?x"
    using be_nat_bytes_and_cidr [of ?x 16 n] assms b by simp
  then have "bytes_and ?x ?m = ?x" by (simp add: be_nat_inj)
  then have "ip_mask ?x ?m = ?x" by (simp add: ip_mask_def Let_def)
  then show ?thesis using assms(1) by (simp add: ipv6Int_prefix_def Let_def CIDRMask_128)
qed

lemma ipv6Int_prefix_last:
  assumes "n \<le> 128" "2 ^ (128 - n) dvd cval fi"
  shows "cval (lastIPv6Int (ipv6Int_prefix fi n 128)) = cval fi + (2 ^ (128 - n) - 1)"
proof -
  have i: "ipToIPv6Int (ipv6Int_ip fi) = fi"
    using cval_ipToIPv6Int [of "ipv6Int_ip fi"] by (simp add: ipval_ipv6Int_ip flip: cval_inj)
  have "prefix_Len (ipv6Int_prefix fi n 128) = n"
    using mask_ones_cidr [of n 16] assms(1) by (simp add: ipv6Int_prefix_eq [OF assms] prefix_Len_def)
  then have "lastIPv6Int (ipv6Int_prefix fi n 128) = (fst fi OR fst (invmask n), snd fi OR snd (invmask n))"
    by (simp add: lastIPv6Int_def Let_def) (simp add: ipv6Int_prefix_eq [OF assms] i)
  then show ?thesis using cval_or_invmask [OF assms(1), of fi] assms(2) by simp
qed

lemma ipv6Int_prefix:
  assumes "n \<le> 128" "2 ^ (128 - n) dvd cval fi" "p = ipv6Int_prefix fi n 128" "\<not> is4 (ipv6Int_ip fi)"
  shows "prefix_ok p" "\<not> is4 (IP p)" "host_bits p = 128 - n" "net_base p = cval fi"
proof -
  have p: "p = \<lparr>IP = ipv6Int_ip fi, Mask = cidr_bytes 16 n\<rparr>"
    using ipv6Int_prefix_eq [OF assms(1,2)] assms(3) by simp
  then show i6: "\<not> is4 (IP p)" using assms(4) by simp
  have ones: "mask_ones (Mask p) = n" using mask_ones_cidr [of n 16] assms(1) by (simp add: p)
  have l: "length (IP p) = 16" by (simp add: p)
  have ok: "net_ok p"
    using l i6 ones assms(1) by (simp add: net_ok_def valid_ip_def addr_bits_def CIDRMask_128) (simp add: p)
  show h: "host_bits p = 128 - n" using ones i6 by (simp add: host_bits_def addr_bits_def)
  have v: "ipval (IP p) = cval fi" by (simp add: p ipval_ipv6Int_ip)
  then have base: "net_base p = ipval (IP p)" using assms(2) h by (simp add: net_base_def)
  then show "net_base p = cval fi" using v by simp
  show "prefix_ok p" using ok l base by (simp add: prefix_ok_def)
qed

lemma widen4_step:
  assumes "fi \<le> li" "p = ipv4Int_prefix fi (widen4 32 fi li) 32"
  shows "prefix_ok p" "is4 (IP p)" "net_base p = mapped_base + unat fi" "net_last p \<le> mapped_base + unat li"
    "mapped_base + unat (lastIPv4Int p) = net_last p" "unat fi \<le> unat (lastIPv4Int p)"
proof -
  let ?n = "widen4 32 fi li"
  have n: "?n \<le> 32 \<and> 2 ^ (32 - ?n) dvd unat fi \<and> unat fi + (2 ^ (32 - ?n) - 1) \<le> unat li"
    using assms(1) by (intro widen4 [of 32 fi li ?n]) (auto simp: word_le_nat_alt)
  then have p: "prefix_ok p" "is4 (IP p)" "host_bits p = 32 - ?n" "net_base p = mapped_base + unat fi"
    using ipv4Int_prefix [of ?n fi p] assms(2) by auto
  then show "prefix_ok p" "is4 (IP p)" "net_base p = mapped_base + unat fi" by auto
  show last: "mapped_base + unat (lastIPv4Int p) = net_last p" by (rule lastIPv4Int_value [OF p(1,2)])
  show "net_last p \<le> mapped_base + unat li"
    using n unfolding net_last_def p(3,4) by linarith
  show "unat fi \<le> unat (lastIPv4Int p)" using last net_base_le_last [of p] p(4) by simp
qed

lemma widen6_step:
  assumes "cval fi \<le> cval li" "p = ipv6Int_prefix fi (widen6 128 fi li) 128" "\<not> is4 (ipv6Int_ip fi)"
  shows "prefix_ok p" "\<not> is4 (IP p)" "net_base p = cval fi" "net_last p \<le> cval li"
    "cval (lastIPv6Int p) = net_last p" "cval fi \<le> net_last p"
proof -
  let ?n = "widen6 128 fi li"
  have n: "?n \<le> 128 \<and> 2 ^ (128 - ?n) dvd cval fi \<and> cval fi + (2 ^ (128 - ?n) - 1) \<le> cval li"
    using assms(1) by (intro widen6 [of 128 fi li ?n]) auto
  then have p: "prefix_ok p" "\<not> is4 (IP p)" "host_bits p = 128 - ?n" "net_base p = cval fi"
    using ipv6Int_prefix [of ?n fi p] assms(2,3) by auto
  then show "prefix_ok p" "\<not> is4 (IP p)" "net_base p = cval fi" by auto
  show "cval (lastIPv6Int p) = net_last p" by (rule cval_lastIPv6 [OF p(1,2)])
  show "net_last p \<le> cval li" using n unfolding net_last_def p(3,4) by linarith
  show "cval fi \<le> net_last p" using net_base_le_last [of p] p(4) by simp
qed

section \<open>The outer loops\<close>

lemma word_max_unat: "i \<noteq> 0xffffffff \<Longrightarrow> unat (i + 1 :: 32 word) = unat i + 1"
proof -
  assume "i \<noteq> 0xffffffff"
  moreover have "(0xffffffff :: 32 word) = -1" by simp
  ultimately show ?thesis by (metis add.commute add_eq_0_iff unatSuc Suc_eq_plus1)
qed

function summarizeIPv4_loop :: "32 word \<Rightarrow> 32 word \<Rightarrow> prefix list" where
  "summarizeIPv4_loop fi li =
     (if ipv4Int_cmp fi li \<le> 0 then
        let p = ipv4Int_prefix fi (widen4 32 fi li) 32; q = lastIPv4Int p
        in if q = 0xffffffff then [p] else p # summarizeIPv4_loop (q + 1) li
      else [])"
  by pat_completeness auto
termination
proof (relation "measure (\<lambda>(fi, li). 2 ^ 32 - unat fi)", simp)
  fix fi li p q
  assume h: "ipv4Int_cmp fi li \<le> 0" "p = ipv4Int_prefix fi (widen4 32 fi li) 32" "q = lastIPv4Int p"
    "q \<noteq> 0xffffffff"
  then have "unat fi \<le> unat q" "unat (q + 1) = unat q + 1"
    using widen4_step(6) [of fi li p] word_max_unat by (simp_all add: ipv4Int_cmp_iff)
  then show "((q + 1, li), fi, li) \<in> measure (\<lambda>(fi, li). 2 ^ 32 - unat fi)"
    using unat32_less [of fi] by simp
qed

lemma cval_less: "cval i < 2 ^ 128"
  using ipval_less [of "ipv6Int_ip i"] by (simp add: ipval_ipv6Int_ip)

lemma cval_max: "i \<noteq> (-1, -1) \<Longrightarrow> cval (ipv6Int_incr i) = cval i + 1"
proof -
  assume i: "i \<noteq> (-1, -1)"
  have m: "cval (-1, -1) = 2 ^ 128 - 1" by code_simp
  have "cval i \<noteq> 2 ^ 128 - 1" using i m cval_inj by metis
  then show ?thesis using cval_incr [of i] cval_less [of i] by simp
qed

function summarizeIPv6_loop :: "ipv6Int \<Rightarrow> ipv6Int \<Rightarrow> prefix list" where
  "summarizeIPv6_loop fi li =
     (if ipv6Int_cmp fi li \<le> 0 then
        let p = ipv6Int_prefix fi (widen6 128 fi li) 128; q = lastIPv6Int p
        in if q = (-1, -1) then [p] else p # summarizeIPv6_loop (ipv6Int_incr q) li
      else [])"
  by pat_completeness auto
termination
proof (relation "measure (\<lambda>(fi, li). 2 ^ 128 - cval fi)", simp)
  fix fi li p q
  assume h: "ipv6Int_cmp fi li \<le> 0" "p = ipv6Int_prefix fi (widen6 128 fi li) 128" "q = lastIPv6Int p"
    "q \<noteq> (-1, -1)"
  have "widen6 128 fi li \<le> 128 \<and> 2 ^ (128 - widen6 128 fi li) dvd cval fi"
    using widen6 [of 128 fi li "widen6 128 fi li"] h(1) by (simp add: ipv6Int_cmp_iff)
  then have "cval q = cval fi + (2 ^ (128 - widen6 128 fi li) - 1)"
    using ipv6Int_prefix_last [of "widen6 128 fi li" fi] h(2,3) by blast
  then have "cval fi \<le> cval q" by linarith
  then show "((ipv6Int_incr q, li), fi, li) \<in> measure (\<lambda>(fi, li). 2 ^ 128 - cval fi)"
    using cval_max [OF h(4)] cval_less [of fi] by simp
qed

declare summarizeIPv4_loop.simps [simp del] summarizeIPv6_loop.simps [simp del]

definition summarizeIPv4 :: "ip \<Rightarrow> ip \<Rightarrow> prefix list" where
  "summarizeIPv4 fip lip = summarizeIPv4_loop (ipToIPv4Int fip) (ipToIPv4Int lip)"

definition summarizeIPv6 :: "ip \<Rightarrow> ip \<Rightarrow> prefix list" where
  "summarizeIPv6 fip lip = summarizeIPv6_loop (ipToIPv6Int fip) (ipToIPv6Int lip)"

definition Summarize :: "ip \<Rightarrow> ip \<Rightarrow> prefix list" where
  "Summarize fst_ip lst_ip =
     (case to4 fst_ip of
        Some fip \<Rightarrow> (case to4 lst_ip of None \<Rightarrow> [] | Some lip \<Rightarrow> summarizeIPv4 fip lip)
      | None \<Rightarrow>
          (case to16 fst_ip of
             None \<Rightarrow> []
           | Some fip \<Rightarrow>
               if to4 fip \<noteq> None then []
               else case to16 lst_ip of
                      None \<Rightarrow> []
                    | Some lip \<Rightarrow> if to4 lst_ip \<noteq> None then [] else summarizeIPv6 fip lip))"

section \<open>They tile the range\<close>

text \<open>Prefixes of one family that follow each other without a gap, from \<open>v\<close> to \<open>w\<close>.\<close>

fun tiles :: "bool \<Rightarrow> prefix list \<Rightarrow> nat \<Rightarrow> nat \<Rightarrow> bool" where
  "tiles f [] v w \<longleftrightarrow> w < v"
| "tiles f (p # ps) v w \<longleftrightarrow> prefix_ok p \<and> is4 (IP p) = f \<and> net_base p = v \<and> net_last p \<le> w \<and>
     tiles f ps (Suc (net_last p)) w"

lemma summarizeIPv4_tiles:
  "tiles True (summarizeIPv4_loop fi li) (mapped_base + unat fi) (mapped_base + unat li)"
proof (induction fi li rule: summarizeIPv4_loop.induct)
  case (1 fi li)
  define p where "p = ipv4Int_prefix fi (widen4 32 fi li) 32"
  show ?case
  proof (cases "fi \<le> li")
    case True
    note s = widen4_step [OF True p_def]
    have stop: "unat li < unat (lastIPv4Int p) + 1" if "lastIPv4Int p = 0xffffffff"
      using that unat32_less [of li] by simp
    show ?thesis
    proof (cases "lastIPv4Int p = 0xffffffff")
      case last: True
      then have "summarizeIPv4_loop fi li = [p]"
        using True by (subst summarizeIPv4_loop.simps) (simp add: ipv4Int_cmp_iff Let_def flip: p_def)
      then show ?thesis using s stop [OF last] by simp
    next
      case False
      then have "summarizeIPv4_loop fi li = p # summarizeIPv4_loop (lastIPv4Int p + 1) li"
        using True by (subst summarizeIPv4_loop.simps) (simp add: ipv4Int_cmp_iff Let_def flip: p_def)
      moreover have "mapped_base + unat (lastIPv4Int p + 1) = Suc (net_last p)"
        using word_max_unat [OF False] s(5) by simp
      moreover have "tiles True (summarizeIPv4_loop (lastIPv4Int p + 1) li)
          (mapped_base + unat (lastIPv4Int p + 1)) (mapped_base + unat li)"
        using 1 [OF _ p_def refl False] True by (simp add: ipv4Int_cmp_iff)
      ultimately show ?thesis using s by simp
    qed
  next
    case False
    then have "summarizeIPv4_loop fi li = []" by (subst summarizeIPv4_loop.simps) (simp add: ipv4Int_cmp_iff)
    then show ?thesis using False by (simp add: word_le_nat_alt)
  qed
qed

lemma summarizeIPv6_tiles:
  assumes "\<forall>i. cval fi \<le> cval i \<and> cval i \<le> cval li \<longrightarrow> \<not> is4 (ipv6Int_ip i)"
  shows "tiles False (summarizeIPv6_loop fi li) (cval fi) (cval li)"
  using assms
proof (induction fi li rule: summarizeIPv6_loop.induct)
  case (1 fi li)
  define p where "p = ipv6Int_prefix fi (widen6 128 fi li) 128"
  show ?case
  proof (cases "cval fi \<le> cval li")
    case True
    note s = widen6_step [OF True p_def spec [OF 1(2), THEN mp]]
    have top: "cval (-1, -1) = 2 ^ 128 - 1" by code_simp
    show ?thesis
    proof (cases "lastIPv6Int p = (-1, -1)")
      case last: True
      then have "summarizeIPv6_loop fi li = [p]"
        using True by (subst summarizeIPv6_loop.simps) (simp add: ipv6Int_cmp_iff Let_def flip: p_def)
      moreover have "cval li < Suc (net_last p)" using s(5) last top cval_less [of li] True by simp
      ultimately show ?thesis using s True by simp
    next
      case False
      then have "summarizeIPv6_loop fi li = p # summarizeIPv6_loop (ipv6Int_incr (lastIPv6Int p)) li"
        using True by (subst summarizeIPv6_loop.simps) (simp add: ipv6Int_cmp_iff Let_def flip: p_def)
      moreover have incr: "cval (ipv6Int_incr (lastIPv6Int p)) = Suc (net_last p)"
        using cval_max [OF False] s(5) True by simp
      moreover have "tiles False (summarizeIPv6_loop (ipv6Int_incr (lastIPv6Int p)) li)
          (cval (ipv6Int_incr (lastIPv6Int p))) (cval li)"
      proof (rule 1(1) [OF _ p_def refl False])
        show "ipv6Int_cmp fi li \<le> 0" using True by (simp add: ipv6Int_cmp_iff)
        show "\<forall>i. cval (ipv6Int_incr (lastIPv6Int p)) \<le> cval i \<and> cval i \<le> cval li \<longrightarrow> \<not> is4 (ipv6Int_ip i)"
          using 1(2) incr s(6) True by auto
      qed
      ultimately show ?thesis using s True by simp
    qed
  next
    case False
    then have "summarizeIPv6_loop fi li = []" by (subst summarizeIPv6_loop.simps) (simp add: ipv6Int_cmp_iff)
    then show ?thesis using False by simp
  qed
qed

lemma ipToIPv4Int_valid:
  assumes "to4 a = Some x"
  shows "mapped_base + unat (ipToIPv4Int x) = ipval a" "ipToIPv4Int x = ipToIPv4Int a"
proof -
  have x: "length x = 4" "ipval a = mapped_base + be_nat x" using to4_Some_ipval [OF assms] by auto
  have "be_nat x < 2 ^ 32" using be_nat_less [of x] x(1) by simp
  moreover have "to4 x = Some x" using x(1) by (simp add: to4_def)
  ultimately show "mapped_base + unat (ipToIPv4Int x) = ipval a" "ipToIPv4Int x = ipToIPv4Int a"
    using x(2) assms by (simp_all add: ipToIPv4Int_def unat_of_nat)
qed

lemma Summarize_tiles:
  assumes "valid_ip a" "valid_ip b" "is4 b = is4 a"
    "\<not> is4 a \<Longrightarrow> ipval b < mapped_base \<or> mapped_base + 2 ^ 32 \<le> ipval a"
  shows "tiles (is4 a) (Summarize a b) (ipval a) (ipval b)"
proof (cases "is4 a")
  case True
  then obtain x y where x: "to4 a = Some x" "to4 b = Some y" using assms(3) by (auto simp: is4_def)
  note v = ipToIPv4Int_valid [OF x(1)] ipToIPv4Int_valid [OF x(2)]
  have "Summarize a b = summarizeIPv4_loop (ipToIPv4Int x) (ipToIPv4Int y)"
    using x by (simp add: Summarize_def summarizeIPv4_def)
  then show ?thesis using summarizeIPv4_tiles [of "ipToIPv4Int x" "ipToIPv4Int y"] True unfolding v(1,3) by simp
next
  case False
  then have l: "length a = 16" "length b = 16"
    using assms(1-3) by (auto simp: is4_def to4_def valid_ip_def split: if_splits)
  then have "Summarize a b = summarizeIPv6_loop (ipToIPv6Int a) (ipToIPv6Int b)"
    using False assms(3) by (simp add: Summarize_def summarizeIPv6_def is4_def to16_16)
  moreover have v: "cval (ipToIPv6Int a) = ipval a" "cval (ipToIPv6Int b) = ipval b"
    using cval_ipToIPv6Int l by auto
  have "\<not> is4 (ipv6Int_ip i)" if "ipval a \<le> cval i \<and> cval i \<le> ipval b" for i
    using is4_16_iff [of "ipv6Int_ip i"] assms(4) [OF False] that by (auto simp: ipval_ipv6Int_ip)
  ultimately show ?thesis
    using summarizeIPv6_tiles [of "ipToIPv6Int a" "ipToIPv6Int b"] False by (simp add: v)
qed

section \<open>Counting in tiles\<close>

lemma prefix_size: "Suc (net_last p) = net_base p + 2 ^ host_bits p"
proof -
  have "(0 :: nat) < 2 ^ host_bits p" by simp
  then show ?thesis unfolding net_last_def by linarith
qed

lemma tiles_size: "tiles f ps v w \<Longrightarrow> sum_list (map (\<lambda>p. 2 ^ host_bits p) ps) = Suc w - v"
proof (induction f ps v w rule: tiles.induct)
  case (2 f p ps v w)
  then have "sum_list (map (\<lambda>p. 2 ^ host_bits p) (p # ps)) = 2 ^ host_bits p + (Suc w - Suc (net_last p))"
    by simp
  then show ?case using 2 prefix_size [of p] by simp
qed simp

lemma tile_contains:
  "prefix_ok p \<Longrightarrow> valid_ip r \<Longrightarrow> is4 r = is4 (IP p) \<Longrightarrow> contains p r \<longleftrightarrow> net_base p \<le> ipval r \<and> ipval r \<le> net_last p"
  using contains_range [of p r] by (simp add: prefix_ok_def)

lemma filter_range_split:
  "a \<le> Suc b \<Longrightarrow> b \<le> c \<Longrightarrow> length (filter (\<lambda>r. a \<le> ipval r \<and> ipval r \<le> c) xs) =
    length (filter (\<lambda>r. a \<le> ipval r \<and> ipval r \<le> b) xs) + length (filter (\<lambda>r. Suc b \<le> ipval r \<and> ipval r \<le> c) xs)"
  by (induction xs) auto

lemma tiles_count:
  assumes "tiles f ps v w" "\<forall>r\<in>set rs. valid_ip r \<and> is4 r = f"
  shows "sum_list (map (\<lambda>p. length (filter (contains p) rs)) ps) = length (filter (\<lambda>r. v \<le> ipval r \<and> ipval r \<le> w) rs)"
  using assms
proof (induction f ps v w rule: tiles.induct)
  case (1 f v w)
  then show ?case by (auto simp: filter_empty_conv)
next
  case (2 f p ps v w)
  have "filter (contains p) rs = filter (\<lambda>r. net_base p \<le> ipval r \<and> ipval r \<le> net_last p) rs"
    using 2 tile_contains by (intro filter_cong refl) auto
  then show ?case using 2 filter_range_split [of v "net_last p" w rs] net_base_le_last [of p] by auto
qed

text \<open>\<open>NumNodes\<close> is the number of addresses of a prefix.\<close>

lemma be_nat_invert: "be_nat (invert s) + be_nat s + 1 = 256 ^ length s"
proof (induction s)
  case (Cons b s)
  have "unat (NOT b) + unat b = 255"
  proof -
    have "NOT b = 0xff - b" by (simp add: not_eq_complement)
    then have "unat (NOT b) = unat (0xff :: byte) - unat b" using unat_sub [of b "0xff"] by (simp add: word_le_nat_alt unat_byte_less less_Suc_eq_le [symmetric])
    then show ?thesis using unat_byte_less [of b] by simp
  qed
  then have "unat (NOT b) * 256 ^ length s + unat b * 256 ^ length s = 255 * 256 ^ length s"
    by (metis add_mult_distrib)
  then show ?case using Cons by (simp add: invert_def)
qed (simp add: invert_def)

lemma NumNodes_size:
  assumes "prefix_ok p"
  shows "NumNodes p = 2 ^ host_bits p"
proof -
  let ?l = "addr_bits (IP p) div 8" and ?n = "prefix_Len p"
  have m: "Mask p = cidr_bytes ?l ?n" "?n \<le> 8 * ?l" "host_bits p = 8 * ?l - ?n"
    using prefix_mask [OF assms] by (auto simp: addr_bits_def)
  let ?d = "(2 :: nat) ^ host_bits p"
  have "(256 :: nat) ^ ?l = (2 ^ 8) ^ ?l" by simp
  also have "\<dots> = 2 ^ (?n + host_bits p)" unfolding power_mult [symmetric] using m(2,3) by simp
  finally have e: "(256 :: nat) ^ ?l = 2 ^ ?n * ?d" by (simp only: power_add)
  obtain k where k: "(2 :: nat) ^ ?n = Suc k" using gr0_implies_Suc [of "2 ^ ?n"] by auto
  have d: "0 < ?d" by simp
  have "be_nat (Mask p) = (256 ^ ?l - 1) div ?d * ?d"
    using be_nat_bytes_and_cidr [of "replicate ?l 0xff" ?l ?n] bytes_and_ones [of "Mask p" ?l] m
    by (simp add: be_nat_ones)
  also have "(256 :: nat) ^ ?l - 1 = k * ?d + (?d - 1)" unfolding e k using d by simp
  also have "(k * ?d + (?d - 1)) div ?d = k + (?d - 1) div ?d" using d by (intro div_mult_self3) simp
  also have "(?d - 1) div ?d = 0" using d by (intro div_less) simp
  finally have "be_nat (Mask p) + ?d = 256 ^ ?l" unfolding e k by (simp only: add_0_left add_0_right mult_Suc add.commute)
  then show ?thesis using be_nat_invert [of "Mask p"] m(1) by (simp add: NumNodes_def)
qed

section \<open>Every address of the range once\<close>

lemma length_filter_count: "length (filter P xs) = sum_list (map (\<lambda>x. if P x then 1 else 0) xs)"
  by (induction xs) simp_all

lemma tiles_cover:
  assumes "tiles f ps v w" "valid_ip r" "is4 r = f"
  shows "length (filter (\<lambda>p. contains p r) ps) = (if v \<le> ipval r \<and> ipval r \<le> w then 1 else 0)"
proof -
  have "length (filter (\<lambda>p. contains p r) ps) = sum_list (map (\<lambda>p. length (filter (contains p) [r])) ps)"
    unfolding length_filter_count [of _ ps] by (intro arg_cong [of _ _ sum_list] map_cong refl) simp
  then show ?thesis using tiles_count [OF assms(1), of "[r]"] assms(2,3) by simp
qed

lemma tiles_prefix_ok: "tiles f ps v w \<Longrightarrow> list_all prefix_ok ps"
  by (induction f ps v w rule: tiles.induct) auto

text \<open>C35: \<open>Summarize\<close> covers a range of addresses exactly: its result consists of network prefixes, and an address
  lies in exactly one of them when it is in the range, in none when it is not.\<close>

theorem Summarize_covers:
  assumes "valid_ip a" "valid_ip b" "is4 b = is4 a"
    "is4 a \<or> ipval b < mapped_base \<or> mapped_base + 2 ^ 32 \<le> ipval a"
    "valid_ip r" "is4 r = is4 a"
  shows "list_all prefix_ok (Summarize a b) \<and> length (filter (\<lambda>p. contains p r) (Summarize a b)) =
    (if ipval a \<le> ipval r \<and> ipval r \<le> ipval b then 1 else 0)"
proof -
  have "tiles (is4 a) (Summarize a b) (ipval a) (ipval b)" using assms(4) by (intro Summarize_tiles assms) blast
  from tiles_prefix_ok [OF this] tiles_cover [OF this assms(5,6)] show ?thesis by blast
qed

theorem Summarize_covers_witness:
  "length (filter (\<lambda>p. contains p [10, 0, 0, 4]) (Summarize [10, 0, 0, 1] [10, 0, 0, 6])) = 1"
proof -
  have h: "valid_ip [10, 0, 0, 1]" "valid_ip [10, 0, 0, 6]" "is4 [10, 0, 0, 6] = is4 [10, 0, 0, 1]"
    "is4 [10, 0, 0, 1] \<or> ipval [10, 0, 0, 6] < mapped_base \<or> mapped_base + 2 ^ 32 \<le> ipval [10, 0, 0, 1]"
    "valid_ip [10, 0, 0, 4]" "is4 [10, 0, 0, 4] = is4 [10, 0, 0, 1]"
    "ipval [10, 0, 0, 1] \<le> ipval [10, 0, 0, 4] \<and> ipval [10, 0, 0, 4] \<le> ipval [10, 0, 0, 6]" by code_simp+
  show ?thesis using Summarize_covers [OF h(1-6)] unfolding if_P [OF h(7)] by blast
qed

end
