(* ===== verification/Bolt_Store.thy ===== *)
theory Bolt_Store
  imports Allocator
begin

text \<open>
  \<open>boltStore\<close> of store.go, the store in a file.  The bbolt database below it is seen through what its API
  documents: a bucket maps keys to values, \<open>ForEach\<close> visits every key once (the order is an argument),
  and a transaction that ends in an error changes nothing.  Whether a transaction can begin and commit
  is an argument \<open>tx\<close>.  A Go \<open>string\<close> and the \<open>[]byte\<close> made of it are the same text here.  The JSON form
  of a lease (encoding/json) is the parameter \<open>c\<close>: \<open>marshal\<close> and \<open>unmarshal\<close> on values of a type \<open>'v\<close>.
\<close>

section \<open>The database\<close>

record 'v bolt_db =
  bucketLeases :: "byte list \<Rightarrow> 'v option"
  bucketSubnets :: "string \<Rightarrow> string set option"

record 'v boltStore =
  bolt_db :: "'v bolt_db"
  bolt_subnets :: "string \<Rightarrow> ipnet option"

record 'v lease_codec =
  marshal :: "lease \<Rightarrow> goerr + 'v"
  unmarshal :: "'v \<Rightarrow> goerr + lease"

datatype tx = Commits | BeginFails goerr | CommitFails goerr

definition db_View :: "tx \<Rightarrow> ('d \<Rightarrow> goerr + 'a) \<Rightarrow> 'd \<Rightarrow> goerr + 'a" where
  "db_View tx fn d = (case tx of BeginFails e \<Rightarrow> Inl e | _ \<Rightarrow> fn d)"

text \<open>\<open>raise\<close> embeds the errors of the database in the errors of the function.\<close>

definition db_Update :: "(goerr \<Rightarrow> 'e) \<Rightarrow> tx \<Rightarrow> ('d \<Rightarrow> ('e + 'a) \<times> 'd) \<Rightarrow> 'd \<Rightarrow> ('e + 'a) \<times> 'd" where
  "db_Update raise tx fn d =
     (case tx of
        BeginFails e \<Rightarrow> (Inl (raise e), d)
      | _ \<Rightarrow>
          (case fn d of
             (Inl e, d') \<Rightarrow> (Inl e, d)
           | (Inr x, d') \<Rightarrow> (case tx of CommitFails e \<Rightarrow> (Inl (raise e), d) | _ \<Rightarrow> (Inr x, d'))))"

definition keyBytes :: "u64 \<Rightarrow> byte list" where
  "keyBytes k = be_bytes 8 (unat k)"

definition marshalIPNet :: "ipnet \<Rightarrow> string" where
  "marshalIPNet n = ipnet_String n"

definition unmarshalIPNet :: "string \<Rightarrow> goerr + ipnet" where
  "unmarshalIPNet b = (case ParseCIDR b of Inl e \<Rightarrow> Inl e | Inr (ip, cidr) \<Rightarrow> Inr (cidr\<lparr>IP := ip\<rparr>))"

text \<open>The subnet a store keeps in \<open>subnets\<close> is shared with the allocator, which rewrites its address to
  16 bytes; neither its text nor what it contains changes by that.\<close>

section \<open>Operations\<close>

text \<open>A file as \<open>FileStore\<close> finds it; a bucket it lacks is created.\<close>

record 'v bolt_file =
  file_leases :: "(byte list \<Rightarrow> 'v option) option"
  file_subnets :: "(string \<Rightarrow> string set option) option"

definition bucket_or_new :: "('k \<Rightarrow> 'a option) option \<Rightarrow> 'k \<Rightarrow> 'a option" where
  "bucket_or_new b = (case b of None \<Rightarrow> Map.empty | Some m \<Rightarrow> m)"

definition FileStore :: "goerr option \<Rightarrow> tx \<Rightarrow> 'v bolt_file \<Rightarrow> goerr + 'v boltStore" where
  "FileStore opened tx f =
     (case opened of
        Some e \<Rightarrow> Inl e
      | None \<Rightarrow>
          (case db_Update id tx (\<lambda>f. (Inr (), f\<lparr>file_leases := Some (bucket_or_new (file_leases f)),
                                                file_subnets := Some (bucket_or_new (file_subnets f))\<rparr>)) f of
             (Inl e, _) \<Rightarrow> Inl e
           | (Inr _, f') \<Rightarrow>
               Inr \<lparr>bolt_db = \<lparr>bucketLeases = bucket_or_new (file_leases f'),
                               bucketSubnets = bucket_or_new (file_subnets f')\<rparr>,
                    bolt_subnets = Map.empty\<rparr>))"

definition boltStore_Leases :: "'v lease_codec \<Rightarrow> tx \<Rightarrow> byte list list \<Rightarrow> 'v boltStore \<Rightarrow>
    (goerr + lease list) \<times> 'v boltStore" where
  "boltStore_Leases c tx ks s =
     (db_View tx (\<lambda>d. parse_all (unmarshal c) (List.map_filter (bucketLeases d) ks)) (bolt_db s), s)"

definition boltStore_Lease :: "'v lease_codec \<Rightarrow> tx \<Rightarrow> u64 \<Rightarrow> 'v boltStore \<Rightarrow>
    (goerr + lease option) \<times> 'v boltStore" where
  "boltStore_Lease c tx key s =
     (db_View tx (\<lambda>d. case bucketLeases d (keyBytes key) of
                        None \<Rightarrow> Inr None
                      | Some v \<Rightarrow> (case unmarshal c v of Inl e \<Rightarrow> Inl e | Inr l \<Rightarrow> Inr (Some l)))
        (bolt_db s), s)"

text \<open>An operation that updates the database of a store.\<close>

definition on_db :: "'v boltStore \<Rightarrow> 'r \<times> 'v bolt_db \<Rightarrow> 'r \<times> 'v boltStore" where
  "on_db s x = (fst x, s\<lparr>bolt_db := snd x\<rparr>)"

definition boltStore_SaveLease :: "'v lease_codec \<Rightarrow> tx \<Rightarrow> u64 \<Rightarrow> lease \<Rightarrow> 'v boltStore \<Rightarrow>
    (goerr + unit) \<times> 'v boltStore" where
  "boltStore_SaveLease c tx key l s =
     on_db s (db_Update id tx
       (\<lambda>d. case marshal c l of
              Inl e \<Rightarrow> (Inl e, d)
            | Inr lb \<Rightarrow> (Inr (), d\<lparr>bucketLeases := (bucketLeases d)(keyBytes key := Some lb)\<rparr>)) (bolt_db s))"

definition boltStore_DeleteLease :: "tx \<Rightarrow> u64 \<Rightarrow> 'v boltStore \<Rightarrow> (goerr + unit) \<times> 'v boltStore" where
  "boltStore_DeleteLease tx key s =
     on_db s (db_Update id tx
       (\<lambda>d. (Inr (), d\<lparr>bucketLeases := (bucketLeases d)(keyBytes key := None)\<rparr>)) (bolt_db s))"

definition boltStore_Subnets :: "tx \<Rightarrow> string list \<Rightarrow> 'v boltStore \<Rightarrow> (goerr + ipnet list) \<times> 'v boltStore" where
  "boltStore_Subnets tx ss s = (db_View tx (\<lambda>d. parse_all unmarshalIPNet ss) (bolt_db s), s)"

definition boltStore_SaveSubnet :: "tx \<Rightarrow> ipnet \<Rightarrow> 'v boltStore \<Rightarrow> (goerr + unit) \<times> 'v boltStore" where
  "boltStore_SaveSubnet tx sub s =
     (let s' = s\<lparr>bolt_subnets := (bolt_subnets s)(ipnet_String sub := Some sub)\<rparr>
      in on_db s' (db_Update id tx
           (\<lambda>d. (Inr (), case bucketSubnets d (marshalIPNet sub) of
                           None \<Rightarrow> d\<lparr>bucketSubnets := (bucketSubnets d)(marshalIPNet sub := Some {})\<rparr>
                         | Some A \<Rightarrow> d)) (bolt_db s')))"

definition boltStore_AllocatedIPs :: "tx \<Rightarrow> string list \<Rightarrow> ipnet \<Rightarrow> 'v boltStore \<Rightarrow>
    (goerr + ipnet list) \<times> 'v boltStore" where
  "boltStore_AllocatedIPs tx is sub s =
     (db_View tx (\<lambda>d. case bucketSubnets d (marshalIPNet sub) of
                        None \<Rightarrow> Inl (NoSuchSubnet (ipnet_String sub))
                      | Some A \<Rightarrow> parse_all unmarshalIPNet is) (bolt_db s), s)"

definition boltStore_AllocateIP :: "tx \<Rightarrow> ipnet \<Rightarrow> ipnet \<Rightarrow> 'v boltStore \<Rightarrow> (goerr + bool) \<times> 'v boltStore" where
  "boltStore_AllocateIP tx sub ip s =
     (case checkSubnetContains sub ip of
        Inl e \<Rightarrow> (Inl e, s)
      | Inr _ \<Rightarrow>
          on_db s (db_Update id tx
            (\<lambda>d. case bucketSubnets d (marshalIPNet sub) of
                   None \<Rightarrow> (Inl (NoSuchSubnet (ipnet_String sub)), d)
                 | Some A \<Rightarrow>
                     let k = marshalIPNet ip
                     in if k \<in> A then (Inr False, d)
                        else (Inr True, d\<lparr>bucketSubnets := (bucketSubnets d)(marshalIPNet sub := Some (insert k A))\<rparr>))
            (bolt_db s)))"

definition boltStore_FreeIP :: "tx \<Rightarrow> ipnet \<Rightarrow> ipnet \<Rightarrow> 'v boltStore \<Rightarrow> (goerr + unit) \<times> 'v boltStore" where
  "boltStore_FreeIP tx sub ip s =
     (case checkSubnetContains sub ip of
        Inl e \<Rightarrow> (Inl e, s)
      | Inr _ \<Rightarrow>
          on_db s (db_Update id tx
            (\<lambda>d. case bucketSubnets d (marshalIPNet sub) of
                   None \<Rightarrow> (Inl (NoSuchSubnet (ipnet_String sub)), d)
                 | Some A \<Rightarrow>
                     (Inr (), d\<lparr>bucketSubnets := (bucketSubnets d)(marshalIPNet sub := Some (A - {marshalIPNet ip}))\<rparr>))
            (bolt_db s)))"

subsection \<open>Purge\<close>

text \<open>The \<open>ForEach\<close> over the leases: the keys of the expired ones and their addresses.\<close>

fun bolt_expired :: "'v lease_codec \<Rightarrow> time \<Rightarrow> byte list list \<Rightarrow> (byte list \<Rightarrow> 'v option) \<Rightarrow>
    goerr + byte list list \<times> ipnet list" where
  "bolt_expired c t [] m = Inr ([], [])"
| "bolt_expired c t (k # ks) m =
     (case m k of
        None \<Rightarrow> bolt_expired c t ks m
      | Some v \<Rightarrow>
          (case unmarshal c v of
             Inl e \<Rightarrow> Inl e
           | Inr l \<Rightarrow>
               if \<not> Lease_Expired l t then bolt_expired c t ks m
               else (case bolt_expired c t ks m of
                       Inl e \<Rightarrow> Inl e
                     | Inr (ls, freed) \<Rightarrow> Inr (k # ls, Lease_IPs l @ freed))))"

fun delete_keys :: "'k list \<Rightarrow> ('k \<Rightarrow> 'v option) \<Rightarrow> 'k \<Rightarrow> 'v option" where
  "delete_keys [] m = m"
| "delete_keys (k # ks) m = delete_keys ks (m(k := None))"

text \<open>One subnet, every freed address; deleting from a bucket that does not exist dereferences nil.\<close>

fun bolt_sweep_freed :: "ipnet \<Rightarrow> ipnet list \<Rightarrow> (string \<Rightarrow> nat option) \<Rightarrow> (string \<Rightarrow> string set option) \<Rightarrow>
    (fault + (string \<Rightarrow> nat option)) \<times> (string \<Rightarrow> string set option)" where
  "bolt_sweep_freed sub [] stats bs = (Inr stats, bs)"
| "bolt_sweep_freed sub (f # freed) stats bs =
     (if contains sub (IP f) then
        (case bs (marshalIPNet sub) of
           None \<Rightarrow> (Inl (Panic NilDereference), bs)
         | Some A \<Rightarrow>
             bolt_sweep_freed sub freed
               (stats(ipnet_String sub := Some (Suc (case stats (ipnet_String sub) of None \<Rightarrow> 0 | Some n \<Rightarrow> n))))
               (bs(marshalIPNet sub := Some (A - {marshalIPNet f}))))
      else bolt_sweep_freed sub freed stats bs)"

fun bolt_sweep :: "ipnet list \<Rightarrow> ipnet list \<Rightarrow> (string \<Rightarrow> nat option) \<Rightarrow> (string \<Rightarrow> string set option) \<Rightarrow>
    (fault + (string \<Rightarrow> nat option)) \<times> (string \<Rightarrow> string set option)" where
  "bolt_sweep [] freed stats bs = (Inr stats, bs)"
| "bolt_sweep (sub # subs) freed stats bs =
     (case bolt_sweep_freed sub freed stats bs of
        (Inl e, bs') \<Rightarrow> (Inl e, bs')
      | (Inr stats', bs') \<Rightarrow> bolt_sweep subs freed stats' bs')"

definition boltStore_Purge :: "'v lease_codec \<Rightarrow> tx \<Rightarrow> byte list list \<Rightarrow> string list \<Rightarrow> time \<Rightarrow> 'v boltStore \<Rightarrow>
    (fault + PurgeStats) \<times> 'v boltStore" where
  "boltStore_Purge c tx ks ss t s =
     on_db s (db_Update Err tx
       (\<lambda>d. case bolt_expired c t ks (bucketLeases d) of
              Inl e \<Rightarrow> (Inl (Err e), d)
            | Inr (ls, freed) \<Rightarrow>
                (let d1 = d\<lparr>bucketLeases := delete_keys ls (bucketLeases d)\<rparr>
                 in case bolt_sweep (List.map_filter (bolt_subnets s) ss) freed Map.empty (bucketSubnets d1) of
                      (Inl e, bs) \<Rightarrow> (Inl e, d1\<lparr>bucketSubnets := bs\<rparr>)
                    | (Inr stats, bs) \<Rightarrow> (Inr \<lparr>FreedIPs = stats\<rparr>, d1\<lparr>bucketSubnets := bs\<rparr>)))
       (bolt_db s))"

text \<open>The store as the interfaces its clients are given, with transactions that end in \<open>tx\<close>.\<close>

definition bolt_ips :: "tx \<Rightarrow> 'v boltStore IPStore" where
  "bolt_ips tx = \<lparr>ip_SaveSubnet = boltStore_SaveSubnet tx, ip_AllocateIP = boltStore_AllocateIP tx,
     ip_FreeIP = boltStore_FreeIP tx\<rparr>"

definition bolt_leases :: "'v lease_codec \<Rightarrow> tx \<Rightarrow> 'v boltStore LeaseStore" where
  "bolt_leases c tx = \<lparr>ls_Lease = boltStore_Lease c tx, ls_SaveLease = boltStore_SaveLease c tx,
     ls_DeleteLease = boltStore_DeleteLease tx\<rparr>"

section \<open>What a file holds\<close>

definition bolt_leases_of :: "'v lease_codec \<Rightarrow> 'v boltStore \<Rightarrow> u64 \<Rightarrow> lease option" where
  "bolt_leases_of c s key =
     (case bucketLeases (bolt_db s) (keyBytes key) of
        None \<Rightarrow> None
      | Some v \<Rightarrow> (case unmarshal c v of Inl e \<Rightarrow> None | Inr l \<Rightarrow> Some l))"

definition bolt_view :: "'v boltStore \<Rightarrow> alloc_view" where
  "bolt_view s = bucketSubnets (bolt_db s)"

text \<open>The memory store with the same leases and tables.\<close>

definition bolt_abs :: "'v lease_codec \<Rightarrow> 'v boltStore \<Rightarrow> memoryStore" where
  "bolt_abs c s = \<lparr>leases = bolt_leases_of c s, subnets = bolt_view s\<rparr>"

definition bolt_ok :: "'v lease_codec \<Rightarrow> 'v boltStore \<Rightarrow> bool" where
  "bolt_ok c s \<longleftrightarrow> mem_ok (bolt_abs c s) \<and>
     (\<forall>k v. bucketLeases (bolt_db s) k = Some v \<longrightarrow> (\<exists>key l. k = keyBytes key \<and> unmarshal c v = Inr l)) \<and>
     (\<forall>t n. bolt_subnets s t = Some n \<longrightarrow> net_ok n \<and> t = ipnet_String n)"

text \<open>A store whose session knows the subnets with the texts \<open>N\<close>, each with its bucket.\<close>

definition bolt_ready :: "'v lease_codec \<Rightarrow> string set \<Rightarrow> 'v boltStore \<Rightarrow> bool" where
  "bolt_ready c N s \<longleftrightarrow> bolt_ok c s \<and> N \<subseteq> dom (bolt_subnets s) \<and> dom (bolt_subnets s) \<subseteq> dom (bolt_view s)"

text \<open>What the JSON form of a lease keeps: addresses of 16 bytes (4-byte ones come back with 16), and
  a start in the years that RFC 3339 can write.\<close>

definition clock_range :: "time \<Rightarrow> bool" where
  "clock_range t \<longleftrightarrow> 0 \<le> t \<and> t < 253402214400 * Second"

definition lease_storable :: "lease \<Rightarrow> bool" where
  "lease_storable l \<longleftrightarrow> clock_range (Lease_Start l) \<and> (\<forall>ip\<in>set (Lease_IPs l). length (IP ip) = 16)"

definition codec_ok :: "'v lease_codec \<Rightarrow> bool" where
  "codec_ok c \<longleftrightarrow> (\<forall>l. lease_storable l \<longrightarrow> (\<exists>v. marshal c l = Inr v \<and> unmarshal c v = Inr l))"

lemma keyBytes_inj [simp]: "keyBytes k = keyBytes k' \<longleftrightarrow> k = k'"
proof
  assume "keyBytes k = keyBytes k'"
  then have "be_nat (keyBytes k) = be_nat (keyBytes k')" by simp
  moreover have "be_nat (keyBytes k) = unat k" for k
    using unsigned_less [of k, where ?'a = nat] by (simp add: keyBytes_def be_nat_be_bytes)
  ultimately show "k = k'" by (simp add: word_unat_eq_iff)
qed simp

lemma bolt_simps [simp]:
  "leases (bolt_abs c s) = bolt_leases_of c s" "subnets (bolt_abs c s) = bolt_view s"
  by (simp_all add: bolt_abs_def)

lemma db_Update_Commits [simp]:
  "db_Update raise Commits fn d = (case fn d of (Inl e, d') \<Rightarrow> (Inl e, d) | (Inr x, d') \<Rightarrow> (Inr x, d'))"
  by (auto simp: db_Update_def split: prod.splits sum.splits)

lemma on_db_simps [simp]: "fst (on_db s x) = fst x" "bolt_db (snd (on_db s x)) = snd x"
  "bolt_subnets (snd (on_db s x)) = bolt_subnets s"
  by (simp_all add: on_db_def)

text \<open>A transaction that fails leaves the database as it was.\<close>

lemma db_Update_error: "db_Update raise tx fn d = (Inl e, d') \<Longrightarrow> d' = d"
  by (auto simp: db_Update_def split: tx.splits prod.splits sum.splits)

lemma db_Update_cases:
  "db_Update raise tx fn d = db_Update raise Commits fn d \<or> (\<exists>e. db_Update raise tx fn d = (Inl e, d))"
  by (auto simp: db_Update_def split: tx.splits prod.splits sum.splits)

lemma on_db_tx:
  "d = bolt_db s \<Longrightarrow> on_db s (db_Update raise tx fn d) = on_db s (db_Update raise Commits fn d) \<or>
    (\<exists>e. on_db s (db_Update raise tx fn d) = (Inl e, s))"
  using db_Update_cases [of raise tx fn d] by (auto simp: on_db_def simp del: db_Update_Commits)

lemma on_db_error:
  "fst (db_Update raise tx fn d) = Inl e \<Longrightarrow> snd (db_Update raise tx fn d) = d"
  "fst (db_Update raise tx fn d) = Inl e \<Longrightarrow> d = bolt_db s \<Longrightarrow> snd (on_db s (db_Update raise tx fn d)) = s"
  using db_Update_error [of raise tx fn d e] by (auto simp: on_db_def prod_eq_iff)

section \<open>It does what the memory store does\<close>

definition set_tables :: "'v boltStore \<Rightarrow> (string \<Rightarrow> string set option) \<Rightarrow> 'v boltStore" where
  "set_tables s B = s\<lparr>bolt_db := (bolt_db s)\<lparr>bucketSubnets := B\<rparr>\<rparr>"

definition in_session :: "'v boltStore \<Rightarrow> ipnet \<Rightarrow> 'v boltStore" where
  "in_session s sub = s\<lparr>bolt_subnets := (bolt_subnets s)(ipnet_String sub := Some sub)\<rparr>"

lemma set_tables_simps [simp]:
  "bolt_view (set_tables s B) = B" "bolt_subnets (set_tables s B) = bolt_subnets s"
  "bolt_leases_of c (set_tables s B) = bolt_leases_of c s" "set_tables s (bolt_view s) = s"
  "bucketLeases (bolt_db (set_tables s B)) = bucketLeases (bolt_db s)"
  by (simp_all add: set_tables_def bolt_view_def bolt_leases_of_def fun_eq_iff)

lemma in_session_simps [simp]:
  "bolt_view (in_session s sub) = bolt_view s" "bolt_db (in_session s sub) = bolt_db s"
  "bolt_leases_of c (in_session s sub) = bolt_leases_of c s"
  "bolt_subnets (in_session s sub) = (bolt_subnets s)(ipnet_String sub := Some sub)"
  by (simp_all add: in_session_def bolt_view_def bolt_leases_of_def fun_eq_iff)

text \<open>What the operations on addresses return and store when the transaction commits.\<close>

lemma bolt_AllocateIP_cases:
  "boltStore_AllocateIP Commits sub ip s =
     (if \<not> contains sub (IP ip) then (Inl (SubnetCannotContain (ipnet_String sub) (ipnet_String ip)), s)
      else if bolt_view s (ipnet_String sub) = None then (Inl (NoSuchSubnet (ipnet_String sub)), s)
      else if allocated (bolt_view s) sub ip then (Inr False, s)
      else (Inr True, set_tables s (view_insert sub ip (bolt_view s))))"
  by (auto simp: boltStore_AllocateIP_def checkSubnetContains_def on_db_def marshalIPNet_def bolt_view_def
      set_tables_def allocated_def view_insert_def Let_def split: option.splits)

lemma bolt_FreeIP_cases:
  "boltStore_FreeIP Commits sub ip s =
     (if \<not> contains sub (IP ip) then (Inl (SubnetCannotContain (ipnet_String sub) (ipnet_String ip)), s)
      else if bolt_view s (ipnet_String sub) = None then (Inl (NoSuchSubnet (ipnet_String sub)), s)
      else (Inr (), set_tables s (view_remove sub ip (bolt_view s))))"
  by (auto simp: boltStore_FreeIP_def checkSubnetContains_def on_db_def marshalIPNet_def bolt_view_def
      set_tables_def view_remove_def Let_def split: option.splits)

lemma bolt_SaveSubnet_eq:
  "boltStore_SaveSubnet Commits sub s =
     (Inr (), if bolt_view s (ipnet_String sub) = None
              then set_tables (in_session s sub) ((bolt_view s)(ipnet_String sub := Some {}))
              else in_session s sub)"
  by (auto simp: boltStore_SaveSubnet_def on_db_def marshalIPNet_def bolt_view_def set_tables_def in_session_def
      Let_def split: option.splits)

text \<open>An operation of a transaction that fails returns an error and keeps leases and tables.\<close>

lemma bolt_ips_tx:
  "boltStore_AllocateIP tx sub ip s = boltStore_AllocateIP Commits sub ip s \<or>
    (\<exists>e. boltStore_AllocateIP tx sub ip s = (Inl e, s))"
  "boltStore_FreeIP tx sub ip s = boltStore_FreeIP Commits sub ip s \<or>
    (\<exists>e. boltStore_FreeIP tx sub ip s = (Inl e, s))"
  "boltStore_SaveSubnet tx sub s = boltStore_SaveSubnet Commits sub s \<or>
    (\<exists>e. boltStore_SaveSubnet tx sub s = (Inl e, in_session s sub))"
  by (auto simp: boltStore_AllocateIP_def boltStore_FreeIP_def boltStore_SaveSubnet_def Let_def in_session_def
      simp del: db_Update_Commits split: sum.splits intro!: on_db_tx)

section \<open>The contracts\<close>

lemma bolt_ok_mem: "bolt_ok c s \<Longrightarrow> mem_ok (bolt_abs c s)"
  by (simp add: bolt_ok_def)

lemma bolt_ok_set_tables:
  "bolt_ok c s \<Longrightarrow> mem_ok m \<Longrightarrow> subnets m = B \<Longrightarrow> bolt_ok c (set_tables s B)"
  by (auto simp: bolt_ok_def mem_ok_def)

lemma bolt_ok_in_session: "bolt_ok c s \<Longrightarrow> net_ok sub \<Longrightarrow> bolt_ok c (in_session s sub)"
  by (auto simp: bolt_ok_def mem_ok_def)

lemma bolt_ok_AllocateIP:
  assumes "bolt_ok c s" "net_ok sub" "net_ok ip"
  shows "bolt_ok c (snd (boltStore_AllocateIP Commits sub ip s))"
  using mem_ok_AllocateIP [OF bolt_ok_mem [OF assms(1)] assms(2,3)] assms(1)
  by (auto simp: bolt_AllocateIP_cases AllocateIP_cases elim!: bolt_ok_set_tables)

lemma bolt_ok_FreeIP: "bolt_ok c s \<Longrightarrow> bolt_ok c (snd (boltStore_FreeIP Commits sub ip s))"
  using mem_ok_FreeIP [OF bolt_ok_mem, of c s sub ip]
  by (auto simp: bolt_FreeIP_cases FreeIP_cases elim!: bolt_ok_set_tables)

lemma bolt_ok_SaveSubnet:
  assumes "bolt_ok c s" "net_ok sub"
  shows "bolt_ok c (snd (boltStore_SaveSubnet Commits sub s))"
  using mem_ok_SaveSubnet [OF bolt_ok_mem [OF assms(1)] assms(2)] bolt_ok_in_session [OF assms]
  by (auto simp: bolt_SaveSubnet_eq memoryStore_SaveSubnet_def elim!: bolt_ok_set_tables)

lemma bolt_ips_inv:
  "bolt_ok c s \<Longrightarrow> net_ok sub \<Longrightarrow> bolt_ok c (snd (ip_SaveSubnet (bolt_ips tx) sub s))"
  "bolt_ok c s \<Longrightarrow> net_ok sub \<Longrightarrow> net_ok ip \<Longrightarrow> bolt_ok c (snd (ip_AllocateIP (bolt_ips tx) sub ip s))"
  "bolt_ok c s \<Longrightarrow> net_ok sub \<Longrightarrow> net_ok ip \<Longrightarrow> bolt_ok c (snd (ip_FreeIP (bolt_ips tx) sub ip s))"
  using bolt_ips_tx(3) [of tx sub s] bolt_ips_tx(1,2) [of tx sub ip s]
  by (auto simp: bolt_ips_def bolt_ok_SaveSubnet bolt_ok_in_session bolt_ok_AllocateIP bolt_ok_FreeIP)

lemmas bolt_effects = bolt_AllocateIP_cases bolt_FreeIP_cases bolt_SaveSubnet_eq

lemma bolt_tx_leases [simp]:
  "bolt_leases_of c (snd (boltStore_SaveSubnet tx sub s)) = bolt_leases_of c s"
  "bolt_leases_of c (snd (boltStore_AllocateIP tx sub ip s)) = bolt_leases_of c s"
  "bolt_leases_of c (snd (boltStore_FreeIP tx sub ip s)) = bolt_leases_of c s"
  using bolt_ips_tx(3) [of tx sub s] bolt_ips_tx(1,2) [of tx sub ip s] by (auto simp: bolt_effects)

lemma bolt_tx_SaveSubnet:
  "boltStore_SaveSubnet tx sub s = (r, s') \<Longrightarrow>
    (case r of Inl e \<Rightarrow> bolt_view s' = bolt_view s
     | Inr u \<Rightarrow> bolt_view s' (ipnet_String sub) \<noteq> None \<and> (\<forall>t. t \<noteq> ipnet_String sub \<longrightarrow> bolt_view s' t = bolt_view s t))"
  using bolt_ips_tx(3) [of tx sub s] by (auto simp: bolt_effects split: if_splits)

lemma bolt_tx_AllocateIP:
  "boltStore_AllocateIP tx sub ip s = (r, s') \<Longrightarrow>
    (case r of Inl e \<Rightarrow> bolt_view s' = bolt_view s
     | Inr False \<Rightarrow> bolt_view s' = bolt_view s \<and> allocated (bolt_view s) sub ip
     | Inr True \<Rightarrow> contains sub (IP ip) \<and> bolt_view s (ipnet_String sub) \<noteq> None \<and> \<not> allocated (bolt_view s) sub ip \<and>
         bolt_view s' = view_insert sub ip (bolt_view s))"
  using bolt_ips_tx(1) [of tx sub ip s] by (auto simp: bolt_effects split: if_splits)

lemma bolt_tx_FreeIP:
  "boltStore_FreeIP tx sub ip s = (r, s') \<Longrightarrow>
    (case r of Inl e \<Rightarrow> bolt_view s' = bolt_view s | Inr u \<Rightarrow> bolt_view s' = view_remove sub ip (bolt_view s))"
  using bolt_ips_tx(2) [of tx sub ip s] by (auto simp: bolt_effects split: if_splits)

text \<open>Whatever becomes of the transactions, the contract of \<open>IPStore\<close> holds.\<close>

interpretation bolt_tx: ip_store "bolt_ips tx" "bolt_ok c" bolt_view "bolt_leases_of c"
  by (unfold_locales; (rule bolt_ips_inv; assumption)?;
    insert bolt_tx_SaveSubnet bolt_tx_AllocateIP bolt_tx_FreeIP; fastforce simp: bolt_ips_def)

section \<open>Transactions that commit\<close>

lemma bolt_ready_simps:
  "bolt_ready c N s \<Longrightarrow> bolt_ok c s'  \<Longrightarrow> bolt_subnets s' = bolt_subnets s \<Longrightarrow> dom (bolt_view s) \<subseteq> dom (bolt_view s') \<Longrightarrow>
    bolt_ready c N s'"
  unfolding bolt_ready_def by (metis subset_trans)

lemma bolt_ready_ips:
  assumes "bolt_ready c N s" "net_ok sub"
  shows "bolt_ready c N (snd (boltStore_SaveSubnet Commits sub s))"
    and "net_ok ip \<Longrightarrow> bolt_ready c N (snd (boltStore_AllocateIP Commits sub ip s))"
    and "bolt_ready c N (snd (boltStore_FreeIP Commits sub ip s))"
proof -
  have ok: "bolt_ok c s" using assms(1) by (simp add: bolt_ready_def)
  show "bolt_ready c N (snd (boltStore_SaveSubnet Commits sub s))"
    using bolt_ok_SaveSubnet [OF ok assms(2)] assms(1)
    by (auto simp: bolt_ready_def bolt_effects subset_iff split: if_splits)
  show "bolt_ready c N (snd (boltStore_AllocateIP Commits sub ip s))" if "net_ok ip"
    by (rule bolt_ready_simps [OF assms(1) bolt_ok_AllocateIP [OF ok assms(2) that]])
      (auto simp: bolt_effects view_insert_def)
  show "bolt_ready c N (snd (boltStore_FreeIP Commits sub ip s))"
    by (rule bolt_ready_simps [OF assms(1) bolt_ok_FreeIP [OF ok]]) (auto simp: bolt_effects view_remove_def)
qed

interpretation bolt: reliable_ip_store "bolt_ips Commits" "bolt_ready c N" bolt_view "bolt_leases_of c"
  by (unfold_locales; (simp add: bolt_ips_def bolt_ready_ips; fail)?;
    auto simp: bolt_ips_def bolt_effects split: if_splits)

section \<open>Leases\<close>

lemma bolt_Lease_eq:
  assumes "bolt_ok c s"
  shows "boltStore_Lease c Commits key s = (Inr (bolt_leases_of c s key), s)"
proof (cases "bucketLeases (bolt_db s) (keyBytes key)")
  case (Some v)
  then obtain l where "unmarshal c v = Inr l" using assms unfolding bolt_ok_def by blast
  then show ?thesis using Some by (simp add: boltStore_Lease_def db_View_def bolt_leases_of_def)
qed (simp add: boltStore_Lease_def db_View_def bolt_leases_of_def)

definition set_leases :: "'v boltStore \<Rightarrow> (byte list \<Rightarrow> 'v option) \<Rightarrow> 'v boltStore" where
  "set_leases s B = s\<lparr>bolt_db := (bolt_db s)\<lparr>bucketLeases := B\<rparr>\<rparr>"

lemma set_leases_simps [simp]:
  "bolt_view (set_leases s B) = bolt_view s" "bolt_subnets (set_leases s B) = bolt_subnets s"
  "bucketLeases (bolt_db (set_leases s B)) = B"
  by (simp_all add: set_leases_def bolt_view_def)

lemma bolt_SaveLease_eq:
  assumes "codec_ok c" "lease_storable l"
  shows "\<exists>v. boltStore_SaveLease c Commits key l s =
      (Inr (), set_leases s ((bucketLeases (bolt_db s))(keyBytes key := Some v))) \<and> unmarshal c v = Inr l"
proof -
  obtain v where "marshal c l = Inr v" "unmarshal c v = Inr l" using assms unfolding codec_ok_def by blast
  then show ?thesis by (auto simp: boltStore_SaveLease_def on_db_def set_leases_def)
qed

lemma bolt_DeleteLease_eq:
  "boltStore_DeleteLease Commits key s =
    (Inr (), set_leases s ((bucketLeases (bolt_db s))(keyBytes key := None)))"
  by (simp add: boltStore_DeleteLease_def on_db_def set_leases_def)

lemma bolt_leases_put:
  "unmarshal c v = Inr l \<Longrightarrow> bolt_leases_of c (set_leases s ((bucketLeases (bolt_db s))(keyBytes key := Some v))) =
    (bolt_leases_of c s)(key := Some l)"
  "bolt_leases_of c (set_leases s ((bucketLeases (bolt_db s))(keyBytes key := None))) =
    (bolt_leases_of c s)(key := None)"
  by (auto simp: bolt_leases_of_def fun_eq_iff)

lemma bolt_ok_set_leases:
  "bolt_ok c s \<Longrightarrow> (\<And>k v. B k = Some v \<Longrightarrow> \<exists>key l. k = keyBytes key \<and> unmarshal c v = Inr l) \<Longrightarrow>
    bolt_ok c (set_leases s B)"
  by (simp add: bolt_ok_def mem_ok_def)

lemma bolt_ready_set_leases:
  "bolt_ready c N s \<Longrightarrow> (\<And>k v. B k = Some v \<Longrightarrow> \<exists>key l. k = keyBytes key \<and> unmarshal c v = Inr l) \<Longrightarrow>
    bolt_ready c N (set_leases s B)"
  by (simp add: bolt_ready_def bolt_ok_set_leases)

lemma bolt_ok_lease: "bolt_ok c s \<Longrightarrow> bucketLeases (bolt_db s) k = Some v \<Longrightarrow> \<exists>key l. k = keyBytes key \<and> unmarshal c v = Inr l"
  by (auto simp: bolt_ok_def)

lemma bolt_lease_store:
  assumes "codec_ok c"
  shows "lease_store (bolt_leases c Commits) lease_storable (bolt_ready c N) (bolt_leases_of c) bolt_view"
proof
  fix s :: "'a boltStore" and k assume s: "bolt_ready c N s"
  then have ok: "bolt_ok c s" by (simp add: bolt_ready_def)
  show "ls_Lease (bolt_leases c Commits) k s = (Inr (bolt_leases_of c s k), s)"
    by (simp add: bolt_leases_def bolt_Lease_eq [OF ok])
  show "\<exists>s'. ls_DeleteLease (bolt_leases c Commits) k s = (Inr (), s') \<and> bolt_ready c N s' \<and>
      bolt_leases_of c s' = (bolt_leases_of c s)(k := None) \<and> bolt_view s' = bolt_view s"
    using bolt_ok_lease [OF ok]
    by (auto simp: bolt_leases_def bolt_DeleteLease_eq bolt_leases_put split: if_splits
        intro!: bolt_ready_set_leases [OF s])
  fix l assume l: "lease_storable l"
  obtain v where v: "boltStore_SaveLease c Commits k l s =
      (Inr (), set_leases s ((bucketLeases (bolt_db s))(keyBytes k := Some v)))" "unmarshal c v = Inr l"
    using bolt_SaveLease_eq [OF assms l] by blast
  then show "\<exists>s'. ls_SaveLease (bolt_leases c Commits) k l s = (Inr (), s') \<and> bolt_ready c N s' \<and>
      bolt_leases_of c s' = (bolt_leases_of c s)(k := Some l) \<and> bolt_view s' = bolt_view s"
    using bolt_ok_lease [OF ok]
    by (auto simp: bolt_leases_def bolt_leases_put split: if_splits intro!: bolt_ready_set_leases [OF s])
qed

section \<open>Purge\<close>

lemma delete_keys_eq: "delete_keys ks m = (\<lambda>k. if k \<in> set ks then None else m k)"
  by (induction ks arbitrary: m) (auto simp: fun_eq_iff)

lemma bolt_expired_eq:
  assumes "\<forall>k\<in>set js. \<exists>v l. m (keyBytes k) = Some v \<and> unmarshal c v = Inr l \<and> L k = Some l"
  shows "bolt_expired c t (map keyBytes js) m =
    Inr (map keyBytes (filter (\<lambda>k. live_leases t L k = None) js), concat (map (expired_ips t L) js))"
  using assms by (induction js) (auto simp: live_leases_def expired_ips_def split: if_splits)

lemma bolt_sweep_freed_eq:
  assumes "bs (ipnet_String sub) = Some A" "contains cidr = contains sub"
  shows "bolt_sweep_freed sub freed stats bs =
    (case sweep_freed cidr (ipnet_String sub) freed stats A of
       (stats', A') \<Rightarrow> (Inr stats', bs(ipnet_String sub := Some A')))"
  using assms
proof (induction freed arbitrary: stats bs A)
  case (Cons f freed)
  then show ?case by (simp add: marshalIPNet_def fun_upd_same del: fun_upd_apply)
qed (simp add: fun_upd_idem)

text \<open>The sweep over the subnets of the session is that of the memory store over their texts.\<close>

lemma bolt_sweep_eq:
  assumes "\<forall>t\<in>set ss. \<exists>n. S t = Some n \<and> net_ok n \<and> t = ipnet_String n" "set ss \<subseteq> dom bs"
  shows "bolt_sweep (List.map_filter S ss) freed stats bs =
    (case purge_sweep ss freed stats bs of (r, bs') \<Rightarrow> (lift_err r, bs'))"
  using assms
proof (induction ss arbitrary: stats bs)
  case (Cons sub ss)
  obtain n where n: "S sub = Some n" "net_ok n" "sub = ipnet_String n" using Cons.prems(1) by auto
  obtain A where A: "bs sub = Some A" using Cons.prems(2) by auto
  obtain x cidr where p: "ParseCIDR sub = Inr (x, cidr)" "contains (cidr\<lparr>IP := x\<rparr>) = contains n"
    using ParseCIDR_key [OF n(2)] n(3) by blast
  obtain stats' A' where w: "sweep_freed (cidr\<lparr>IP := x\<rparr>) sub freed stats A = (stats', A')" by fastforce
  have "bolt_sweep_freed n freed stats bs = (Inr stats', bs(sub := Some A'))"
    using bolt_sweep_freed_eq [of bs n A "cidr\<lparr>IP := x\<rparr>" freed stats] A p(2) n(3) w by simp
  then show ?case using Cons.IH [of "bs(sub := Some A')" stats'] Cons.prems n p(1) A w
    by (auto simp: List.map_filter_simps simp del: fun_upd_apply)
qed (simp add: List.map_filter_simps)

lemma range_order_keys:
  assumes "range_order ks B" "\<forall>k v. B k = Some v \<longrightarrow> (\<exists>key. k = keyBytes key)"
  shows "\<exists>js. ks = map keyBytes js \<and> distinct js \<and> set js = {key. B (keyBytes key) \<noteq> None}"
proof -
  have "\<forall>k\<in>set ks. \<exists>key. k = keyBytes key" using assms by (auto simp: range_order_def)
  then have "\<exists>js. ks = map keyBytes js" by (metis ex_map_conv)
  then obtain js where js: "ks = map keyBytes js" by blast
  then have "distinct js" using assms(1) distinct_map by (auto simp: range_order_def)
  moreover have "set js = {key. B (keyBytes key) \<noteq> None}"
    using assms(1) js by (auto simp: range_order_def dom_def) (metis (mono_tags) keyBytes_inj image_iff mem_Collect_eq option.distinct(1))
  ultimately show ?thesis using js by blast
qed

text \<open>\<open>Purge\<close> drops the expired leases and frees their addresses in the subnets of this session, in
  whatever order the buckets and the map are visited.\<close>

lemma bolt_Purge_eq:
  assumes "bolt_ready c N s" "range_order ks (bucketLeases (bolt_db s))" "range_order ss (bolt_subnets s)"
  shows "\<exists>s'. boltStore_Purge c Commits ks ss t s =
      (Inr \<lparr>FreedIPs = (\<lambda>sub. if sub \<in> dom (bolt_subnets s) \<and> 0 < purged_count t (bolt_leases_of c s) sub
                             then Some (purged_count t (bolt_leases_of c s) sub) else None)\<rparr>, s') \<and>
    bolt_ready c N s' \<and> bolt_leases_of c s' = live_leases t (bolt_leases_of c s) \<and>
    bolt_view s' = (\<lambda>sub. if sub \<in> dom (bolt_subnets s)
      then map_option (\<lambda>A. A - purged_ips t (bolt_leases_of c s) sub) (bolt_view s sub) else bolt_view s sub) \<and>
    bolt_subnets s' = bolt_subnets s"
proof -
  let ?L = "bolt_leases_of c s" and ?m = "bucketLeases (bolt_db s)"
  have ok: "bolt_ok c s" using assms(1) by (simp add: bolt_ready_def)
  obtain js where js: "ks = map keyBytes js" "distinct js" "set js = {key. ?m (keyBytes key) \<noteq> None}"
    using range_order_keys [OF assms(2)] bolt_ok_lease [OF ok] by meson
  have L: "\<exists>v l. ?m (keyBytes k) = Some v \<and> unmarshal c v = Inr l \<and> ?L k = Some l" if "k \<in> set js" for k
  proof -
    obtain v where v: "?m (keyBytes k) = Some v" using \<open>k \<in> set js\<close> js(3) by auto
    then obtain l where "unmarshal c v = Inr l" using bolt_ok_lease [OF ok] by blast
    then show ?thesis using v by (simp add: bolt_leases_of_def)
  qed
  have dom: "set js = dom ?L"
  proof
    show "set js \<subseteq> dom ?L" using L by fastforce
    show "dom ?L \<subseteq> set js" using js(3) by (auto simp: bolt_leases_of_def split: option.splits)
  qed
  let ?freed = "concat (map (expired_ips t ?L) js)"
  let ?dead = "map keyBytes (filter (\<lambda>k. live_leases t ?L k = None) js)"
  have exp: "bolt_expired c t ks ?m = Inr (?dead, ?freed)"
    unfolding js(1) by (rule bolt_expired_eq) (use L in blast)
  have ss: "distinct ss" "set ss = dom (bolt_subnets s)" using assms(3) by (auto simp: range_order_def)
  have S: "\<forall>u\<in>set ss. \<exists>n. bolt_subnets s u = Some n \<and> net_ok n \<and> u = ipnet_String n"
    using ok unfolding ss(2) bolt_ok_def by blast
  have sub: "set ss \<subseteq> dom (bolt_view s)" using assms(1) unfolding ss(2) by (simp add: bolt_ready_def)
  have parse: "\<forall>u\<in>set ss. \<exists>r. ParseCIDR u = Inr r"
    using S ParseCIDR_key by metis
  have sweep: "purge_sweep ss ?freed Map.empty (bolt_view s) =
      (Inr (\<lambda>sub. if sub \<in> dom (bolt_subnets s) \<and> 0 < purged_count t ?L sub then Some (purged_count t ?L sub) else None),
       \<lambda>sub. if sub \<in> dom (bolt_subnets s) then map_option (\<lambda>A. A - purged_ips t ?L sub) (bolt_view s sub)
             else bolt_view s sub)"
    using purge_sweep_result [OF js(2) dom ss(1) parse sub, of t] unfolding ss(2) .
  let ?s' = "set_tables (set_leases s (delete_keys ?dead ?m))
    (\<lambda>sub. if sub \<in> dom (bolt_subnets s) then map_option (\<lambda>A. A - purged_ips t ?L sub) (bolt_view s sub)
           else bolt_view s sub)"
  have "boltStore_Purge c Commits ks ss t s = (Inr \<lparr>FreedIPs = (\<lambda>sub. if sub \<in> dom (bolt_subnets s) \<and>
      0 < purged_count t ?L sub then Some (purged_count t ?L sub) else None)\<rparr>, ?s')"
    using bolt_sweep_eq [OF S sub, of ?freed Map.empty] sweep exp
    by (simp add: boltStore_Purge_def on_db_def set_tables_def set_leases_def bolt_view_def Let_def)
  moreover have "bolt_leases_of c ?s' = live_leases t ?L"
    using L js(3) by (auto simp: bolt_leases_of_def delete_keys_eq live_leases_def fun_eq_iff split: option.splits)
  moreover have "bolt_ready c N ?s'"
  proof -
    have "bolt_ok c (set_leases s (delete_keys ?dead ?m))"
      using bolt_ok_lease [OF ok] by (intro bolt_ok_set_leases [OF ok]) (auto simp: delete_keys_eq split: if_splits)
    moreover have "mem_ok \<lparr>leases = ?L, subnets = bolt_view ?s'\<rparr>"
      by (rule mem_ok_mono [OF bolt_ok_mem [OF ok]]) (auto split: if_splits)
    ultimately have "bolt_ok c ?s'" by (rule bolt_ok_set_tables) simp
    then show ?thesis using assms(1) by (auto simp: bolt_ready_def split: if_splits)
  qed
  ultimately show ?thesis by (intro exI [of _ ?s']) simp
qed

section \<open>Properties of the file store\<close>

text \<open>A codec, and the file that holds what \<open>demo_store\<close> holds, after a start that knows its subnet.\<close>

definition plain_codec :: "lease lease_codec" where
  "plain_codec = \<lparr>marshal = Inr, unmarshal = Inr\<rparr>"

definition demo_bolt :: "(string \<Rightarrow> ipnet option) \<Rightarrow> lease boltStore" where
  "demo_bolt S = \<lparr>bolt_db = \<lparr>bucketLeases = [keyBytes 1 \<mapsto> \<lparr>Lease_IPs = [demo_ip 1], Lease_Start = 0, Lease_Length = 10\<rparr>,
       keyBytes 2 \<mapsto> \<lparr>Lease_IPs = [demo_ip 2], Lease_Start = 5, Lease_Length = 10\<rparr>],
     bucketSubnets = [''10.0.0.0/30'' \<mapsto> {''10.0.0.1/32'', ''10.0.0.2/32''}]\<rparr>, bolt_subnets = S\<rparr>"

lemma plain_codec_ok: "codec_ok plain_codec"
  by (simp add: codec_ok_def plain_codec_def)

lemma demo_bolt_abs: "bolt_abs plain_codec (demo_bolt S) = demo_store"
proof -
  have "bolt_leases_of plain_codec (demo_bolt S) = leases demo_store"
    by (rule ext) (simp add: bolt_leases_of_def demo_bolt_def demo_store_def plain_codec_def)
  then show ?thesis by (simp add: bolt_abs_def bolt_view_def) (simp add: demo_bolt_def demo_store_def)
qed

lemma demo_bolt_ok:
  assumes "S = Map.empty \<or> S = [''10.0.0.0/30'' \<mapsto> demo_net]"
  shows "bolt_ok plain_codec (demo_bolt S)"
  using assms demo_store_ok demo_nets_ok(1) demo_texts(1) unfolding bolt_ok_def demo_bolt_abs
  by (auto simp: demo_bolt_def plain_codec_def split: if_splits)

lemma demo_bolt_ready: "bolt_ready plain_codec {''10.0.0.0/30''} (demo_bolt [''10.0.0.0/30'' \<mapsto> demo_net])"
  using demo_bolt_ok [of "[''10.0.0.0/30'' \<mapsto> demo_net]"]
  by (auto simp: bolt_ready_def bolt_view_def demo_bolt_def)

lemma demo_bolt_orders:
  "range_order [keyBytes 1, keyBytes 2] (bucketLeases (bolt_db (demo_bolt S)))"
  "range_order [''10.0.0.0/30''] (bolt_subnets (demo_bolt [''10.0.0.0/30'' \<mapsto> demo_net]))"
  by (auto simp: range_order_def demo_bolt_def)

text \<open>A lease at a time, in the order of the keys.\<close>

lemma bolt_Leases_eq:
  assumes "bolt_ok c s" "\<forall>k\<in>set js. bolt_leases_of c s k \<noteq> None"
  shows "boltStore_Leases c Commits (map keyBytes js) s = (Inr (List.map_filter (bolt_leases_of c s) js), s)"
  using assms(2) bolt_ok_lease [OF assms(1)]
proof (induction js)
  case (Cons k js)
  then obtain l where "bolt_leases_of c s k = Some l" by auto
  moreover then obtain v where "bucketLeases (bolt_db s) (keyBytes k) = Some v" "unmarshal c v = Inr l"
    by (auto simp: bolt_leases_of_def split: option.splits sum.splits)
  ultimately show ?case using Cons by (auto simp: boltStore_Leases_def db_View_def List.map_filter_simps split: sum.splits)
qed (simp add: boltStore_Leases_def db_View_def List.map_filter_simps)

text \<open>Keys of networks without host bits: the file store gives the address in 16 bytes, the memory store masked.\<close>

lemma parse_keys_agree:
  assumes "\<forall>t\<in>set ss. \<exists>n. base_net n \<and> t = ipnet_String n"
  shows "\<exists>ns ns'. parse_all unmarshalIPNet ss = Inr ns \<and> parse_all parse_subnet_key ss = Inr ns' \<and>
    list_all2 (\<lambda>n n'. Mask n = Mask n' \<and> ip_equal (IP n) (IP n')) ns ns'"
  using assms
proof (induction ss)
  case (Cons u ss)
  then obtain n where n: "net_ok n" "ipval (IP n) = net_base n" "u = ipnet_String n" by (auto simp: base_net_def)
  obtain x cidr where p: "ParseCIDR u = Inr (x, cidr)" "to16 (IP n) = Some x"
    "cidr = \<lparr>IP = ip_mask x (Mask n), Mask = Mask n\<rparr>" "net_ok (cidr\<lparr>IP := x\<rparr>)" "contains (cidr\<lparr>IP := x\<rparr>) = contains n"
    using ParseCIDR_key [OF n(1)] n(3) by blast
  obtain y where y: "to16 (IP n) = Some y" "length y = 16" "ipval y = ipval (IP n)" "is4 y = is4 (IP n)"
    using valid_ip_to16 [of "IP n"] n(1) by (auto simp: net_ok_def)
  then have x: "valid_ip x" "ipval x = ipval (IP n)" "is4 x = is4 (IP n)" using p(2) by (auto simp: valid_ip_def)
  have "net_ok \<lparr>IP = x, Mask = Mask n\<rparr>" using p(3,4) by simp
  moreover have "net_base \<lparr>IP = x, Mask = Mask n\<rparr> = net_base n"
    using x by (simp add: net_base_def host_bits_def addr_bits_def)
  ultimately have m: "valid_ip (ip_mask x (Mask n))" "ipval (ip_mask x (Mask n)) = ipval x"
    using ip_mask_net [of "\<lparr>IP = x, Mask = Mask n\<rparr>"] n(2) x(2) by simp_all
  then have "ip_equal x (ip_mask x (Mask n))" using x(1) by (simp add: ip_equal_iff)
  then show ?case using Cons p(1,3) by (auto simp: unmarshalIPNet_def parse_subnet_key_def)
qed simp

text \<open>C22: On a transaction that commits, an operation of the file store other than \<open>Purge\<close> (C23) returns what the
  memory store with the same content returns and leaves the content the memory store leaves: \<open>Lease\<close>, \<open>SaveLease\<close> of
  a lease the codec can represent, \<open>DeleteLease\<close>, \<open>AllocateIP\<close>, \<open>FreeIP\<close>, \<open>AllocatedIPs\<close>, \<open>Leases\<close> in the same
  order of the keys, and \<open>SaveSubnet\<close> of a subnet the store does not have (C30 has the other case).  \<open>Subnets\<close> returns
  equal networks, whose addresses the two may write with 16 and with 4 bytes; its keys are networks without host bits.\<close>

theorem bolt_refines_memory:
  assumes "codec_ok c" "bolt_ok c s" "lease_storable l" "bolt_view s (ipnet_String new) = None"
    "range_order js (leases (bolt_abs c s))"
    "\<forall>t\<in>set ss. \<exists>n. base_net n \<and> t = ipnet_String n"
  shows "map_prod id (bolt_abs c) (boltStore_Lease c Commits key s) = memoryStore_Lease key (bolt_abs c s) \<and>
    map_prod id (bolt_abs c) (boltStore_SaveLease c Commits key l s) = memoryStore_SaveLease key l (bolt_abs c s) \<and>
    map_prod id (bolt_abs c) (boltStore_DeleteLease Commits key s) = memoryStore_DeleteLease key (bolt_abs c s) \<and>
    map_prod id (bolt_abs c) (boltStore_Leases c Commits (map keyBytes js) s) = memoryStore_Leases js (bolt_abs c s) \<and>
    map_prod id (bolt_abs c) (boltStore_SaveSubnet Commits new s) = memoryStore_SaveSubnet new (bolt_abs c s) \<and>
    map_prod id (bolt_abs c) (boltStore_AllocateIP Commits sub ip s) = memoryStore_AllocateIP sub ip (bolt_abs c s) \<and>
    map_prod id (bolt_abs c) (boltStore_FreeIP Commits sub ip s) = memoryStore_FreeIP sub ip (bolt_abs c s) \<and>
    map_prod id (bolt_abs c) (boltStore_AllocatedIPs Commits is sub s) = memoryStore_AllocatedIPs is sub (bolt_abs c s) \<and>
    (\<exists>ns ns'. boltStore_Subnets Commits ss s = (Inr ns, s) \<and>
       memoryStore_Subnets ss (bolt_abs c s) = (Inr ns', bolt_abs c s) \<and>
       list_all2 (\<lambda>n n'. Mask n = Mask n' \<and> ip_equal (IP n) (IP n')) ns ns')"
proof (intro conjI)
  show "map_prod id (bolt_abs c) (boltStore_SaveLease c Commits key l s) = memoryStore_SaveLease key l (bolt_abs c s)"
    using bolt_SaveLease_eq [OF assms(1,3), of key s]
    by (auto simp: memoryStore_SaveLease_def bolt_abs_def bolt_leases_put)
  have "\<forall>k\<in>set js. bolt_leases_of c s k \<noteq> None" using assms(5) by (auto simp: range_order_def)
  from bolt_Leases_eq [OF assms(2) this]
  show "map_prod id (bolt_abs c) (boltStore_Leases c Commits (map keyBytes js) s) = memoryStore_Leases js (bolt_abs c s)"
    by (simp add: memoryStore_Leases_def)
  have "unmarshalIPNet = parse_ip_key" by (simp add: unmarshalIPNet_def parse_ip_key_def fun_eq_iff)
  then show "map_prod id (bolt_abs c) (boltStore_AllocatedIPs Commits is sub s) = memoryStore_AllocatedIPs is sub (bolt_abs c s)"
    by (auto simp: boltStore_AllocatedIPs_def memoryStore_AllocatedIPs_def db_View_def marshalIPNet_def bolt_view_def
        split: option.splits)
  show "\<exists>ns ns'. boltStore_Subnets Commits ss s = (Inr ns, s) \<and>
       memoryStore_Subnets ss (bolt_abs c s) = (Inr ns', bolt_abs c s) \<and>
       list_all2 (\<lambda>n n'. Mask n = Mask n' \<and> ip_equal (IP n) (IP n')) ns ns'"
    using parse_keys_agree [OF assms(6)] by (auto simp: boltStore_Subnets_def memoryStore_Subnets_def db_View_def)
qed (use assms(4) in \<open>auto simp: bolt_Lease_eq [OF assms(2)] memoryStore_Lease_def bolt_DeleteLease_eq bolt_leases_put
    memoryStore_DeleteLease_def bolt_effects memoryStore_SaveSubnet_def AllocateIP_cases FreeIP_cases bolt_abs_def\<close>)

theorem bolt_refines_memory_witness:
  "map_prod id (bolt_abs plain_codec) (boltStore_AllocateIP Commits demo_net (demo_ip 3) (demo_bolt Map.empty)) =
    memoryStore_AllocateIP demo_net (demo_ip 3) demo_store \<and>
   map_prod id (bolt_abs plain_codec) (boltStore_Leases plain_codec Commits [keyBytes 2, keyBytes 1] (demo_bolt Map.empty)) =
    memoryStore_Leases [2, 1] demo_store"
proof -
  have l: "lease_storable \<lparr>Lease_IPs = [], Lease_Start = 0, Lease_Length = 0\<rparr>"
    by (simp add: lease_storable_def clock_range_def Second_def)
  have n: "bolt_view (demo_bolt Map.empty) (ipnet_String (demo_ip 1)) = None"
    by (simp add: bolt_view_def demo_bolt_def demo_texts)
  have js: "range_order [2, 1] (leases (bolt_abs plain_codec (demo_bolt Map.empty)))"
    unfolding demo_bolt_abs by (auto simp: range_order_def demo_store_def)
  have ss: "\<forall>t\<in>set [''10.0.0.0/30'']. \<exists>n. base_net n \<and> t = ipnet_String n"
  proof -
    have "ipval (IP demo_net) = net_base demo_net" by code_simp
    then have "base_net demo_net" using demo_nets_ok(1) by (simp add: base_net_def)
    then show ?thesis by (auto simp: demo_texts intro!: exI [of _ demo_net])
  qed
  show ?thesis
    using bolt_refines_memory [OF plain_codec_ok demo_bolt_ok l n js ss] unfolding demo_bolt_abs by simp
qed

text \<open>C30: \<open>SaveSubnet\<close> of a subnet the store already has: the file store keeps its allocated addresses,
  the memory store forgets them all.\<close>

theorem SaveSubnet_again:
  assumes "allocated (bolt_view s) sub ip"
  shows "bolt_view (snd (boltStore_SaveSubnet Commits sub s)) = bolt_view s \<and>
    \<not> allocated (subnets (snd (memoryStore_SaveSubnet sub (bolt_abs c s)))) sub ip"
  using assms by (auto simp: bolt_effects memoryStore_SaveSubnet_def allocated_def split: option.splits)

theorem SaveSubnet_again_witness:
  "bolt_view (snd (boltStore_SaveSubnet Commits demo_net (demo_bolt Map.empty))) = bolt_view (demo_bolt Map.empty) \<and>
    \<not> allocated (subnets (snd (memoryStore_SaveSubnet demo_net demo_store))) demo_net (demo_ip 1)"
proof -
  have "allocated (bolt_view (demo_bolt Map.empty)) demo_net (demo_ip 1)"
    by (simp add: allocated_def bolt_view_def demo_bolt_def demo_texts)
  from SaveSubnet_again [OF this, of plain_codec] show ?thesis unfolding demo_bolt_abs by simp
qed

text \<open>A transaction that fails makes its operation fail, and an operation that fails keeps the database.\<close>

lemma db_Update_fails: "tx \<noteq> Commits \<Longrightarrow> \<exists>e. fst (db_Update raise tx fn d) = Inl e"
  by (cases tx) (auto simp: db_Update_def split: prod.splits sum.splits)

lemma bolt_errors_keep:
  "fst (boltStore_AllocateIP tx sub ip s) = Inl e \<Longrightarrow> snd (boltStore_AllocateIP tx sub ip s) = s"
  "fst (boltStore_FreeIP tx sub ip s) = Inl e \<Longrightarrow> snd (boltStore_FreeIP tx sub ip s) = s"
  "fst (boltStore_SaveSubnet tx sub s) = Inl e \<Longrightarrow> bolt_db (snd (boltStore_SaveSubnet tx sub s)) = bolt_db s"
  unfolding boltStore_SaveSubnet_def boltStore_AllocateIP_def boltStore_FreeIP_def Let_def
  by (auto simp del: db_Update_Commits split: sum.splits dest: on_db_error)

lemma bolt_errors_keep_rest:
  "fst (boltStore_SaveLease c tx key l s) = Inl e \<Longrightarrow> snd (boltStore_SaveLease c tx key l s) = s"
  "fst (boltStore_DeleteLease tx key s) = Inl e \<Longrightarrow> snd (boltStore_DeleteLease tx key s) = s"
  "fst (boltStore_Purge c tx ks ss t s) = Inl e' \<Longrightarrow> snd (boltStore_Purge c tx ks ss t s) = s"
  unfolding boltStore_SaveLease_def boltStore_DeleteLease_def boltStore_Purge_def
  by (auto simp del: db_Update_Commits split: sum.splits dest: on_db_error)

text \<open>C27: The errors of a well-formed file store in which the subnets of the session have buckets: \<open>AllocateIP\<close> and
  \<open>FreeIP\<close> return one exactly when the subnet does not contain the address or has no bucket, or the transaction fails;
  \<open>SaveLease\<close> exactly when the lease has no JSON form or the transaction fails; \<open>DeleteLease\<close>, \<open>SaveSubnet\<close> and, for any
  order of the keys, \<open>Purge\<close> exactly when the transaction fails.  Such a call has changed nothing in the database.\<close>

theorem bolt_error_keeps_database:
  assumes "bolt_ready c N s" "range_order ks (bucketLeases (bolt_db s))" "range_order ss (bolt_subnets s)"
  shows "((\<exists>e. fst (boltStore_AllocateIP tx sub ip s) = Inl e) \<longleftrightarrow>
      tx \<noteq> Commits \<or> \<not> contains sub (IP ip) \<or> bolt_view s (ipnet_String sub) = None) \<and>
    ((\<exists>e. fst (boltStore_FreeIP tx sub ip s) = Inl e) \<longleftrightarrow>
      tx \<noteq> Commits \<or> \<not> contains sub (IP ip) \<or> bolt_view s (ipnet_String sub) = None) \<and>
    ((\<exists>e. fst (boltStore_SaveLease c tx key l s) = Inl e) \<longleftrightarrow> tx \<noteq> Commits \<or> (\<exists>e. marshal c l = Inl e)) \<and>
    ((\<exists>e. fst (boltStore_DeleteLease tx key s) = Inl e) \<longleftrightarrow> tx \<noteq> Commits) \<and>
    ((\<exists>e. fst (boltStore_SaveSubnet tx sub s) = Inl e) \<longleftrightarrow> tx \<noteq> Commits) \<and>
    ((\<exists>e. fst (boltStore_Purge c tx ks ss t s) = Inl e) \<longleftrightarrow> tx \<noteq> Commits) \<and>
    (\<forall>e. (fst (boltStore_AllocateIP tx sub ip s) = Inl e \<longrightarrow> snd (boltStore_AllocateIP tx sub ip s) = s) \<and>
      (fst (boltStore_FreeIP tx sub ip s) = Inl e \<longrightarrow> snd (boltStore_FreeIP tx sub ip s) = s) \<and>
      (fst (boltStore_SaveLease c tx key l s) = Inl e \<longrightarrow> snd (boltStore_SaveLease c tx key l s) = s) \<and>
      (fst (boltStore_DeleteLease tx key s) = Inl e \<longrightarrow> snd (boltStore_DeleteLease tx key s) = s) \<and>
      (fst (boltStore_SaveSubnet tx sub s) = Inl e \<longrightarrow> bolt_db (snd (boltStore_SaveSubnet tx sub s)) = bolt_db s)) \<and>
    (\<forall>e. fst (boltStore_Purge c tx ks ss t s) = Inl e \<longrightarrow> snd (boltStore_Purge c tx ks ss t s) = s)"
proof -
  obtain s' stats where p: "boltStore_Purge c Commits ks ss t s = (Inr stats, s')"
    using bolt_Purge_eq [OF assms, of t] by blast
  have "(\<exists>e. fst (boltStore_Purge c tx ks ss t s) = Inl e) \<longleftrightarrow> tx \<noteq> Commits"
    using p by (cases "tx = Commits") (auto simp: boltStore_Purge_def db_Update_fails simp del: db_Update_Commits)
  moreover have "(\<exists>e. fst (boltStore_AllocateIP tx sub ip s) = Inl e) \<longleftrightarrow>
      tx \<noteq> Commits \<or> \<not> contains sub (IP ip) \<or> bolt_view s (ipnet_String sub) = None"
    by (cases "tx = Commits"; cases "contains sub (IP ip)")
      (auto simp: bolt_AllocateIP_cases, auto simp: boltStore_AllocateIP_def checkSubnetContains_def db_Update_fails
        simp del: db_Update_Commits)
  moreover have "(\<exists>e. fst (boltStore_FreeIP tx sub ip s) = Inl e) \<longleftrightarrow>
      tx \<noteq> Commits \<or> \<not> contains sub (IP ip) \<or> bolt_view s (ipnet_String sub) = None"
    by (cases "tx = Commits"; cases "contains sub (IP ip)")
      (auto simp: bolt_FreeIP_cases, auto simp: boltStore_FreeIP_def checkSubnetContains_def db_Update_fails
        simp del: db_Update_Commits)
  moreover have "(\<exists>e. fst (boltStore_SaveLease c tx key l s) = Inl e) \<longleftrightarrow> tx \<noteq> Commits \<or> (\<exists>e. marshal c l = Inl e)"
    by (cases "tx = Commits") (auto simp: boltStore_SaveLease_def split: sum.splits, auto simp: db_Update_fails
        simp del: db_Update_Commits)
  moreover have "(\<exists>e. fst (boltStore_DeleteLease tx key s) = Inl e) \<longleftrightarrow> tx \<noteq> Commits"
    "(\<exists>e. fst (boltStore_SaveSubnet tx sub s) = Inl e) \<longleftrightarrow> tx \<noteq> Commits"
    by (cases "tx = Commits"; auto simp: boltStore_DeleteLease_def boltStore_SaveSubnet_def Let_def;
      simp add: db_Update_fails)+
  ultimately show ?thesis
    by - (intro conjI allI impI; (assumption | erule bolt_errors_keep | erule bolt_errors_keep_rest))
qed

theorem bolt_error_keeps_database_witness:
  "boltStore_FreeIP (CommitFails StoreFailure) demo_net (demo_ip 1) (demo_bolt Map.empty) = (Inl StoreFailure, demo_bolt Map.empty) \<and>
   (\<exists>b. fst (boltStore_AllocateIP Commits demo_net (demo_ip 1) (demo_bolt Map.empty)) = Inr b)"
proof -
  have r: "bolt_ready plain_codec {} (demo_bolt Map.empty)"
    using demo_bolt_ok [of Map.empty] by (simp add: bolt_ready_def demo_bolt_def)
  have o: "range_order [] (bolt_subnets (demo_bolt Map.empty))" by (simp add: range_order_def demo_bolt_def)
  note W = bolt_error_keeps_database [OF r demo_bolt_orders(1) o]
  have "fst (boltStore_FreeIP (CommitFails StoreFailure) demo_net (demo_ip 1) (demo_bolt Map.empty)) = Inl StoreFailure"
    using demo_nets_ok(4)
    by (simp add: boltStore_FreeIP_def checkSubnetContains_def on_db_def db_Update_def marshalIPNet_def demo_bolt_def demo_texts)
  then have "boltStore_FreeIP (CommitFails StoreFailure) demo_net (demo_ip 1) (demo_bolt Map.empty) = (Inl StoreFailure, demo_bolt Map.empty)"
    using W [of "CommitFails StoreFailure" demo_net "demo_ip 1"] by (metis prod.collapse)
  moreover have "\<not> (\<exists>e. fst (boltStore_AllocateIP Commits demo_net (demo_ip 1) (demo_bolt Map.empty)) = Inl e)"
    using W [of Commits demo_net "demo_ip 1"] demo_nets_ok(4) by (simp add: bolt_view_def demo_bolt_def demo_texts)
  ultimately show ?thesis by (metis sum.exhaust)
qed

text \<open>C23: When the session knows every stored subnet, \<open>Purge\<close> of the file store reports and leaves what
  \<open>Purge\<close> of the memory store does, in whatever orders either goes through its leases and subnets.\<close>

theorem bolt_Purge_refines_memory:
  assumes "bolt_ok c s" "dom (bolt_subnets s) = dom (bolt_view s)"
    "range_order ks (bucketLeases (bolt_db s))" "range_order ss (bolt_subnets s)"
    "range_order ks' (leases (bolt_abs c s))" "range_order ss' (subnets (bolt_abs c s))"
  shows "map_prod id (bolt_abs c) (boltStore_Purge c Commits ks ss t s) =
    map_prod lift_err id (memoryStore_Purge ks' ss' t (bolt_abs c s))"
proof -
  have "bolt_ready c {} s" using assms(1,2) by (simp add: bolt_ready_def)
  from bolt_Purge_eq [OF this assms(3,4), of t] Purge_eq [OF bolt_ok_mem [OF assms(1)] assms(5,6), of t] assms(2)
  show ?thesis by (auto simp: purge_result_def bolt_abs_def fun_eq_iff domIff)
qed

theorem bolt_Purge_refines_memory_witness:
  "map_prod id (bolt_abs plain_codec) (boltStore_Purge plain_codec Commits [keyBytes 1, keyBytes 2] [''10.0.0.0/30''] 10
      (demo_bolt [''10.0.0.0/30'' \<mapsto> demo_net])) =
    map_prod lift_err id (memoryStore_Purge [1, 2] [''10.0.0.0/30''] 10 demo_store)"
proof -
  have "dom (bolt_subnets (demo_bolt [''10.0.0.0/30'' \<mapsto> demo_net])) = dom (bolt_view (demo_bolt [''10.0.0.0/30'' \<mapsto> demo_net]))"
    by (simp add: bolt_view_def demo_bolt_def)
  from bolt_Purge_refines_memory [OF demo_bolt_ok this demo_bolt_orders, of "[1, 2]" "[''10.0.0.0/30'']" 10]
  show ?thesis using demo_orders unfolding demo_bolt_abs by blast
qed

text \<open>C29: \<open>Purge\<close> of the file store passes over a subnet that this session has not saved, though the file has its
  bucket: from any well-formed store in which the session's subnets have buckets, and in any order of the keys, when its
  transaction commits it deletes an expired lease, and an address of that lease that is allocated in such a subnet stays
  allocated there and is not counted.\<close>

theorem Purge_misses_unsaved_subnet:
  assumes "bolt_ready c N s" "range_order ks (bucketLeases (bolt_db s))" "range_order ss (bolt_subnets s)"
    "bolt_leases_of c s k = Some l" "Lease_Expired l t" "ip \<in> set (Lease_IPs l)" "allocated (bolt_view s) sub ip"
    "bolt_subnets s (ipnet_String sub) = None"
  shows "\<exists>stats s'. boltStore_Purge c Commits ks ss t s = (Inr stats, s') \<and> bolt_leases_of c s' k = None \<and>
    allocated (bolt_view s') sub ip \<and> FreedIPs stats (ipnet_String sub) = None"
proof -
  have u: "ipnet_String sub \<notin> dom (bolt_subnets s)" using assms(8) by (simp add: domIff)
  have "live_leases t (bolt_leases_of c s) k = None" using assms(4,5) by (simp add: live_leases_def)
  then show ?thesis
    using bolt_Purge_eq [OF assms(1-3), of t] assms(7) u by (elim exE conjE) (simp add: allocated_def)
qed

theorem Purge_misses_unsaved_subnet_witness:
  "\<exists>stats s'. boltStore_Purge plain_codec Commits [keyBytes 1, keyBytes 2] [] 10 (demo_bolt Map.empty) = (Inr stats, s') \<and>
    bolt_leases_of plain_codec s' 1 = None \<and> allocated (bolt_view s') demo_net (demo_ip 1)"
proof -
  have r: "bolt_ready plain_codec {} (demo_bolt Map.empty)"
    using demo_bolt_ok [of Map.empty] by (simp add: bolt_ready_def demo_bolt_def)
  have o: "range_order [] (bolt_subnets (demo_bolt Map.empty))" by (simp add: range_order_def demo_bolt_def)
  have l: "bolt_leases_of plain_codec (demo_bolt Map.empty) 1 = Some \<lparr>Lease_IPs = [demo_ip 1], Lease_Start = 0, Lease_Length = 10\<rparr>"
    by (simp add: bolt_leases_of_def demo_bolt_def plain_codec_def)
  have a: "allocated (bolt_view (demo_bolt Map.empty)) demo_net (demo_ip 1)" "bolt_subnets (demo_bolt Map.empty) (ipnet_String demo_net) = None"
    by (simp_all add: allocated_def bolt_view_def demo_bolt_def demo_texts)
  show ?thesis
    using Purge_misses_unsaved_subnet [OF r demo_bolt_orders(1) o l _ _ a, of 10] by (auto simp: Expired_iff)
qed

text \<open>C31: A network written as a key is read back with its address in 16 bytes and its mask, and the
  network read back has the same key and contains the same addresses.\<close>

theorem unmarshal_marshalIPNet:
  assumes "net_ok n"
  shows "\<exists>m. unmarshalIPNet (marshalIPNet n) = Inr m \<and> to16 (IP n) = Some (IP m) \<and> Mask m = Mask n \<and>
    marshalIPNet m = marshalIPNet n \<and> contains m = contains n"
  using ParseCIDR_key [OF assms] by (auto simp: unmarshalIPNet_def marshalIPNet_def)

theorem unmarshal_marshalIPNet_witness:
  "\<exists>m. unmarshalIPNet (marshalIPNet demo_net) = Inr m \<and> marshalIPNet m = ''10.0.0.0/30'' \<and> contains m = contains demo_net"
  using unmarshal_marshalIPNet [OF demo_nets_ok(1)] by (auto simp: marshalIPNet_def demo_texts)

text \<open>Closing the store and opening its file again gives the same leases and tables; the subnets of
  the session are forgotten.  A file without buckets opens as an empty store.\<close>

theorem FileStore_reopens:
  "FileStore None Commits \<lparr>file_leases = Some (bucketLeases (bolt_db s)), file_subnets = Some (bucketSubnets (bolt_db s))\<rparr> =
     Inr \<lparr>bolt_db = bolt_db s, bolt_subnets = Map.empty\<rparr> \<and>
   FileStore None Commits \<lparr>file_leases = None, file_subnets = None\<rparr> =
     Inr \<lparr>bolt_db = \<lparr>bucketLeases = Map.empty, bucketSubnets = Map.empty\<rparr>, bolt_subnets = Map.empty\<rparr>"
  by (simp add: FileStore_def bucket_or_new_def)

end
