(* ===== verification/Store_Full.thy ===== *)
theory Store_Full
  imports Bolt_Store "HOL-Library.Char_ord"
begin

text \<open>
  The whole interface \<open>Store\<close> of store.go as a record of operations, for the code that is given a store:
  the metrics, the debug API and the conformance tests.  Where an operation of a store ranges over a
  map or a bucket, the order is chosen by the functions \<open>lk\<close> (leases) and \<open>sk\<close> (subnets and addresses)
  from what the map holds.
\<close>

record 's Store =
  st_ips :: "'s IPStore"
  st_leases :: "'s LeaseStore"
  st_Leases :: "'s \<Rightarrow> (goerr + lease list) \<times> 's"
  st_Purge :: "time \<Rightarrow> 's \<Rightarrow> (fault + PurgeStats) \<times> 's"
  st_Subnets :: "'s \<Rightarrow> (goerr + ipnet list) \<times> 's"
  st_AllocatedIPs :: "ipnet \<Rightarrow> 's \<Rightarrow> (goerr + ipnet list) \<times> 's"

type_synonym lease_order = "u64 set \<Rightarrow> u64 list"
type_synonym key_order = "string set \<Rightarrow> string list"

definition orders :: "('k set \<Rightarrow> 'k list) \<Rightarrow> bool" where
  "orders f \<longleftrightarrow> (\<forall>A. finite A \<longrightarrow> distinct (f A) \<and> set (f A) = A)"

definition keys_of :: "(string \<Rightarrow> string set option) \<Rightarrow> ipnet \<Rightarrow> string set" where
  "keys_of subs sub = (case subs (ipnet_String sub) of None \<Rightarrow> {} | Some A \<Rightarrow> A)"

definition memory_Store :: "lease_order \<Rightarrow> key_order \<Rightarrow> memoryStore Store" where
  "memory_Store lk sk =
     \<lparr>st_ips = mem_ips, st_leases = mem_leases,
      st_Leases = (\<lambda>s. memoryStore_Leases (lk (dom (leases s))) s),
      st_Purge = (\<lambda>t s. map_prod (\<lambda>r. lift_err r) id
        (memoryStore_Purge (lk (dom (leases s))) (sk (dom (subnets s))) t s)),
      st_Subnets = (\<lambda>s. memoryStore_Subnets (sk (dom (subnets s))) s),
      st_AllocatedIPs = (\<lambda>sub s. memoryStore_AllocatedIPs (sk (keys_of (subnets s) sub)) sub s)\<rparr>"

text \<open>The order of the keys of the bucket of leases, which are the big-endian forms of the 64-bit keys.\<close>

definition bolt_Store :: "'v lease_codec \<Rightarrow> tx \<Rightarrow> (byte list set \<Rightarrow> byte list list) \<Rightarrow> key_order \<Rightarrow> 'v boltStore Store" where
  "bolt_Store c tx lk sk =
     \<lparr>st_ips = bolt_ips tx, st_leases = bolt_leases c tx,
      st_Leases = (\<lambda>s. boltStore_Leases c tx (lk (dom (bucketLeases (bolt_db s)))) s),
      st_Purge = (\<lambda>t s. boltStore_Purge c tx (lk (dom (bucketLeases (bolt_db s)))) (sk (dom (bolt_subnets s))) t s),
      st_Subnets = (\<lambda>s. boltStore_Subnets tx (sk (dom (bucketSubnets (bolt_db s)))) s),
      st_AllocatedIPs = (\<lambda>sub s. boltStore_AllocatedIPs tx (sk (keys_of (bucketSubnets (bolt_db s)) sub)) sub s)\<rparr>"

lemma orders_range: "orders f \<Longrightarrow> finite (dom m) \<Longrightarrow> range_order (f (dom m)) m"
  by (simp add: orders_def range_order_def)

lemma distinct_singleton: "distinct xs \<Longrightarrow> set xs = {x} \<Longrightarrow> xs = [x]"
  by (cases xs rule: list.exhaust) (auto simp: neq_Nil_conv subset_singleton_iff)

lemma orders_small [simp]: "orders f \<Longrightarrow> f {} = []" "orders f \<Longrightarrow> f {x} = [x]"
  by (auto simp: orders_def intro!: distinct_singleton)

text \<open>The order of the keys is one of them, that of the keys of a bolt bucket.\<close>

lemma orders_sorted: "orders sorted_list_of_set"
  by (simp add: orders_def)

end
