(* ===== verification/Metrics.thy ===== *)
theory Metrics
  imports Memory_Server Ipaddr_Summary Store_Full "HOL-Library.Log_Nat"
begin

text \<open>
  The metrics of a store (metrics.go): \<open>metricsIPStore\<close>, a store that counts the allocated addresses of each
  subnet in a gauge, and \<open>allocatableSize\<close>.  A gauge holds a float64; every value here is an integer or
  positive infinity, so a float64 is that with sums rounded to 53 bits (to even on a tie).
\<close>

section \<open>Floating point numbers\<close>

datatype float64 = Num int | PosInf

definition round53 :: "int \<Rightarrow> int" where
  "round53 n =
     (let m = \<bar>n\<bar>
      in if m \<le> 2 ^ 53 then n
         else let d = 2 ^ nat (bitlen m - 53); q = m div d; r = m mod d;
                  q' = (if d < 2 * r \<or> d = 2 * r \<and> odd q then q + 1 else q)
              in sgn n * (q' * d))"

definition float_of :: "nat \<Rightarrow> float64" where
  "float_of n = Num (round53 (int n))"

fun float_add :: "float64 \<Rightarrow> int \<Rightarrow> float64" where
  "float_add (Num a) b = Num (round53 (a + b))"
| "float_add PosInf b = PosInf"

definition float_plus :: "float64 \<Rightarrow> float64 \<Rightarrow> float64" where
  "float_plus a b = (case b of Num n \<Rightarrow> float_add a n | PosInf \<Rightarrow> PosInf)"

section \<open>The size of a subnet\<close>

text \<open>The loop over the reserved addresses, and the loop over the prefixes.\<close>

fun sub_reserved :: "prefix \<Rightarrow> ip list \<Rightarrow> float64 \<Rightarrow> float64" where
  "sub_reserved p [] sz = sz"
| "sub_reserved p (r # rs) sz =
     sub_reserved p rs (if contains p r then float_add sz (- 1) else sz)"

fun add_sizes :: "ip list \<Rightarrow> prefix list \<Rightarrow> float64 \<Rightarrow> float64" where
  "add_sizes reserved [] sz = sz"
| "add_sizes reserved (p # ps) sz =
     add_sizes reserved ps (sub_reserved p reserved
       (if NumNodes p < 2 ^ 64 then float_plus sz (float_of (NumNodes p)) else PosInf))"

definition allocatableSize :: "Subnet \<Rightarrow> float64" where
  "allocatableSize s =
     (if IP (Subnet_Subnet s) = [] then Num 0
      else let p = NewPrefix (Subnet_Subnet s);
               start = (case Subnet_Start s of None \<Rightarrow> IP p | Some a \<Rightarrow> a);
               end = (case Subnet_End s of None \<Rightarrow> prefix_Last p | Some b \<Rightarrow> b);
               ps = (if Subnet_Start s = None \<and> Subnet_End s = None then [NewPrefix p] else Summarize start end)
           in add_sizes (Subnet_Reserved s) ps (Num 0))"

lemma round53_exact: "\<bar>n\<bar> \<le> 2 ^ 53 \<Longrightarrow> round53 n = n"
  by (simp add: round53_def Let_def)

lemma sub_reserved_exact:
  assumes "a \<le> 2 ^ 53" "int (length (filter (contains p) rs)) \<le> a"
  shows "sub_reserved p rs (Num a) = Num (a - int (length (filter (contains p) rs)))"
  using assms by (induction rs arbitrary: a) (auto simp: round53_exact algebra_simps)

text \<open>The reserved addresses inside a prefix, different from each other, are not more than it has.\<close>

lemma reserved_fit:
  assumes "prefix_ok p" "\<forall>r\<in>set rs. valid_ip r \<and> is4 r = is4 (IP p)" "distinct (map ipval rs)"
  shows "length (filter (contains p) rs) \<le> 2 ^ host_bits p"
proof -
  let ?rs = "filter (contains p) rs"
  have "distinct (map ipval ?rs)" using assms(3) by (induction rs) auto
  then have "length ?rs = card (ipval ` set ?rs)" by (metis distinct_card length_map set_map)
  also have "ipval ` set ?rs \<subseteq> {net_base p..net_last p}" using assms(1,2) tile_contains by auto
  then have "card (ipval ` set ?rs) \<le> card {net_base p..net_last p}" by (intro card_mono) auto
  also have "\<dots> = 2 ^ host_bits p" using prefix_size [of p] by simp
  finally show ?thesis .
qed

lemma add_sizes_exact:
  assumes "tiles f ps v w" "\<forall>r\<in>set rs. valid_ip r \<and> is4 r = f" "distinct (map ipval rs)"
    "0 \<le> a" "a + int (Suc w - v) \<le> 2 ^ 53"
  shows "add_sizes rs ps (Num a) = Num (a + int (Suc w - v) -
    int (length (filter (\<lambda>r. v \<le> ipval r \<and> ipval r \<le> w) rs)))"
  using assms
proof (induction f ps v w arbitrary: a rule: tiles.induct)
  case (1 f v w)
  then have "filter (\<lambda>r. v \<le> ipval r \<and> ipval r \<le> w) rs = []" by (auto simp: filter_empty_conv)
  then show ?case using 1 by simp
next
  case (2 f p ps v w)
  let ?n = "(2 :: nat) ^ host_bits p" and ?c = "length (filter (contains p) rs)"
  have p: "prefix_ok p" "is4 (IP p) = f" "net_base p = v" "net_last p \<le> w" "tiles f ps (Suc (net_last p)) w"
    using 2 by auto
  have "?c \<le> ?n" using reserved_fit [OF p(1)] 2 p(2) by simp
  then have c: "int ?c \<le> int ?n" by (simp only: of_nat_le_iff)
  have whole: "Suc w - v = ?n + (Suc w - Suc (net_last p))" using prefix_size [of p] p(3,4) by simp
  then have n: "a + int ?n \<le> 2 ^ 53" using 2 by simp
  then have small: "?n < 2 ^ 64" using \<open>0 \<le> a\<close> by (simp flip: of_nat_less_iff [where ?'a = int])
  have "(if NumNodes p < 2 ^ 64 then float_plus (Num a) (float_of (NumNodes p)) else PosInf) = Num (a + int ?n)"
    using small n \<open>0 \<le> a\<close> by (simp add: NumNodes_size [OF p(1)] float_plus_def float_of_def round53_exact)
  moreover have "sub_reserved p rs (Num (a + int ?n)) = Num (a + int ?n - int ?c)"
    using sub_reserved_exact [of "a + int ?n" p rs] n c \<open>0 \<le> a\<close> by linarith
  ultimately have "add_sizes rs (p # ps) (Num a) = add_sizes rs ps (Num (a + int ?n - int ?c))" by simp
  also have "\<dots> = Num (a + int ?n - int ?c + int (Suc w - Suc (net_last p)) -
      int (length (filter (\<lambda>r. Suc (net_last p) \<le> ipval r \<and> ipval r \<le> w) rs)))"
  proof -
    have "int (Suc w - v) = int ?n + int (Suc w - Suc (net_last p))" unfolding whole by (rule of_nat_add)
    then have "0 \<le> a + int ?n - int ?c \<and> a + int ?n - int ?c + int (Suc w - Suc (net_last p)) \<le> 2 ^ 53"
      using c \<open>0 \<le> a\<close> 2(6) by linarith
    then show ?thesis using 2(1) [OF p(5) 2(3,4)] by (simp only: conj_commute)
  qed
  also have "filter (contains p) rs = filter (\<lambda>r. v \<le> ipval r \<and> ipval r \<le> net_last p) rs"
    using 2 p tile_contains [OF p(1)] by (intro filter_cong refl) auto
  finally show ?case
    using whole filter_range_split [of v "net_last p" w rs] p(3,4) net_base_le_last [of p] by simp
qed

lemma prefix_Last_value:
  assumes "prefix_ok p"
  shows "valid_ip (prefix_Last p)" "ipval (prefix_Last p) = net_last p" "family_ok p \<Longrightarrow> is4 (prefix_Last p) = is4 (IP p)"
proof -
  have l: "length (IP p) = 16" using assms by (simp add: prefix_ok_def)
  have e: "prefix_Last p = (if is4 (IP p) then ipv4Int_ip (lastIPv4Int p) else ipv6Int_ip (lastIPv6Int p))"
    using l by (auto simp: prefix_Last_def is4_def to16_16)
  have l16: "length (prefix_Last p) = 16" by (simp add: e ipv4Int_ip_def)
  then show "valid_ip (prefix_Last p)" by (simp add: valid_ip_def)
  show v: "ipval (prefix_Last p) = net_last p"
    using lastIPv4Int_value [OF assms] cval_lastIPv6 [OF assms] by (simp add: e ipval_ipv4Int_ip ipval_ipv6Int_ip)
  show "is4 (prefix_Last p) = is4 (IP p)" if "family_ok p"
    using family_ok_is4 [OF assms that l16] v net_base_le_last [of p] by simp
qed

lemma card_candidates:
  assumes "distinct (map ipval rs)"
  shows "int (length (candidates (ipval ` set rs) v w)) =
    int (Suc w - v) - int (length (filter (\<lambda>r. v \<le> ipval r \<and> ipval r \<le> w) rs))"
proof -
  let ?in = "filter (\<lambda>r. v \<le> ipval r \<and> ipval r \<le> w) rs" and ?R = "ipval ` set rs"
  have d: "distinct (map ipval ?in)" using assms by (induction rs) auto
  have i: "ipval ` set ?in = ?R \<inter> {v..w}" by auto
  have "length ?in = card (?R \<inter> {v..w})" using distinct_card [OF d] i by simp
  moreover have "length (candidates ?R v w) = card ({v..w} - ?R)"
    unfolding candidates_def by (subst distinct_card [symmetric]) (auto intro!: arg_cong [where f = card])
  moreover have "card ({v..w} - ?R) + card (?R \<inter> {v..w}) = card {v..w}"
    using card_Int_Diff [of "{v..w}" ?R] by (simp add: Int_commute)
  ultimately have "length (candidates ?R v w) + length ?in = Suc w - v" by simp
  then show ?thesis by linarith
qed

text \<open>For a subnet \<open>Validate\<close> accepts, whose reserved addresses differ from each other, the size is the number of
  unreserved addresses of its range, up to the integers a float64 holds exactly.\<close>

lemma allocatableSize_unreserved:
  assumes "subnet_ok x" "Validate x = Inr ()" "distinct (map ipval (Subnet_Reserved x))"
    "Suc (range_last x) - range_start x \<le> 2 ^ 53"
  shows "allocatableSize x = Num (int (length
    (candidates (ipval ` set (Subnet_Reserved x)) (range_start x) (range_last x))))"
proof -
  let ?n = "Subnet_Subnet x" and ?p = "NewPrefix (Subnet_Subnet x)"
  have n: "net_ok ?n" and fam: "family_ok ?p" using assms(1) by (auto simp: subnet_ok_def)
  note same = NewPrefix_same [OF n]
  note val = iffD1 [OF Validate_iff [OF n] assms(2)]
  have p: "prefix_ok ?p" by (rule Validate_prefix [OF n assms(2)])
  have in_net: "valid_ip a \<and> is4 a = is4 (IP ?n) \<and> net_base ?n \<le> ipval a \<and> ipval a \<le> net_last ?n" if "contains ?n a" for a
    using contains_not_valid [OF n that] contains_range [OF n, of a] that by simp
  have rs: "\<forall>r\<in>set (Subnet_Reserved x). valid_ip r \<and> is4 r = is4 (IP ?n)" using val in_net by blast
  define start where "start = (case Subnet_Start x of None \<Rightarrow> IP ?p | Some a \<Rightarrow> a)"
  define stop where "stop = (case Subnet_End x of None \<Rightarrow> prefix_Last ?p | Some b \<Rightarrow> b)"
  have start: "valid_ip start \<and> is4 start = is4 (IP ?n) \<and> ipval start = range_start x \<and> net_base ?n \<le> ipval start"
    using val in_net same p by (auto simp: start_def range_start_def prefix_ok_def valid_ip_def split: option.splits)
  have stop: "valid_ip stop \<and> is4 stop = is4 (IP ?n) \<and> ipval stop = range_last x \<and> ipval stop \<le> net_last ?n"
    using val in_net same prefix_Last_value [OF p] fam
    by (auto simp: stop_def range_last_def split: option.splits)
  define ps where "ps = (if Subnet_Start x = None \<and> Subnet_End x = None then [NewPrefix ?p] else Summarize start stop)"
  have ps: "tiles (is4 (IP ?n)) ps (range_start x) (range_last x)"
  proof (cases "Subnet_Start x = None \<and> Subnet_End x = None")
    case True
    have "NewPrefix ?p = ?p" using same(2) by (simp add: NewPrefix_def [of ?p] to16_16)
    then show ?thesis using True same p by (simp add: ps_def range_start_def range_last_def)
  next
    case False
    have "\<not> is4 start \<longrightarrow> ipval stop < mapped_base \<or> mapped_base + 2 ^ 32 \<le> ipval start"
      using fam start stop same by (auto simp: family_ok_def)
    then have "tiles (is4 start) (Summarize start stop) (ipval start) (ipval stop)"
      using start stop by (intro Summarize_tiles) auto
    moreover have "ps = Summarize start stop" using False by (simp only: ps_def if_False)
    ultimately show ?thesis using start stop by simp
  qed
  have "IP ?n \<noteq> []" using n by (auto simp: net_ok_def valid_ip_def)
  then have "allocatableSize x = add_sizes (Subnet_Reserved x) ps (Num 0)"
    by (simp add: allocatableSize_def Let_def ps_def start_def stop_def)
  moreover have "int (Suc (range_last x) - range_start x) \<le> int (2 ^ 53)" using assms(4) by (simp only: of_nat_le_iff)
  then have "0 + int (Suc (range_last x) - range_start x) \<le> 2 ^ 53" by (simp only: add_0_left of_nat_power of_nat_numeral)
  note add_sizes_exact [OF ps rs assms(3) order_refl this]
  ultimately show ?thesis unfolding card_candidates [OF assms(3)] by (simp only: add_0_left)
qed

text \<open>C33: The metric \<open>subnet_allocatable_size\<close> is the number of addresses that a new allocator over the memory store
  hands out, all different, before it first reports that it is out of addresses; for subnets whose reserved
  addresses are in strictly ascending order, do not include the one after the range and leave something to hand out,
  and whose range has at most 2^53 addresses, which a float64 holds exactly.\<close>

theorem allocatableSize_counts:
  assumes "subnet_ok x" "subnet_ready x" "Suc (range_last x) - range_start x \<le> 2 ^ 53"
    "mem_ok s0" "SimpleIPAllocator mem_ips x s0 = (Inr a, s)"
  shows "\<exists>k ips a' s'. allocatableSize x = Num (int k) \<and> length ips = k \<and> distinct ips \<and>
    allocate_times mem_ips (Suc k) a s = Some (map (\<lambda>ip. Inr (Some [ip])) ips @ [Inr None], a', s')"
proof -
  let ?C = "candidates (ipval ` set (Subnet_Reserved x)) (range_start x) (range_last x)"
  let ?ips = "map (alloc_addr (NewPrefix (Subnet_Subnet x))) ?C"
  have v: "Validate x = Inr ()" using assms(5) by (cases "Validate x") (auto simp: SimpleIPAllocator_def)
  have n: "net_ok (Subnet_Subnet x)" using assms(1) by (simp add: subnet_ok_def)
  have "distinct (map ipval (Subnet_Reserved x))"
    using assms(2) strict_sorted_iff by (auto simp: subnet_ready_def)
  then have size: "allocatableSize x = Num (int (length ?ips))"
    using allocatableSize_unreserved [OF assms(1) v _ assms(3)] by simp
  have "y < 2 ^ 128" if "y \<in> set ?C" for y
    using that end_position_of(3) [OF n v] net_last_less [OF Validate_prefix [OF n v]] by (auto simp: set_candidates)
  then have "inj_on (alloc_addr (NewPrefix (Subnet_Subnet x))) (set ?C)"
    by (intro inj_onI) (metis alloc_addr_def ipnet.ext_inject ipval_be_bytes)
  then have "distinct ?ips" using distinct_candidates by (simp add: distinct_map)
  moreover obtain a' s' where "allocate_times mem_ips (Suc (length ?C)) a s =
      Some (map (\<lambda>ip. Inr (Some [ip])) ?ips @ [Inr None], a', s')"
    using new_allocator_run [OF assms(1,2,4,5) refl, of "Suc (length ?C)"] by (auto simp: comp_def simp del: allocate_times.simps)
  ultimately show ?thesis using size
    by (intro exI [of _ "length ?ips"] exI [of _ ?ips] exI [of _ a'] exI [of _ s']) (simp del: allocate_times.simps)
qed

theorem allocatableSize_counts_witness:
  "\<exists>a s ips a' s'. SimpleIPAllocator mem_ips demo_subnet MemoryStore = (Inr a, s) \<and> distinct ips \<and> length ips = 3 \<and>
    allocate_times mem_ips 4 a s = Some (map (\<lambda>ip. Inr (Some [ip])) ips @ [Inr None], a', s')"
proof -
  obtain a s where a: "SimpleIPAllocator mem_ips demo_subnet MemoryStore = (Inr a, s)" by (rule demo_allocator)
  have d: "Suc (range_last demo_subnet) - range_start demo_subnet \<le> 2 ^ 53" "allocatableSize demo_subnet = Num 3" by code_simp+
  show ?thesis
    using allocatableSize_counts [OF demo_subnet_ok(1,2) d(1) mem_ok_MemoryStore a] a d(2)
    by (auto simp: numeral_eq_Suc simp del: allocate_times.simps)
qed

section \<open>The store with gauges\<close>

text \<open>A gauge vector: the gauges by the text of the subnet that labels them, made with 0 on first use.  The
  time of the last purge is kept as the reading of the clock.\<close>

record gauges =
  IPsAllocated :: "string \<Rightarrow> float64 option"
  SubnetAllocatableSize :: "string \<Rightarrow> float64 option"
  LastPurge :: "time option"

definition no_gauges :: gauges where
  "no_gauges = \<lparr>IPsAllocated = Map.empty, SubnetAllocatableSize = Map.empty, LastPurge = None\<rparr>"

definition gauge :: "(string \<Rightarrow> float64 option) \<Rightarrow> string \<Rightarrow> float64" where
  "gauge g sub = (case g sub of None \<Rightarrow> Num 0 | Some x \<Rightarrow> x)"

definition gauge_Add :: "string \<Rightarrow> int \<Rightarrow> gauges \<Rightarrow> gauges" where
  "gauge_Add sub n m = m\<lparr>IPsAllocated := (IPsAllocated m)(sub := Some (float_add (gauge (IPsAllocated m) sub) n))\<rparr>"

definition metricsIPStore_AllocateIP :: "'s Store \<Rightarrow> ipnet \<Rightarrow> ipnet \<Rightarrow> 's \<times> gauges \<Rightarrow> (goerr + bool) \<times> 's \<times> gauges" where
  "metricsIPStore_AllocateIP st subnet ip x =
     (case ip_AllocateIP (st_ips st) subnet ip (fst x) of
        (Inl e, s) \<Rightarrow> (Inl e, s, snd x)
      | (Inr False, s) \<Rightarrow> (Inr False, s, snd x)
      | (Inr True, s) \<Rightarrow> (Inr True, s, gauge_Add (ipnet_String subnet) 1 (snd x)))"

definition metricsIPStore_FreeIP :: "'s Store \<Rightarrow> ipnet \<Rightarrow> ipnet \<Rightarrow> 's \<times> gauges \<Rightarrow> (goerr + unit) \<times> 's \<times> gauges" where
  "metricsIPStore_FreeIP st subnet ip x =
     (case ip_FreeIP (st_ips st) subnet ip (fst x) of
        (Inl e, s) \<Rightarrow> (Inl e, s, snd x)
      | (Inr _, s) \<Rightarrow> (Inr (), s, gauge_Add (ipnet_String subnet) (- 1) (snd x)))"

text \<open>The loop over \<open>FreedIPs\<close>, its keys in the order \<open>ks\<close>.\<close>

fun sub_freed :: "string list \<Rightarrow> (string \<Rightarrow> nat option) \<Rightarrow> gauges \<Rightarrow> gauges" where
  "sub_freed [] freed m = m"
| "sub_freed (sub # ks) freed m =
     (case freed sub of
        None \<Rightarrow> sub_freed ks freed m
      | Some v \<Rightarrow> sub_freed ks freed (gauge_Add sub (- round53 (int v)) m))"

definition metricsIPStore_Purge :: "'s Store \<Rightarrow> key_order \<Rightarrow> time \<Rightarrow> time \<Rightarrow> 's \<times> gauges \<Rightarrow>
    (fault + PurgeStats) \<times> 's \<times> gauges" where
  "metricsIPStore_Purge st sk now t x =
     (case st_Purge st t (fst x) of
        (Inl e, s) \<Rightarrow> (Inl e, s, snd x)
      | (Inr stats, s) \<Rightarrow>
          (Inr stats, s, (sub_freed (sk (dom (FreedIPs stats))) (FreedIPs stats) (snd x))\<lparr>LastPurge := Some now\<rparr>))"

text \<open>The other methods are those of the store that is embedded.\<close>

definition embedded :: "('s \<Rightarrow> 'r \<times> 's) \<Rightarrow> 's \<times> gauges \<Rightarrow> 'r \<times> 's \<times> gauges" where
  "embedded f x = (case f (fst x) of (r, s) \<Rightarrow> (r, s, snd x))"

definition metrics_ips :: "'s Store \<Rightarrow> ('s \<times> gauges) IPStore" where
  "metrics_ips st =
     \<lparr>ip_SaveSubnet = (\<lambda>sub. embedded (ip_SaveSubnet (st_ips st) sub)),
      ip_AllocateIP = metricsIPStore_AllocateIP st, ip_FreeIP = metricsIPStore_FreeIP st\<rparr>"

definition metrics_leases :: "'s Store \<Rightarrow> ('s \<times> gauges) LeaseStore" where
  "metrics_leases st =
     \<lparr>ls_Lease = (\<lambda>k. embedded (ls_Lease (st_leases st) k)),
      ls_SaveLease = (\<lambda>k l. embedded (ls_SaveLease (st_leases st) k l)),
      ls_DeleteLease = (\<lambda>k. embedded (ls_DeleteLease (st_leases st) k))\<rparr>"

definition metricsIPStore :: "'s Store \<Rightarrow> key_order \<Rightarrow> time \<Rightarrow> ('s \<times> gauges) Store" where
  "metricsIPStore st sk now =
     \<lparr>st_ips = metrics_ips st, st_leases = metrics_leases st, st_Leases = embedded (st_Leases st),
      st_Purge = metricsIPStore_Purge st sk now, st_Subnets = embedded (st_Subnets st),
      st_AllocatedIPs = (\<lambda>sub. embedded (st_AllocatedIPs st sub))\<rparr>"

text \<open>\<open>IPStoreMetrics\<close> after its gauges are registered: the sizes, and the addresses allocated already.\<close>

definition set_sizes :: "Subnet list \<Rightarrow> gauges \<Rightarrow> gauges" where
  "set_sizes subs m = fold (\<lambda>s m. m\<lparr>SubnetAllocatableSize :=
     (SubnetAllocatableSize m)(ipnet_String (Subnet_Subnet s) := Some (allocatableSize s))\<rparr>) subs m"

fun set_allocated :: "'s Store \<Rightarrow> ipnet list \<Rightarrow> gauges \<Rightarrow> 's \<Rightarrow> (goerr + gauges) \<times> 's" where
  "set_allocated st [] m s = (Inr m, s)"
| "set_allocated st (r # rs) m s =
     (case st_AllocatedIPs st r s of
        (Inl e, s') \<Rightarrow> (Inl e, s')
      | (Inr ips, s') \<Rightarrow>
          set_allocated st rs
            (m\<lparr>IPsAllocated := (IPsAllocated m)(ipnet_String r := Some (float_of (length ips)))\<rparr>) s')"

definition init_gauges :: "'s Store \<Rightarrow> Subnet list \<Rightarrow> 's \<Rightarrow> (goerr + gauges) \<times> 's" where
  "init_gauges st subs s =
     (case st_Subnets st s of
        (Inl e, s') \<Rightarrow> (Inl e, s')
      | (Inr registered, s') \<Rightarrow> set_allocated st registered (set_sizes subs no_gauges) s')"

section \<open>The gauges do not change what the store does\<close>

lemma embedded_simps [simp]: "fst (embedded f x) = fst (f (fst x))" "fst (snd (embedded f x)) = snd (f (fst x))"
  by (simp_all add: embedded_def split: prod.splits)

lemma embedded_result: "embedded f x = (r, y) \<Longrightarrow> f (fst x) = (r, fst y)"
  by (auto simp: embedded_def split: prod.splits)

lemma metrics_ops:
  "fst (metricsIPStore_AllocateIP st sub ip x) = fst (ip_AllocateIP (st_ips st) sub ip (fst x))"
  "fst (snd (metricsIPStore_AllocateIP st sub ip x)) = snd (ip_AllocateIP (st_ips st) sub ip (fst x))"
  "fst (metricsIPStore_FreeIP st sub ip x) = fst (ip_FreeIP (st_ips st) sub ip (fst x))"
  "fst (snd (metricsIPStore_FreeIP st sub ip x)) = snd (ip_FreeIP (st_ips st) sub ip (fst x))"
  by (auto simp: metricsIPStore_AllocateIP_def metricsIPStore_FreeIP_def split: prod.splits sum.splits bool.splits)

lemma result_fst:
  "p = (r, y) \<Longrightarrow> fst p = fst q \<Longrightarrow> fst (snd p) = snd q \<Longrightarrow> q = (r, fst y)"
  by (cases q) auto

context reliable_ip_store
begin

text \<open>Any store that keeps the contract keeps it with gauges around it.\<close>

lemma with_gauges:
  assumes "st_ips S = st"
  shows "reliable_ip_store (metrics_ips S) (\<lambda>x. inv (fst x)) (\<lambda>x. view (fst x)) (\<lambda>x. other (fst x))"
proof -
  have save: "ip_SaveSubnet (metrics_ips S) sub = embedded (ip_SaveSubnet st sub)" for sub
    using assms by (simp add: metrics_ips_def)
  have alloc: "ip_AllocateIP (metrics_ips S) = metricsIPStore_AllocateIP S" "ip_FreeIP (metrics_ips S) = metricsIPStore_FreeIP S"
    by (simp_all add: metrics_ips_def)
  note ops = metrics_ops [where st = S, unfolded assms]
  note F = result_fst [OF _ ops(1,2)] result_fst [OF _ ops(3,4)]
  have R: "fst p = fst q \<Longrightarrow> q = (r, s) \<Longrightarrow> \<exists>y. p = (r, y)" for p :: "'x \<times> 'y" and q :: "'x \<times> 'a" and r s
    by (cases p) auto
  show ?thesis
  proof (unfold_locales, unfold save alloc)
    show "\<And>s sub. inv (fst s) \<Longrightarrow> \<exists>s'. embedded (ip_SaveSubnet st sub) s = (Inr (), s')"
      using SaveSubnet_reliable R [OF embedded_simps(1)] by metis
    show "\<And>s sub ip. inv (fst s) \<Longrightarrow> contains sub (IP ip) \<Longrightarrow> view (fst s) (ipnet_String sub) \<noteq> None \<Longrightarrow>
        \<exists>b s'. metricsIPStore_AllocateIP S sub ip s = (Inr b, s')"
      using AllocateIP_reliable R [OF ops(1)] by metis
    show "\<And>s sub ip. inv (fst s) \<Longrightarrow> contains sub (IP ip) \<Longrightarrow> view (fst s) (ipnet_String sub) \<noteq> None \<Longrightarrow>
        \<exists>s'. metricsIPStore_FreeIP S sub ip s = (Inr (), s')"
      using FreeIP_reliable R [OF ops(3)] by metis
  qed (auto simp: ops SaveSubnet_inv SaveSubnet_other AllocateIP_inv AllocateIP_other FreeIP_inv FreeIP_other
      dest!: F embedded_result,
      (drule (1) SaveSubnet_error SaveSubnet_done AllocateIP_error AllocateIP_taken AllocateIP_done FreeIP_error
        FreeIP_done, blast)+)
qed

end

section \<open>The gauges count the allocated addresses\<close>

definition gauges_match :: "alloc_view \<Rightarrow> gauges \<Rightarrow> bool" where
  "gauges_match v m \<longleftrightarrow> (\<forall>sub A. v sub = Some A \<longrightarrow> gauge (IPsAllocated m) sub = Num (int (card A)))"

definition small_tables :: "alloc_view \<Rightarrow> bool" where
  "small_tables v \<longleftrightarrow> (\<forall>sub A. v sub = Some A \<longrightarrow> finite A \<and> card A < 2 ^ 53)"

lemma gauge_Add [simp]:
  "gauge (IPsAllocated (gauge_Add sub n m)) sub' =
    (if sub' = sub then float_add (gauge (IPsAllocated m) sub) n else gauge (IPsAllocated m) sub')"
  by (simp add: gauge_Add_def gauge_def)

lemma sub_freed_gauge:
  "distinct ks \<Longrightarrow> gauge (IPsAllocated (sub_freed ks f m)) sub =
    (if sub \<in> set ks \<and> f sub \<noteq> None then float_add (gauge (IPsAllocated m) sub) (- round53 (int (the (f sub))))
     else gauge (IPsAllocated m) sub)"
  by (induction ks f m rule: sub_freed.induct) (auto split: option.splits)

lemma mem_store_ops [simp]: "st_ips (memory_Store lk sk) = mem_ips" "st_leases (memory_Store lk sk) = mem_leases"
  by (simp_all add: memory_Store_def)

lemma mem_AllocateIP_match:
  assumes "gauges_match (subnets s) m" "small_tables (subnets s)"
    "metricsIPStore_AllocateIP (memory_Store lk sk) sub ip (s, m) = (r, s', m')"
  shows "gauges_match (subnets s') m'"
proof (cases "subnets s (ipnet_String sub)")
  case None
  then show ?thesis
    using assms by (auto simp: metricsIPStore_AllocateIP_def mem_ips_def AllocateIP_cases split: if_splits)
next
  case (Some A)
  have "gauge (IPsAllocated m) (ipnet_String sub) = Num (int (card A))" "finite A" "card A < 2 ^ 53"
    using assms(1,2) Some by (auto simp: gauges_match_def small_tables_def)
  moreover from this have "round53 (int (card A) + 1) = int (card A) + 1" by (intro round53_exact) simp
  ultimately show ?thesis
    using assms Some by (auto simp: metricsIPStore_AllocateIP_def mem_ips_def AllocateIP_cases allocated_def view_insert_def
        gauges_match_def split: if_splits)
qed

lemma mem_FreeIP_match:
  assumes "gauges_match (subnets s) m" "small_tables (subnets s)"
    "metricsIPStore_FreeIP (memory_Store lk sk) sub ip (s, m) = (Inr u, s', m')"
  shows "gauges_match (subnets s') m' \<longleftrightarrow> allocated (subnets s) sub ip"
proof -
  obtain A where A: "subnets s (ipnet_String sub) = Some A" "s' = s\<lparr>subnets := view_remove sub ip (subnets s)\<rparr>"
    "m' = gauge_Add (ipnet_String sub) (- 1) m"
    using assms(3) by (auto simp: metricsIPStore_FreeIP_def mem_ips_def FreeIP_cases split: if_splits option.splits)
  have g: "gauge (IPsAllocated m) (ipnet_String sub) = Num (int (card A))" "finite A" "card A < 2 ^ 53"
    using assms(1,2) A(1) by (auto simp: gauges_match_def small_tables_def)
  then have r: "round53 (int (card A) - 1) = int (card A) - 1" by (intro round53_exact) simp
  have "int (card (A - {ipnet_String ip})) = int (card A) - 1 \<longleftrightarrow> ipnet_String ip \<in> A"
  proof (cases "ipnet_String ip \<in> A")
    case True
    then show ?thesis using g(2) card_gt_0_iff [of A] by (auto simp: card_Diff_singleton of_nat_diff)
  qed simp
  then show ?thesis using assms(1) A g r by (auto simp: gauges_match_def view_remove_def allocated_def)
qed

lemma expired_distinct:
  assumes "lease_inv N v m" "distinct ks"
  shows "distinct (concat (map (expired_ips t m) ks))"
  using assms(2)
proof (induction ks)
  case (Cons k ks)
  have "distinct (expired_ips t m k)"
    using assms(1) unfolding lease_inv_def by (cases "m k") (auto simp: expired_ips_def)
  moreover have "set (expired_ips t m k) \<inter> set (expired_ips t m k') = {}" if "k' \<in> set ks" for k'
  proof -
    have "k \<noteq> k'" using Cons.prems that by auto
    then show ?thesis using assms(1) unfolding lease_inv_def expired_ips_iff disjoint_iff by blast
  qed
  ultimately show ?case using Cons by auto
qed simp

text \<open>A purge counts every address it takes from a table once.\<close>

lemma purged_count_exact:
  assumes "lease_inv N v m" "nets_ok N" "p \<in> N" "finite (dom m)" "v (ipnet_String p) = Some A" "finite A"
  shows "int (card (A - purged_ips t m (ipnet_String p))) = int (card A) - int (purged_count t m (ipnet_String p))"
    "purged_count t m (ipnet_String p) \<le> card A"
proof -
  obtain ks where ks: "distinct ks" "set ks = dom m" using finite_distinct_list [OF assms(4)] by blast
  let ?F = "filter (\<lambda>f. key_contains (ipnet_String p) (IP f)) (concat (map (expired_ips t m) ks))"
  have each: "\<exists>q\<in>N. owned q ip" if "ip \<in> leased m" for ip
    using assms(1) that unfolding lease_inv_def leased_def by blast
  have inj: "inj_on ipnet_String (leased m)" using owned_text_inj [OF assms(2)] each by (intro inj_onI) metis
  have F: "set ?F \<subseteq> {ip \<in> leased m. contains p (IP ip)}"
    using assms(2,3) by (auto simp: leased_def expired_ips_iff nets_ok_def prefix_ok_def key_contains_net)
  have A: "A = ipnet_String ` {ip \<in> leased m. contains p (IP ip)}" using assms(1,3,5) by (auto simp: lease_inv_def)
  have P: "purged_ips t m (ipnet_String p) = ipnet_String ` set ?F"
    using purged_freed(3) [OF ks] by simp
  have "card (purged_ips t m (ipnet_String p)) = card (set ?F)"
    unfolding P using F by (intro card_image inj_on_subset [OF inj]) auto
  also have "\<dots> = length ?F" by (rule distinct_card) (use expired_distinct [OF assms(1) ks(1)] in simp)
  finally have c: "card (purged_ips t m (ipnet_String p)) = purged_count t m (ipnet_String p)"
    unfolding purged_freed(1) [OF ks] .
  have sub: "purged_ips t m (ipnet_String p) \<subseteq> A" unfolding P A using F by blast
  then show "purged_count t m (ipnet_String p) \<le> card A" unfolding c [symmetric] by (intro card_mono assms(6))
  then show "int (card (A - purged_ips t m (ipnet_String p))) = int (card A) - int (purged_count t m (ipnet_String p))"
    using card_Diff_subset [OF finite_subset [OF sub assms(6)] sub] c by simp
qed

lemma mem_Purge_match:
  assumes m: "gauges_match (subnets s) m" "small_tables (subnets s)" and o: "orders lk" "orders sk"
    and ok: "mem_ok s" "finite (dom (leases s))" "finite (dom (subnets s))"
    and N: "nets_ok N" "lease_inv N (subnets s) (leases s)" "dom (subnets s) = ipnet_String ` N"
    and step: "metricsIPStore_Purge (memory_Store lk sk) sk now t (s, m) = (r, s', m')"
  shows "(\<exists>stats. r = Inr stats) \<and> s' = snd (purge_result t s) \<and> gauges_match (subnets s') m' \<and> LastPurge m' = Some now"
proof -
  let ?F = "FreedIPs (projr (fst (purge_result t s)))" and ?c = "purged_count t (leases s)"
  have "memoryStore_Purge (lk (dom (leases s))) (sk (dom (subnets s))) t s = purge_result t s"
    using Purge_eq [OF ok(1) orders_range [OF o(1) ok(2)] orders_range [OF o(2) ok(3)]] .
  moreover have F: "?F = (\<lambda>sub. if sub \<in> dom (subnets s) \<and> 0 < ?c sub then Some (?c sub) else None)"
    by (simp add: purge_result_def)
  ultimately have m': "m' = (sub_freed (sk (dom ?F)) ?F m)\<lparr>LastPurge := Some now\<rparr>" and r: "r = Inr \<lparr>FreedIPs = ?F\<rparr>"
    and s': "s' = snd (purge_result t s)"
    using step by (auto simp: metricsIPStore_Purge_def memory_Store_def purge_result_def)
  have dom: "distinct (sk (dom ?F))" "set (sk (dom ?F)) = dom ?F"
  proof -
    have "dom ?F \<subseteq> dom (subnets s)" unfolding F by (auto split: if_splits)
    then have "finite (dom ?F)" by (rule finite_subset [OF _ ok(3)])
    then show "distinct (sk (dom ?F))" "set (sk (dom ?F)) = dom ?F" using o(2) unfolding orders_def by blast+
  qed
  have "gauge (IPsAllocated m') sub = Num (int (card A'))" if A': "subnets s' sub = Some A'" for sub A'
  proof -
    obtain A where A: "subnets s sub = Some A" "A' = A - purged_ips t (leases s) sub"
      using A' unfolding s' by (auto simp: purge_result_def)
    then obtain p where p: "p \<in> N" "sub = ipnet_String p" using N(3) by blast
    have g: "gauge (IPsAllocated m) sub = Num (int (card A))" "finite A" "card A < 2 ^ 53"
      using m A(1) by (auto simp: gauges_match_def small_tables_def)
    note c = purged_count_exact [OF N(2,1) p(1) ok(2) A(1) [unfolded p(2)] g(2), folded p(2)]
    have g': "gauge (IPsAllocated m') sub = (if ?F sub \<noteq> None then
        float_add (Num (int (card A))) (- round53 (int (the (?F sub)))) else Num (int (card A)))"
      unfolding m' using sub_freed_gauge [OF dom(1), of ?F m sub] g(1) dom(2) by (simp add: domIff)
    have "round53 (int (?c sub)) = int (?c sub)" "round53 (int (card A) - int (?c sub)) = int (card A) - int (?c sub)"
      using c(2) [of t] g(3) by (auto intro!: round53_exact)
    then show ?thesis unfolding A(2) c(1) g' F using A(1) by auto
  qed
  then show ?thesis using r s' m' by (simp add: gauges_match_def)
qed

text \<open>C34: The gauge \<open>ips_allocated\<close> counts the allocated addresses of each subnet: an allocation keeps it so, a
  purge of leases that agree with the tables too; freeing an address does exactly when the address was
  allocated (\<open>FreeIP\<close> itself does not ask).\<close>

theorem gauges_track_allocations:
  assumes "gauges_match (subnets s) m" "small_tables (subnets s)" "orders lk" "orders sk"
    "mem_ok s" "finite (dom (leases s))" "finite (dom (subnets s))"
    "nets_ok N" "lease_inv N (subnets s) (leases s)" "dom (subnets s) = ipnet_String ` N"
    "st = memory_Store lk sk"
  shows "(\<forall>sub ip r s' m'. metricsIPStore_AllocateIP st sub ip (s, m) = (r, s', m') \<longrightarrow> gauges_match (subnets s') m') \<and>
    (\<forall>sub ip s' m'. metricsIPStore_FreeIP st sub ip (s, m) = (Inr (), s', m') \<longrightarrow>
      (gauges_match (subnets s') m' \<longleftrightarrow> allocated (subnets s) sub ip)) \<and>
    (\<forall>now t r s' m'. metricsIPStore_Purge st sk now t (s, m) = (r, s', m') \<longrightarrow> gauges_match (subnets s') m')"
  using mem_AllocateIP_match [OF assms(1,2)] mem_FreeIP_match [OF assms(1,2)]
    mem_Purge_match [OF assms(1-10)] unfolding assms(11) by blast

definition gauged_addr :: "nat \<Rightarrow> ipnet" where
  "gauged_addr i = alloc_addr (NewPrefix demo_net) (net_base demo_net + i)"

definition gauged_store :: memoryStore where
  "gauged_store = \<lparr>leases = [1 \<mapsto> \<lparr>Lease_IPs = [gauged_addr 1], Lease_Start = 0, Lease_Length = 10\<rparr>,
       2 \<mapsto> \<lparr>Lease_IPs = [gauged_addr 2], Lease_Start = 5, Lease_Length = 10\<rparr>],
     subnets = [ipnet_String (NewPrefix demo_net) \<mapsto> {ipnet_String (gauged_addr 1), ipnet_String (gauged_addr 2)}]\<rparr>"

definition gauged :: gauges where
  "gauged = \<lparr>IPsAllocated = [ipnet_String (NewPrefix demo_net) \<mapsto> Num 2], SubnetAllocatableSize = Map.empty, LastPurge = None\<rparr>"

lemma gauged_facts:
  "prefix_ok (NewPrefix demo_net)" "family_ok (NewPrefix demo_net)" "net_ok (gauged_addr 1)" "net_ok (gauged_addr 2)"
  "contains (NewPrefix demo_net) (IP (gauged_addr 1))" "contains (NewPrefix demo_net) (IP (gauged_addr 2))"
  "ipnet_String (gauged_addr 1) \<noteq> ipnet_String (gauged_addr 2)" "gauged_addr 1 \<noteq> gauged_addr 2"
  "net_base (NewPrefix demo_net) = net_base demo_net" "net_base demo_net + 2 \<le> net_last (NewPrefix demo_net)"
  by code_simp+

lemma gauged_store_ok:
  "gauges_match (subnets gauged_store) gauged" "small_tables (subnets gauged_store)" "mem_ok gauged_store"
  "finite (dom (leases gauged_store))" "finite (dom (subnets gauged_store))" "nets_ok {NewPrefix demo_net}"
  "lease_inv {NewPrefix demo_net} (subnets gauged_store) (leases gauged_store)"
  "dom (subnets gauged_store) = ipnet_String ` {NewPrefix demo_net}"
proof -
  note f = gauged_facts
  have c: "card {ipnet_String (gauged_addr 1), ipnet_String (gauged_addr 2)} = 2" using f(7) by simp
  show "gauges_match (subnets gauged_store) gauged" "small_tables (subnets gauged_store)"
    using c by (auto simp: gauges_match_def small_tables_def gauged_store_def gauged_def gauge_def split: if_splits)
  show "mem_ok gauged_store"
    using f by (auto simp: mem_ok_def gauged_store_def prefix_ok_def split: if_splits)
  show "finite (dom (leases gauged_store))" "finite (dom (subnets gauged_store))"
    "dom (subnets gauged_store) = ipnet_String ` {NewPrefix demo_net}" by (auto simp: gauged_store_def)
  show "nets_ok {NewPrefix demo_net}" using f by (auto simp: nets_ok_def)
  have l: "leased (leases gauged_store) = {gauged_addr 1, gauged_addr 2}"
  proof
    show "leased (leases gauged_store) \<subseteq> {gauged_addr 1, gauged_addr 2}"
      by (auto simp: leased_def gauged_store_def split: if_splits)
    have "gauged_addr 1 \<in> leased (leases gauged_store)" unfolding leased_def gauged_store_def by (auto intro!: exI [of _ 1])
    moreover have "gauged_addr 2 \<in> leased (leases gauged_store)" unfolding leased_def gauged_store_def by (auto intro!: exI [of _ 2])
    ultimately show "{gauged_addr 1, gauged_addr 2} \<subseteq> leased (leases gauged_store)" by simp
  qed
  have o: "owned (NewPrefix demo_net) (gauged_addr i)" if "i \<le> 2" for i
    using f(9,10) that unfolding owned_def gauged_addr_def by (intro exI [of _ "net_base demo_net + i"]) simp
  have "{ip \<in> {gauged_addr 1, gauged_addr 2}. contains (NewPrefix demo_net) (IP ip)} = {gauged_addr 1, gauged_addr 2}"
    using f by auto
  then show "lease_inv {NewPrefix demo_net} (subnets gauged_store) (leases gauged_store)"
    unfolding lease_inv_def l using o f(8) by (auto simp: gauged_store_def split: if_splits)
qed

theorem gauges_track_allocations_witness:
  "gauges_match (subnets (fst (snd (metricsIPStore_Purge (memory_Store sorted_list_of_set sorted_list_of_set) sorted_list_of_set
      12 10 (gauged_store, gauged)))))
    (snd (snd (metricsIPStore_Purge (memory_Store sorted_list_of_set sorted_list_of_set) sorted_list_of_set 12 10 (gauged_store, gauged))))"
  using gauges_track_allocations [OF gauged_store_ok(1,2) orders_sorted orders_sorted gauged_store_ok(3-8) refl]
  by (metis prod.collapse)

end
