(* ===== verification/Bolt_Server.thy ===== *)
theory Bolt_Server
  imports Memory_Server Bolt_Store
begin

text \<open>
  One interface of the daemon over the file store, through restarts: the process may stop between two
  steps, open its file again, make a new allocator from the same configuration and go on.
\<close>

section \<open>The file store under the handler\<close>

definition bolt_handler :: "'v lease_codec \<Rightarrow> duration \<Rightarrow> (multiIPAllocator, 'v boltStore) Handler" where
  "bolt_handler c d = multi_handler (bolt_leases c Commits) (bolt_ips Commits) d"

lemma clock_range_timeNow: "clock_range t \<Longrightarrow> clock_range (timeNow t)"
  using timeNow_bounds(1) [of t] by (auto simp: clock_range_def timeNow_def Second_def)

lemma owned_16: "owned p ip \<Longrightarrow> length (IP ip) = 16"
  by (auto simp: owned_def alloc_addr_def)

lemma bolt_handler_store:
  assumes "codec_ok c"
  shows "handler_store (bolt_ips Commits) (bolt_leases c Commits) lease_storable (bolt_ready c N) bolt_view
    (bolt_leases_of c) clock_range"
proof (intro handler_store.intro handler_store_axioms.intro)
  show "reliable_ip_store (bolt_ips Commits) (bolt_ready c N) bolt_view (bolt_leases_of c)"
    by (rule bolt.reliable_ip_store_axioms)
  show "lease_store (bolt_leases c Commits) lease_storable (bolt_ready c N) (bolt_leases_of c) bolt_view"
    by (rule bolt_lease_store [OF assms])
qed (auto simp: lease_storable_def clock_range_timeNow owned_16)

definition subnet_keys :: "Subnet list \<Rightarrow> string set" where
  "subnet_keys subs = (\<lambda>x. ipnet_String (Subnet_Subnet x)) ` set subs"

text \<open>Making the allocators saves their subnets: each is known to the session and has a bucket, which
  is empty only if it is new.\<close>

lemma new_allocators_bolt:
  "new_allocators (bolt_ips Commits) subs s = (Inr as, s') \<Longrightarrow>
    dom (bolt_subnets s') = dom (bolt_subnets s) \<union> subnet_keys subs \<and>
    bolt_view s' = (\<lambda>t. if t \<in> subnet_keys subs \<and> bolt_view s t = None then Some {} else bolt_view s t) \<and>
    (\<forall>c. bolt_leases_of c s' = bolt_leases_of c s)"
proof (induction subs arbitrary: s as)
  case (Cons x subs)
  let ?t = "ipnet_String (Subnet_Subnet x)"
  obtain b s1 as1 where h: "SimpleIPAllocator (bolt_ips Commits) x s = (Inr b, s1)"
    "new_allocators (bolt_ips Commits) subs s1 = (Inr as1, s')"
    using Cons.prems by (auto split: prod.splits sum.splits)
  have "s1 = snd (boltStore_SaveSubnet Commits (Subnet_Subnet x) s)"
    using h(1) by (auto simp: SimpleIPAllocator_def bolt_ips_def split: sum.splits prod.splits)
  then have s1: "dom (bolt_subnets s1) = insert ?t (dom (bolt_subnets s))"
    "bolt_view s1 = (\<lambda>t. if t = ?t \<and> bolt_view s t = None then Some {} else bolt_view s t)"
    "\<And>c. bolt_leases_of c s1 = bolt_leases_of c s"
    by (auto simp: bolt_effects fun_eq_iff)
  show ?case using Cons.IH [OF h(2)] unfolding s1 by (auto simp: subnet_keys_def fun_eq_iff)
qed (simp add: subnet_keys_def)

lemma DualStack_bolt:
  assumes "DualStackIPAllocator (bolt_ips Commits) subs s = (Inr a, s')"
  shows "dom (bolt_subnets s') = dom (bolt_subnets s) \<union> subnet_keys subs \<and>
    bolt_view s' = (\<lambda>t. if t \<in> subnet_keys subs \<and> bolt_view s t = None then Some {} else bolt_view s t) \<and>
    (\<forall>c. bolt_leases_of c s' = bolt_leases_of c s)"
proof -
  obtain as4 s4 as6 where h:
    "new_allocators (bolt_ips Commits) (filter (\<lambda>x. to4 (IP (Subnet_Subnet x)) \<noteq> None) subs) s = (Inr as4, s4)"
    "new_allocators (bolt_ips Commits) (filter (\<lambda>x. to4 (IP (Subnet_Subnet x)) = None) subs) s4 = (Inr as6, s')"
    using assms by (auto simp: DualStackIPAllocator_def split: if_splits prod.splits sum.splits)
  have k: "subnet_keys subs = subnet_keys (filter (\<lambda>x. to4 (IP (Subnet_Subnet x)) \<noteq> None) subs) \<union>
      subnet_keys (filter (\<lambda>x. to4 (IP (Subnet_Subnet x)) = None) subs)"
    unfolding subnet_keys_def image_Un [symmetric] by (auto intro!: arg_cong2 [where f = image])
  show ?thesis
    using new_allocators_bolt [OF h(1)] new_allocators_bolt [OF h(2)] unfolding k by (auto simp: fun_eq_iff)
qed

text \<open>The invariant of the server: that of the handler over the configured subnets, which are the
  subnets of the session.\<close>

definition bolt_inv :: "'v lease_codec \<Rightarrow> Subnet list \<Rightarrow> multiIPAllocator \<Rightarrow> 'v boltStore \<Rightarrow> bool" where
  "bolt_inv c subs a s \<longleftrightarrow> handler_inv (bolt_ready c (subnet_keys subs)) bolt_view (bolt_leases_of c) a s \<and>
     nets a = (\<lambda>x. NewPrefix (Subnet_Subnet x)) ` set subs"

lemma config_keys: "config_ok subs \<Longrightarrow> x \<in> set subs \<Longrightarrow> ipnet_String (NewPrefix (Subnet_Subnet x)) = ipnet_String (Subnet_Subnet x)"
  using NewPrefix_same(8) by (auto simp: config_ok_def subnet_ok_def)

text \<open>Opening the store and making the allocator, on a file whose leases and tables agree (as in a file
  without buckets, or one the server left).\<close>

lemma bolt_open_inv:
  assumes cfg: "config_ok subs" and s: "bolt_ready c {} s"
    and inv: "lease_inv ((\<lambda>x. NewPrefix (Subnet_Subnet x)) ` set subs)
      (\<lambda>t. if t \<in> subnet_keys subs \<and> bolt_view s t = None then Some {} else bolt_view s t) (bolt_leases_of c s)"
  shows "\<exists>a s'. DualStackIPAllocator (bolt_ips Commits) subs s = (Inr a, s') \<and> bolt_inv c subs a s'"
proof -
  have c: "subs \<noteq> []" "\<forall>x\<in>set subs. subnet_ok x \<and> Validate x = Inr ()" "\<forall>x\<in>set subs. subnet_ok x"
    "sorted_wrt disjoint_nets (map Subnet_Subnet subs)"
    using cfg by (auto simp: config_ok_def)
  obtain a s' where a: "DualStackIPAllocator (bolt_ips Commits) subs s = (Inr a, s')" "bolt_ready c {} s'"
    "bolt_leases_of c s' = bolt_leases_of c s" "multi_ok a"
    "list_all2 starts (mia_m a IPv4) (filter (\<lambda>x. to4 (IP (Subnet_Subnet x)) \<noteq> None) subs)"
    "list_all2 starts (mia_m a IPv6) (filter (\<lambda>x. to4 (IP (Subnet_Subnet x)) = None) subs)"
    "\<forall>f. f \<noteq> IPv4 \<and> f \<noteq> IPv6 \<longrightarrow> mia_m a f = []"
    using reliable_ip_store.DualStackIPAllocator_ok [OF bolt.reliable_ip_store_axioms c(1,2) s] by blast
  note d = DualStack_bolt [OF a(1)]
  have "bolt_ready c (subnet_keys subs) s'" using a(2) d by (auto simp: bolt_ready_def)
  moreover have "lease_inv (nets a) (bolt_view s') (bolt_leases_of c s')"
    using inv d unfolding server_nets(2) [OF c(3,4) a(5-7)] a(3) by simp
  ultimately show ?thesis
    using a(1,4) server_nets [OF c(3,4) a(5-7)] by (auto simp: bolt_inv_def handler_inv_def)
qed

section \<open>The server and its restarts\<close>

definition file_of :: "'v boltStore \<Rightarrow> 'v bolt_file" where
  "file_of s = \<lparr>file_leases = Some (bucketLeases (bolt_db s)), file_subnets = Some (bucketSubnets (bolt_db s))\<rparr>"

definition new_file :: "'v bolt_file" where
  "new_file = \<lparr>file_leases = None, file_subnets = None\<rparr>"

definition bolt_start :: "Subnet list \<Rightarrow> 'v bolt_file \<Rightarrow> multiIPAllocator \<times> 'v boltStore \<Rightarrow> bool" where
  "bolt_start subs f x \<longleftrightarrow>
     (\<exists>s0. FileStore None Commits f = Inr s0 \<and> (\<exists>a s. DualStackIPAllocator (bolt_ips Commits) subs s0 = (Inr a, s) \<and> x = (a, s)))"

inductive bolt_step :: "'v lease_codec \<Rightarrow> Subnet list \<Rightarrow> (string \<Rightarrow> u64) \<Rightarrow> duration \<Rightarrow>
    multiIPAllocator \<times> 'v boltStore \<Rightarrow> multiIPAllocator \<times> 'v boltStore \<Rightarrow> bool"
  for c :: "'v lease_codec" and subs :: "Subnet list" and strKey :: "string \<Rightarrow> u64" and d :: duration where
  request: "clock_range now' \<Longrightarrow> requestIP (bolt_handler c d) strKey now now' src req a s = Some (r, a', s') \<Longrightarrow>
    \<not> (\<exists>e. r = Inl (Panic e)) \<Longrightarrow> bolt_step c subs strKey d (a, s) (a', s')"
| purge: "range_order ks (bucketLeases (bolt_db s)) \<Longrightarrow> range_order ss (bolt_subnets s) \<Longrightarrow>
    boltStore_Purge c Commits ks ss t s = (r, s') \<Longrightarrow> bolt_step c subs strKey d (a, s) (a, s')"
| restart: "bolt_start subs (file_of s) x \<Longrightarrow> bolt_step c subs strKey d (a, s) x"

inductive bolt_reach :: "'v lease_codec \<Rightarrow> Subnet list \<Rightarrow> (string \<Rightarrow> u64) \<Rightarrow> duration \<Rightarrow>
    multiIPAllocator \<times> 'v boltStore \<Rightarrow> bool"
  for c :: "'v lease_codec" and subs :: "Subnet list" and strKey :: "string \<Rightarrow> u64" and d :: duration where
  start: "bolt_start subs new_file x \<Longrightarrow> bolt_reach c subs strKey d x"
| step: "bolt_reach c subs strKey d x \<Longrightarrow> bolt_step c subs strKey d x y \<Longrightarrow> bolt_reach c subs strKey d y"

text \<open>What a file gives when it is opened: \<open>opens_with\<close> says that its leases and tables agree, once the buckets
  of new subnets are there.\<close>

definition opens_with :: "'v lease_codec \<Rightarrow> Subnet list \<Rightarrow> 'v boltStore \<Rightarrow> bool" where
  "opens_with c subs s \<longleftrightarrow> lease_inv ((\<lambda>x. NewPrefix (Subnet_Subnet x)) ` set subs)
     (\<lambda>t. if t \<in> subnet_keys subs \<and> bolt_view s t = None then Some {} else bolt_view s t) (bolt_leases_of c s)"

definition empty_bolt :: "'v boltStore" where
  "empty_bolt = \<lparr>bolt_db = \<lparr>bucketLeases = Map.empty, bucketSubnets = Map.empty\<rparr>, bolt_subnets = Map.empty\<rparr>"

lemma new_file_opens:
  assumes "config_ok subs"
  shows "FileStore None Commits new_file = Inr empty_bolt" "bolt_ready c {} empty_bolt" "opens_with c subs empty_bolt"
proof -
  show "FileStore None Commits new_file = Inr empty_bolt"
    by (simp add: FileStore_def new_file_def bucket_or_new_def empty_bolt_def)
  show "bolt_ready c {} empty_bolt"
    by (simp add: bolt_ready_def bolt_ok_def mem_ok_def bolt_view_def bolt_abs_def bolt_leases_of_def empty_bolt_def)
  have none: "bolt_leases_of c empty_bolt = Map.empty" by (simp add: bolt_leases_of_def fun_eq_iff empty_bolt_def)
  show "opens_with c subs empty_bolt"
    unfolding opens_with_def none using config_keys [OF assms]
    by (auto simp: lease_inv_def leased_def subnet_keys_def bolt_view_def empty_bolt_def)
qed

lemma file_of_opens:
  assumes inv: "bolt_inv c subs a s"
  shows "FileStore None Commits (file_of s) = Inr (s\<lparr>bolt_subnets := Map.empty\<rparr>)"
    "bolt_ready c {} (s\<lparr>bolt_subnets := Map.empty\<rparr>)" "opens_with c subs (s\<lparr>bolt_subnets := Map.empty\<rparr>)"
proof -
  let ?s = "s\<lparr>bolt_subnets := Map.empty\<rparr>"
  show "FileStore None Commits (file_of s) = Inr ?s" by (simp add: FileStore_def file_of_def bucket_or_new_def)
  have h: "bolt_ready c (subnet_keys subs) s" "lease_inv (nets a) (bolt_view s) (bolt_leases_of c s)"
    "nets a = (\<lambda>x. NewPrefix (Subnet_Subnet x)) ` set subs"
    using inv by (auto simp: bolt_inv_def handler_inv_def)
  have fr: "bolt_view ?s = bolt_view s" "bolt_leases_of c ?s = bolt_leases_of c s"
    by (simp_all add: bolt_view_def bolt_leases_of_def fun_eq_iff)
  show "bolt_ready c {} ?s" using h(1) fr by (simp add: bolt_ready_def bolt_ok_def bolt_abs_def)
  have "subnet_keys subs \<subseteq> dom (bolt_view s)" using h(1) by (auto simp: bolt_ready_def)
  then have "(\<lambda>t. if t \<in> subnet_keys subs \<and> bolt_view ?s t = None then Some {} else bolt_view ?s t) = bolt_view s"
    unfolding fr by (auto simp: fun_eq_iff)
  then show "opens_with c subs ?s" using h(2) unfolding opens_with_def h(3) fr by simp
qed

lemma bolt_start_inv:
  assumes "config_ok subs" "FileStore None Commits f = Inr s0" "bolt_ready c {} s0" "opens_with c subs s0"
  shows "\<exists>a s. bolt_start subs f (a, s)" "bolt_start subs f (a, s) \<Longrightarrow> bolt_inv c subs a s"
  using bolt_open_inv [OF assms(1,3)] assms(2,4) unfolding opens_with_def bolt_start_def by auto

lemma bolt_start_new:
  fixes c :: "'v lease_codec"
  assumes "config_ok subs"
  shows "\<exists>a s. bolt_start subs (new_file :: 'v bolt_file) (a, s)" and "bolt_start subs new_file (a, s) \<Longrightarrow> bolt_inv c subs a s"
  using bolt_start_inv [OF assms new_file_opens(1) [OF assms] new_file_opens(2,3) [OF assms, of c]] by blast+

lemma bolt_start_again:
  assumes cfg: "config_ok subs" and inv: "bolt_inv c subs a s"
  shows "\<exists>a' s'. bolt_start subs (file_of s) (a', s')"
    and "bolt_start subs (file_of s) (a', s') \<Longrightarrow> bolt_inv c subs a' s'"
  using bolt_start_inv [OF cfg file_of_opens [OF inv]] by blast+

lemma bolt_start_leases:
  assumes "bolt_start subs (file_of s) (a', s')"
  shows "bolt_leases_of c s' = bolt_leases_of c s"
proof -
  obtain s0 where s0: "FileStore None Commits (file_of s) = Inr s0"
    "DualStackIPAllocator (bolt_ips Commits) subs s0 = (Inr a', s')"
    using assms by (auto simp: bolt_start_def)
  then have "bolt_leases_of c s' = bolt_leases_of c s0" using DualStack_bolt [of subs s0 a' s'] by blast
  moreover have "bolt_leases_of c s0 = bolt_leases_of c s"
    using s0(1) by (auto simp: FileStore_def file_of_def bucket_or_new_def bolt_leases_of_def)
  ultimately show ?thesis by simp
qed

lemma bolt_request:
  assumes "codec_ok c" "bolt_inv c subs a s" "clock_range now'"
  shows "\<exists>r a' s'. requestIP (bolt_handler c d) strKey now now' src req a s = Some (r, a', s') \<and>
    ((\<forall>e. r \<noteq> Inl (Panic e)) \<longrightarrow> bolt_inv c subs a' s' \<and>
      request_effect (strKey src) now d (bolt_leases_of c s) (bolt_leases_of c s') now' r)"
proof -
  have h: "handler_inv (bolt_ready c (subnet_keys subs)) bolt_view (bolt_leases_of c) a s"
    using assms(2) by (simp add: bolt_inv_def)
  obtain r a' s' where r: "requestIP (bolt_handler c d) strKey now now' src req a s = Some (r, a', s')" "same_nets a a'"
    "(\<forall>e. r \<noteq> Inl (Panic e)) \<longrightarrow> handler_inv (bolt_ready c (subnet_keys subs)) bolt_view (bolt_leases_of c) a' s' \<and>
      request_effect (strKey src) now d (bolt_leases_of c s) (bolt_leases_of c s') now' r"
    using handler_store.requestIP_safe [OF bolt_handler_store [OF assms(1)] h assms(3), of d strKey now src req]
    unfolding bolt_handler_def by blast
  have "nets a' = (\<lambda>x. NewPrefix (Subnet_Subnet x)) ` set subs"
    using nets_same [OF r(2)] assms(2) by (simp add: bolt_inv_def)
  then show ?thesis using r(1,3)
    by (intro exI [of _ r] exI [of _ a'] exI [of _ s']) (simp add: bolt_inv_def)
qed

lemma bolt_purge_inv:
  assumes cfg: "config_ok subs" and inv: "bolt_inv c subs a s"
    and o: "range_order ks (bucketLeases (bolt_db s))" "range_order ss (bolt_subnets s)"
    and p: "boltStore_Purge c Commits ks ss t s = (r, s')"
  shows "bolt_inv c subs a s'"
proof -
  have h: "bolt_ready c (subnet_keys subs) s" "lease_inv (nets a) (bolt_view s) (bolt_leases_of c s)"
    "nets a = (\<lambda>x. NewPrefix (Subnet_Subnet x)) ` set subs" "multi_ok a" "nets_apart a"
    using inv by (auto simp: bolt_inv_def handler_inv_def)
  have s': "bolt_ready c (subnet_keys subs) s'" "bolt_leases_of c s' = live_leases t (bolt_leases_of c s)"
    "bolt_view s' = (\<lambda>sub. if sub \<in> dom (bolt_subnets s)
      then map_option (\<lambda>A. A - purged_ips t (bolt_leases_of c s) sub) (bolt_view s sub) else bolt_view s sub)"
    using bolt_Purge_eq [OF h(1) o, of t] p by auto
  have "ipnet_String p \<in> dom (bolt_subnets s)" if "p \<in> nets a" for p
  proof -
    obtain x where x: "x \<in> set subs" "p = NewPrefix (Subnet_Subnet x)" using \<open>p \<in> nets a\<close> h(3) by blast
    then have "ipnet_String p \<in> subnet_keys subs" using config_keys [OF cfg] by (simp add: subnet_keys_def)
    then show ?thesis using h(1) unfolding bolt_ready_def by blast
  qed
  then have "lease_inv (nets a) (bolt_view s') (live_leases t (bolt_leases_of c s))"
    by (intro lease_inv_purge [OF h(2) multi_nets_ok [OF h(4,5)]]) (simp add: s'(3))
  then show ?thesis using s'(1,2) h by (simp add: bolt_inv_def handler_inv_def)
qed

lemma bolt_step_inv:
  "bolt_step c subs strKey d x y \<Longrightarrow> codec_ok c \<Longrightarrow> config_ok subs \<Longrightarrow> bolt_inv c subs (fst x) (snd x) \<Longrightarrow>
    bolt_inv c subs (fst y) (snd y)"
proof (induction rule: bolt_step.induct)
  case (request now' now src req a s r a' s')
  then show ?case using bolt_request [of c subs a s now' d strKey now src req] by auto
next
  case (purge ks s ss t r s' a)
  then show ?case using bolt_purge_inv [of subs c a s ks ss t r s'] by simp
next
  case (restart s x a)
  then show ?case using bolt_start_again(2) [of subs c a s "fst x" "snd x"] by simp
qed

lemma bolt_reach_inv:
  "bolt_reach c subs strKey d x \<Longrightarrow> codec_ok c \<Longrightarrow> config_ok subs \<Longrightarrow> bolt_inv c subs (fst x) (snd x)"
proof (induction rule: bolt_reach.induct)
  case (start x)
  then show ?case using bolt_start_new(2) [of subs "fst x" "snd x" c] by simp
next
  case (step x y)
  then show ?case using bolt_step_inv by blast
qed

lemma bolt_reach_handler:
  "bolt_reach c subs strKey d (a, s) \<Longrightarrow> codec_ok c \<Longrightarrow> config_ok subs \<Longrightarrow>
    handler_inv (bolt_ready c (subnet_keys subs)) bolt_view (bolt_leases_of c) a s"
  using bolt_reach_inv [of c subs strKey d "(a, s)"] by (simp add: bolt_inv_def)

section \<open>A run with a restart\<close>

definition bolt_boot :: "Subnet list \<Rightarrow> 'v bolt_file \<Rightarrow> (multiIPAllocator \<times> 'v boltStore) option" where
  "bolt_boot subs f =
     (case FileStore None Commits f of
        Inl e \<Rightarrow> None
      | Inr s0 \<Rightarrow> (case DualStackIPAllocator (bolt_ips Commits) subs s0 of (Inr a, s) \<Rightarrow> Some (a, s) | _ \<Rightarrow> None))"

definition bolt_serve :: "'v lease_codec \<Rightarrow> (string \<Rightarrow> u64) \<Rightarrow> duration \<Rightarrow> time \<Rightarrow> string \<Rightarrow> RequestIP \<Rightarrow>
    multiIPAllocator \<times> 'v boltStore \<Rightarrow> (multiIPAllocator \<times> 'v boltStore) option" where
  "bolt_serve c strKey d now src req x =
     (case x of (a, s) \<Rightarrow>
        (case requestIP (bolt_handler c d) strKey now now src req a s of
           Some (Inr res, a', s') \<Rightarrow> Some (a', s')
         | _ \<Rightarrow> None))"

lemma bolt_boot_start: "bolt_boot subs f = Some x \<Longrightarrow> bolt_start subs f x"
  by (auto simp: bolt_boot_def bolt_start_def split: sum.splits prod.splits)

lemma bolt_serve_step:
  assumes "bolt_serve c strKey d now src req x = Some y" "clock_range now"
  shows "bolt_step c subs strKey d x y"
proof -
  obtain a s res a' s' where r: "x = (a, s)" "y = (a', s')"
    "requestIP (bolt_handler c d) strKey now now src req a s = Some (Inr res, a', s')"
    using assms(1) by (auto simp: bolt_serve_def split: prod.splits option.splits sum.splits)
  show ?thesis unfolding r(1,2) by (rule bolt_step.request [OF assms(2) r(3)]) simp
qed

text \<open>A client is served, the daemon restarts, another client is served.\<close>

lemma bolt_demo_eval:
  "case bolt_boot demo_subnets new_file of
     None \<Rightarrow> False
   | Some x0 \<Rightarrow>
       (case bolt_serve plain_codec demo_key (60 * Second) 5 ''fe80::a'' any_request x0 of
          None \<Rightarrow> False
        | Some x1 \<Rightarrow>
            (case bolt_boot demo_subnets (file_of (snd x1)) of
               None \<Rightarrow> False
             | Some x2 \<Rightarrow>
                 (case bolt_serve plain_codec demo_key (60 * Second) 6 ''fe80::b'' any_request x2 of
                    None \<Rightarrow> False
                  | Some x3 \<Rightarrow> bolt_leases_of plain_codec (snd x3) 1 = Some demo_lease_a \<and>
                      bolt_leases_of plain_codec (snd x3) 2 = Some demo_lease_b \<and> mia_m (fst x3) IPv4 \<noteq> [])))"
  by code_simp

lemma bolt_demo_run:
  "\<exists>a s. bolt_reach plain_codec demo_subnets demo_key (60 * Second) (a, s) \<and>
    bolt_leases_of plain_codec s 1 = Some demo_lease_a \<and> bolt_leases_of plain_codec s 2 = Some demo_lease_b \<and>
    mia_m a IPv4 \<noteq> []"
proof -
  let ?c = "plain_codec" and ?d = "60 * Second"
  obtain x0 x1 x2 x3 where x: "bolt_boot demo_subnets new_file = Some x0"
    "bolt_serve ?c demo_key ?d 5 ''fe80::a'' any_request x0 = Some x1"
    "bolt_boot demo_subnets (file_of (snd x1)) = Some x2"
    "bolt_serve ?c demo_key ?d 6 ''fe80::b'' any_request x2 = Some x3"
    and l: "bolt_leases_of ?c (snd x3) 1 = Some demo_lease_a" "bolt_leases_of ?c (snd x3) 2 = Some demo_lease_b"
      "mia_m (fst x3) IPv4 \<noteq> []"
    using bolt_demo_eval by (auto split: option.splits)
  have clk: "clock_range 5" "clock_range 6" by (simp_all add: clock_range_def Second_def)
  have "bolt_step ?c demo_subnets demo_key ?d (fst x1, snd x1) x2"
    by (rule bolt_step.restart [OF bolt_boot_start [OF x(3)]])
  then have "bolt_reach ?c demo_subnets demo_key ?d x3"
    using bolt_reach.step [OF bolt_reach.step [OF bolt_reach.step [OF bolt_reach.start [OF bolt_boot_start [OF x(1)]]
      bolt_serve_step [OF x(2) clk(1)]]] bolt_serve_step [OF x(4) clk(2)]] by simp
  then show ?thesis using l by (metis prod.collapse)
qed

section \<open>Properties\<close>

text \<open>With the file store too, through requests, purges and restarts in any order, two clients'
  leases have no address in common.\<close>

theorem bolt_leases_never_share:
  assumes "codec_ok c" "config_ok subs" "bolt_reach c subs strKey d (a, s)"
    "bolt_leases_of c s k = Some l" "bolt_leases_of c s k' = Some l'" "k \<noteq> k'"
    "ip \<in> set (Lease_IPs l)" "jp \<in> set (Lease_IPs l')"
  shows "ip \<noteq> jp \<and> ipnet_String ip \<noteq> ipnet_String jp"
  by (rule handler_inv_no_share [OF bolt_reach_handler [OF assms(3,1,2)] assms(4-8)])

theorem bolt_leases_never_share_witness:
  "\<exists>a s. bolt_reach plain_codec demo_subnets demo_key (60 * Second) (a, s) \<and>
    bolt_leases_of plain_codec s 1 = Some demo_lease_a \<and> bolt_leases_of plain_codec s 2 = Some demo_lease_b \<and>
    ipnet_String (Lease_IPs demo_lease_a ! 0) \<noteq> ipnet_String (Lease_IPs demo_lease_b ! 0)"
proof -
  obtain a s where r: "bolt_reach plain_codec demo_subnets demo_key (60 * Second) (a, s)"
    "bolt_leases_of plain_codec s 1 = Some demo_lease_a" "bolt_leases_of plain_codec s 2 = Some demo_lease_b"
    using bolt_demo_run by blast
  have ne: "(1 :: u64) \<noteq> 2" by simp
  have m: "Lease_IPs demo_lease_a ! 0 \<in> set (Lease_IPs demo_lease_a)"
    "Lease_IPs demo_lease_b ! 0 \<in> set (Lease_IPs demo_lease_b)"
    by (simp_all add: demo_lease_a_def demo_lease_b_def)
  show ?thesis using bolt_leases_never_share [OF plain_codec_ok demo_config_ok r ne m] r by blast
qed

text \<open>In every state reached with the file store, restarts included, the bucket of a configured
  subnet holds exactly the leased addresses of that subnet.\<close>

theorem bolt_allocated_iff_leased:
  assumes "codec_ok c" "config_ok subs" "bolt_reach c subs strKey d (a, s)" "b \<in> allocators a"
  shows "bolt_view s (ipnet_String (net_of b)) = Some (ipnet_String `
    {ip. \<exists>k l. bolt_leases_of c s k = Some l \<and> ip \<in> set (Lease_IPs l) \<and> contains (net_of b) (IP ip)})"
  by (rule handler_inv_tables [OF bolt_reach_handler [OF assms(3,1,2)] assms(4)])

theorem bolt_allocated_iff_leased_witness:
  "\<exists>a s b. bolt_reach plain_codec demo_subnets demo_key (60 * Second) (a, s) \<and> b \<in> set (mia_m a IPv4) \<and>
    bolt_leases_of plain_codec s 1 = Some demo_lease_a \<and> bolt_view s (ipnet_String (net_of b)) = Some (ipnet_String `
    {ip. \<exists>k l. bolt_leases_of plain_codec s k = Some l \<and> ip \<in> set (Lease_IPs l) \<and> contains (net_of b) (IP ip)})"
proof -
  obtain a s where r: "bolt_reach plain_codec demo_subnets demo_key (60 * Second) (a, s)"
    "bolt_leases_of plain_codec s 1 = Some demo_lease_a" "mia_m a IPv4 \<noteq> []"
    using bolt_demo_run by blast
  then have b: "hd (mia_m a IPv4) \<in> set (mia_m a IPv4)" by simp
  then have "hd (mia_m a IPv4) \<in> allocators a" unfolding allocators_def by blast
  then show ?thesis using bolt_allocated_iff_leased [OF plain_codec_ok demo_config_ok r(1)] r(1,2) b by blast
qed

text \<open>C28: In every state reached with the file store the daemon can stop and start again on its file with
  the same configuration: that succeeds, keeps every lease, and a request then is answered.\<close>

theorem bolt_restart_succeeds:
  assumes "codec_ok c" "config_ok subs" "bolt_reach c subs strKey d (a, s)" "clock_range now'"
  shows "\<exists>a1 s1 r x. bolt_start subs (file_of s) (a1, s1) \<and> bolt_reach c subs strKey d (a1, s1) \<and>
    bolt_leases_of c s1 = bolt_leases_of c s \<and>
    requestIP (bolt_handler c d) strKey now now' src req a1 s1 = Some (r, x)"
proof -
  have inv: "bolt_inv c subs a s" using bolt_reach_inv [OF assms(3,1,2)] by simp
  obtain a1 s1 where s1: "bolt_start subs (file_of s) (a1, s1)" using bolt_start_again(1) [OF assms(2) inv] by blast
  have "bolt_reach c subs strKey d (a1, s1)" by (rule bolt_reach.step [OF assms(3) bolt_step.restart [OF s1]])
  moreover have "bolt_leases_of c s1 = bolt_leases_of c s" using bolt_start_leases [OF s1] .
  moreover obtain r a2 s2 where "requestIP (bolt_handler c d) strKey now now' src req a1 s1 = Some (r, a2, s2)"
    using bolt_request [OF assms(1) bolt_start_again(2) [OF assms(2) inv s1] assms(4)] by blast
  ultimately show ?thesis using s1 by blast
qed

theorem bolt_restart_succeeds_witness:
  "\<exists>a s a1 s1. bolt_reach plain_codec demo_subnets demo_key (60 * Second) (a, s) \<and>
    bolt_start demo_subnets (file_of s) (a1, s1) \<and> bolt_leases_of plain_codec s1 1 = Some demo_lease_a"
proof -
  obtain a s where r: "bolt_reach plain_codec demo_subnets demo_key (60 * Second) (a, s)"
    "bolt_leases_of plain_codec s 1 = Some demo_lease_a"
    using bolt_demo_run by blast
  have "clock_range 7" by (simp add: clock_range_def Second_def)
  from bolt_restart_succeeds [OF plain_codec_ok demo_config_ok r(1) this] r show ?thesis by metis
qed

end
