(* ===== verification/Any_Store.thy ===== *)
theory Any_Store
  imports Metrics Bolt_Server
begin

text \<open>
  A value of the Go interface \<open>Store\<close> made by \<open>newStore\<close> is a memory store or a file store; the state of such
  a store is a sum, and an operation is that of the store there is.  Two stores with the contracts give
  a store with the contracts, and so do gauges around it.
\<close>

definition dispatch :: "('a \<Rightarrow> 'r \<times> 'a) \<Rightarrow> ('b \<Rightarrow> 'r \<times> 'b) \<Rightarrow> 'a + 'b \<Rightarrow> 'r \<times> ('a + 'b)" where
  "dispatch f g s = (case s of Inl x \<Rightarrow> map_prod id Inl (f x) | Inr y \<Rightarrow> map_prod id Inr (g y))"

definition sum_ips :: "'a IPStore \<Rightarrow> 'b IPStore \<Rightarrow> ('a + 'b) IPStore" where
  "sum_ips p q =
     \<lparr>ip_SaveSubnet = (\<lambda>sub. dispatch (ip_SaveSubnet p sub) (ip_SaveSubnet q sub)),
      ip_AllocateIP = (\<lambda>sub ip. dispatch (ip_AllocateIP p sub ip) (ip_AllocateIP q sub ip)),
      ip_FreeIP = (\<lambda>sub ip. dispatch (ip_FreeIP p sub ip) (ip_FreeIP q sub ip))\<rparr>"

definition sum_leases :: "'a LeaseStore \<Rightarrow> 'b LeaseStore \<Rightarrow> ('a + 'b) LeaseStore" where
  "sum_leases p q =
     \<lparr>ls_Lease = (\<lambda>k. dispatch (ls_Lease p k) (ls_Lease q k)),
      ls_SaveLease = (\<lambda>k l. dispatch (ls_SaveLease p k l) (ls_SaveLease q k l)),
      ls_DeleteLease = (\<lambda>k. dispatch (ls_DeleteLease p k) (ls_DeleteLease q k))\<rparr>"

definition sum_Store :: "'a Store \<Rightarrow> 'b Store \<Rightarrow> ('a + 'b) Store" where
  "sum_Store p q =
     \<lparr>st_ips = sum_ips (st_ips p) (st_ips q), st_leases = sum_leases (st_leases p) (st_leases q),
      st_Leases = dispatch (st_Leases p) (st_Leases q),
      st_Purge = (\<lambda>t. dispatch (st_Purge p t) (st_Purge q t)),
      st_Subnets = dispatch (st_Subnets p) (st_Subnets q),
      st_AllocatedIPs = (\<lambda>sub. dispatch (st_AllocatedIPs p sub) (st_AllocatedIPs q sub))\<rparr>"

lemma dispatch_simps [simp]:
  "dispatch f g (Inl x) = map_prod id Inl (f x)" "dispatch f g (Inr y) = map_prod id Inr (g y)"
  by (simp_all add: dispatch_def)

lemma dispatch_result [simp]:
  "map_prod id h p = (r, z) \<longleftrightarrow> (\<exists>x. p = (r, x) \<and> z = h x)"
  by (cases p) auto

lemma ip_store_fst [simp]: "fst (map_prod id h p) = fst p" "snd (map_prod id h p) = h (snd p)"
  by (cases p; simp)+

lemma sum_reliable:
  assumes "reliable_ip_store p inv1 view1 other1" "reliable_ip_store q inv2 view2 other2"
  shows "reliable_ip_store (sum_ips p q) (case_sum inv1 inv2) (case_sum view1 view2) (case_sum other1 other2)"
proof -
  note P = assms(1) [unfolded reliable_ip_store_def reliable_ip_store_axioms_def ip_store_def]
    and Q = assms(2) [unfolded reliable_ip_store_def reliable_ip_store_axioms_def ip_store_def]
  show ?thesis
    unfolding reliable_ip_store_def reliable_ip_store_axioms_def ip_store_def sum_ips_def
    using P Q by (auto split: sum.splits)
qed

lemma sum_lease_store:
  assumes "lease_store p storable inv1 leases1 rest1" "lease_store q storable inv2 leases2 rest2"
  shows "lease_store (sum_leases p q) storable (case_sum inv1 inv2) (case_sum leases1 leases2) (case_sum rest1 rest2)"
proof -
  note P = assms(1) [unfolded lease_store_def] and Q = assms(2) [unfolded lease_store_def]
  show ?thesis
    unfolding lease_store_def sum_leases_def using P Q by (fastforce split: sum.splits)
qed

lemma sum_handler_store:
  assumes "handler_store p1 p2 storable inv1 view1 leases1 clock" "handler_store q1 q2 storable inv2 view2 leases2 clock"
  shows "handler_store (sum_ips p1 q1) (sum_leases p2 q2) storable (case_sum inv1 inv2) (case_sum view1 view2)
    (case_sum leases1 leases2) clock"
  using assms sum_reliable sum_lease_store unfolding handler_store_def by blast

text \<open>Gauges around a store.\<close>

context lease_store
begin

lemma with_gauges:
  assumes "st_leases S = ls"
  shows "lease_store (metrics_leases S) storable (\<lambda>x. linv (fst x)) (\<lambda>x. leases_of (fst x)) (\<lambda>x. rest (fst x))"
proof (unfold_locales, unfold metrics_leases_def, simp_all only: LeaseStore.simps assms)
  fix x :: "'s \<times> gauges" and k l
  assume inv: "linv (fst x)"
  show "embedded (ls_Lease ls k) x = (Inr (leases_of (fst x) k), x)"
    using Lease_eq [OF inv, of k] by (simp add: embedded_def)
  have E: "f (fst x) = (r, s') \<Longrightarrow> Q s' \<Longrightarrow> \<exists>y. embedded f x = (r, y) \<and> Q (fst y)" for f r s' Q
    by (simp add: embedded_def)
  show "\<exists>y. embedded (ls_SaveLease ls k l) x = (Inr (), y) \<and> linv (fst y) \<and>
      leases_of (fst y) = (leases_of (fst x))(k := Some l) \<and> rest (fst y) = rest (fst x)" if "storable l"
    using SaveLease_eq [OF inv that, of k] by (elim exE conjE) (rule E; blast)
  show "\<exists>y. embedded (ls_DeleteLease ls k) x = (Inr (), y) \<and> linv (fst y) \<and>
      leases_of (fst y) = (leases_of (fst x))(k := None) \<and> rest (fst y) = rest (fst x)"
    using DeleteLease_eq [OF inv, of k] by (elim exE conjE) (rule E; blast)
qed

end

context handler_store
begin

lemma with_gauges:
  assumes "st_ips S = st" "st_leases S = ls"
  shows "handler_store (metrics_ips S) (metrics_leases S) storable (\<lambda>x. inv (fst x)) (\<lambda>x. view (fst x))
    (\<lambda>x. leases_of (fst x)) clock_ok"
  using ips.with_gauges [OF assms(1)] leases.with_gauges [OF assms(2)] storable_lease
  unfolding handler_store_def handler_store_axioms_def by blast

end

text \<open>The store of the daemon: in memory or in a file, with gauges.\<close>

definition daemon_Store :: "'v lease_codec \<Rightarrow> lease_order \<Rightarrow> (byte list set \<Rightarrow> byte list list) \<Rightarrow> key_order \<Rightarrow>
    (memoryStore + 'v boltStore) Store" where
  "daemon_Store c lk bk sk = sum_Store (memory_Store lk sk) (bolt_Store c Commits bk sk)"

text \<open>Which of the two it is does not change.\<close>

definition any_ok :: "'v lease_codec \<Rightarrow> string set \<Rightarrow> bool \<Rightarrow> memoryStore + 'v boltStore \<Rightarrow> bool" where
  "any_ok c N memory = case_sum (\<lambda>m. memory \<and> mem_ok m) (\<lambda>b. \<not> memory \<and> bolt_ready c N b)"

definition any_view :: "memoryStore + 'v boltStore \<Rightarrow> alloc_view" where
  "any_view = case_sum subnets bolt_view"

definition any_leases :: "'v lease_codec \<Rightarrow> memoryStore + 'v boltStore \<Rightarrow> u64 \<Rightarrow> lease option" where
  "any_leases c = case_sum leases (bolt_leases_of c)"

lemma handler_store_if:
  "handler_store st ls storable ok view leases_of clock \<Longrightarrow> handler_store st ls storable (\<lambda>s. P \<and> ok s) view leases_of clock"
  by (cases P) (auto simp: handler_store_def handler_store_axioms_def reliable_ip_store_def
      reliable_ip_store_axioms_def ip_store_def lease_store_def)

lemma mem_handler_store: "handler_store mem_ips mem_leases lease_storable mem_ok subnets leases clock_range"
proof -
  have "lease_store mem_leases lease_storable mem_ok leases subnets"
    using mem_lease.lease_store_axioms unfolding lease_store_def by blast
  then show ?thesis
    using mem.reliable_ip_store_axioms
    by (auto simp: handler_store_def handler_store_axioms_def lease_storable_def clock_range_timeNow owned_16)
qed

lemma daemon_handler_store:
  assumes "codec_ok c" "S = daemon_Store c lk bk sk"
  shows "handler_store (metrics_ips S) (metrics_leases S) lease_storable (\<lambda>x. any_ok c N memory (fst x))
    (\<lambda>x. any_view (fst x)) (\<lambda>x. any_leases c (fst x)) clock_range"
proof -
  have "handler_store (st_ips S) (st_leases S) lease_storable (any_ok c N memory) any_view (any_leases c) clock_range"
    using sum_handler_store [OF handler_store_if [OF mem_handler_store] handler_store_if [OF bolt_handler_store [OF assms(1), of N]]]
    by (simp add: assms(2) daemon_Store_def sum_Store_def any_ok_def any_view_def any_leases_def memory_Store_def
        bolt_Store_def)
  then show ?thesis by (rule handler_store.with_gauges) simp_all
qed

text \<open>Making an allocator only saves subnets.\<close>

lemma new_allocators_map:
  assumes "\<And>sub s. ip_SaveSubnet p sub (h s) = map_prod id h (ip_SaveSubnet q sub s)"
  shows "new_allocators p subs (h s) = map_prod id h (new_allocators q subs s)"
proof (induction subs arbitrary: s)
  case (Cons x subs)
  have "SimpleIPAllocator p x (h s) = map_prod id h (SimpleIPAllocator q x s)"
    by (auto simp: SimpleIPAllocator_def assms split: sum.splits prod.splits)
  then show ?case using Cons by (auto split: sum.splits prod.splits)
qed simp

lemma DualStack_map:
  assumes "\<And>sub s. ip_SaveSubnet p sub (h s) = map_prod id h (ip_SaveSubnet q sub s)"
  shows "DualStackIPAllocator p subs (h s) = map_prod id h (DualStackIPAllocator q subs s)"
  using new_allocators_map [OF assms] by (auto simp: DualStackIPAllocator_def split: sum.splits prod.splits)

lemma DualStack_daemon:
  assumes "S = daemon_Store c lk bk sk"
  shows "DualStackIPAllocator (metrics_ips S) subs (Inl m, g) =
      map_prod id (\<lambda>m. (Inl m, g)) (DualStackIPAllocator mem_ips subs m)"
    "DualStackIPAllocator (metrics_ips S) subs (Inr b, g) =
      map_prod id (\<lambda>b. (Inr b, g)) (DualStackIPAllocator (bolt_ips Commits) subs b)"
  by (rule DualStack_map; simp add: assms metrics_ips_def daemon_Store_def sum_Store_def sum_ips_def memory_Store_def
      bolt_Store_def embedded_def map_prod_def case_prod_unfold del: dispatch_result)+

end
