(* ===== verification/Store_Contract.thy ===== *)
theory Store_Contract
  imports Any_Store
begin

text \<open>
  The contract of the whole interface \<open>Store\<close>, as the locale \<open>store_contract\<close>: what the handler relies on
  (\<open>handler_store\<close>), and the laws of the remaining operations, in terms of the leases and the tables a
  store holds.  Both stores keep it.
\<close>

section \<open>Networks compared\<close>

text \<open>What go-cmp says of two networks: \<open>net.IP\<close> has a method \<open>Equal\<close>, a mask is compared by its bytes.\<close>

definition cmp_IPNet :: "ipnet \<Rightarrow> ipnet \<Rightarrow> bool" where
  "cmp_IPNet a b \<longleftrightarrow> ip_equal (IP a) (IP b) \<and> Mask a = Mask b"

definition cmp_Lease :: "lease \<Rightarrow> lease \<Rightarrow> bool" where
  "cmp_Lease a b \<longleftrightarrow> list_all2 cmp_IPNet (Lease_IPs a) (Lease_IPs b) \<and> Lease_Start a = Lease_Start b \<and>
     Lease_Length a = Lease_Length b"

lemma cmp_IPNet_text:
  assumes "net_ok a" "net_ok b" "ipnet_String a = ipnet_String b"
  shows "cmp_IPNet a b"
proof -
  have "valid_ip (IP a)" "valid_ip (IP b)" using assms(1,2) unfolding net_ok_def by blast+
  from ip_equal_iff [OF this] ipnet_String_inj [OF assms] show ?thesis unfolding cmp_IPNet_def by blast
qed

lemma cmp_refl [simp]: "cmp_IPNet a a" "cmp_Lease l l"
  by (simp_all add: cmp_IPNet_def cmp_Lease_def ip_equal_def list_all2_same)

lemma same_network_text:
  assumes "net_ok m" "net_ok n" "ipval (IP m) = ipval (IP n)" "Mask m = Mask n"
  shows "ipnet_String m = ipnet_String n"
proof -
  have v: "valid_ip (IP m)" "valid_ip (IP n)" using assms(1,2) by (auto simp: net_ok_def)
  obtain x where x: "to16 (IP m) = Some x" "length x = 16" using net_ok_to16 [OF assms(1)] by blast
  obtain y where y: "to16 (IP n) = Some y" "length y = 16" using net_ok_to16 [OF assms(2)] by blast
  have "x = y" using assms(3) x y by (simp add: ipval_def be_nat_inj)
  moreover have form: "contains_form ip = (if take 12 z = v4InV6Prefix then drop 12 z else z)" if "to16 ip = Some z" for ip z
    using that by (cases ip rule: to4_cases) (auto simp: contains_form_def)
  ultimately have "contains_form (IP m) = contains_form (IP n)" using x y by simp
  then show ?thesis
    using ipnet_String_ok [OF assms(1)] ipnet_String_ok [OF assms(2)] assms(4) by (simp add: net_len_def)
qed

lemma parse_subnet_key_text:
  assumes "base_net n"
  shows "\<exists>m. parse_subnet_key (ipnet_String n) = Inr m \<and> net_ok m \<and> ipnet_String m = ipnet_String n"
proof -
  have n: "net_ok n" "ipval (IP n) = net_base n" using assms by (auto simp: base_net_def)
  obtain x where x: "to16 (IP n) = Some x" "length x = 16" "ipval x = ipval (IP n)" "is4 x = is4 (IP n)"
    using valid_ip_to16 [of "IP n"] n(1) by (auto simp: net_ok_def)
  let ?c = "\<lparr>IP = x, Mask = Mask n\<rparr>" and ?m = "\<lparr>IP = ip_mask x (Mask n), Mask = Mask n\<rparr>"
  have c: "net_ok ?c" using n(1) x by (simp add: net_ok_def addr_bits_def valid_ip_def)
  have "net_base ?c = net_base n" using x by (simp add: net_base_def host_bits_def addr_bits_def)
  then have m: "valid_ip (IP ?m)" "ipval (IP ?m) = ipval (IP n)" using ip_mask_net [OF c] n(2) by simp_all
  have "is4 (IP ?m) = is4 (IP n)"
    using is4_iff_range [OF m(1)] is4_iff_range [of "IP n"] n(1) m(2) by (simp add: net_ok_def)
  then have "net_ok ?m" using n(1) m(1) by (simp add: net_ok_def addr_bits_def)
  moreover have "parse_subnet_key (ipnet_String n) = Inr ?m"
    using ParseCIDR_ipnet_String [OF n(1) x(1)] by (simp add: parse_subnet_key_def)
  ultimately show ?thesis using same_network_text [OF _ n(1)] m(2) by auto
qed

text \<open>Reading back a list of keys.\<close>

lemma parse_all_texts:
  assumes "\<And>k. k \<in> set ks \<Longrightarrow> \<exists>m. f k = Inr m \<and> net_ok m \<and> ipnet_String m = k"
  shows "\<exists>ns. parse_all f ks = Inr ns \<and> map ipnet_String ns = ks \<and> list_all net_ok ns"
  using assms
proof (induction ks)
  case (Cons k ks)
  have "\<exists>m. f k = Inr m \<and> net_ok m \<and> ipnet_String m = k" by (rule Cons.prems) simp
  moreover have "\<exists>ns. parse_all f ks = Inr ns \<and> map ipnet_String ns = ks \<and> list_all net_ok ns"
    by (rule Cons.IH, rule Cons.prems) simp
  ultimately show ?case by auto
qed simp

section \<open>The contract\<close>

text \<open>A lease a client can ask to store: real addresses, a time the file format can write.\<close>

definition lease_valid :: "lease \<Rightarrow> bool" where
  "lease_valid l \<longleftrightarrow> clock_range (Lease_Start l) \<and> (\<forall>ip\<in>set (Lease_IPs l). net_ok ip)"

locale store_contract =
  handler_store "st_ips S" "st_leases S" lease_storable inv view leases_of clock_range
  for S :: "'s Store" and inv :: "'s \<Rightarrow> bool" and view :: "'s \<Rightarrow> alloc_view" and leases_of :: "'s \<Rightarrow> u64 \<Rightarrow> lease option" +
  assumes SaveSubnet_new: "inv s \<Longrightarrow> view s (ipnet_String sub) = None \<or> view s (ipnet_String sub) = Some {} \<Longrightarrow>
      view (snd (ip_SaveSubnet (st_ips S) sub s)) (ipnet_String sub) = Some {}"
    and AllocateIP_refused: "inv s \<Longrightarrow> \<not> contains sub (IP ip) \<or> view s (ipnet_String sub) = None \<Longrightarrow>
      \<exists>e. ip_AllocateIP (st_ips S) sub ip s = (Inl e, s)"
    and FreeIP_refused: "inv s \<Longrightarrow> \<not> contains sub (IP ip) \<or> view s (ipnet_String sub) = None \<Longrightarrow>
      \<exists>e. ip_FreeIP (st_ips S) sub ip s = (Inl e, s)"
    and SaveLease_valid: "inv s \<Longrightarrow> lease_valid l \<Longrightarrow> \<exists>s' l'. ls_SaveLease (st_leases S) k l s = (Inr (), s') \<and>
      cmp_Lease l l' \<and> inv s' \<and> leases_of s' = (leases_of s)(k := Some l') \<and> view s' = view s"
    and Leases_eq: "inv s \<Longrightarrow> \<exists>ks. range_order ks (leases_of s) \<and>
      st_Leases S s = (Inr (List.map_filter (leases_of s) ks), s)"
    and Subnets_eq: "inv s \<Longrightarrow> \<forall>t\<in>dom (view s). \<exists>n. base_net n \<and> t = ipnet_String n \<Longrightarrow>
      \<exists>ns. st_Subnets S s = (Inr ns, s) \<and> range_order (map ipnet_String ns) (view s) \<and> list_all net_ok ns"
    and AllocatedIPs_eq: "inv s \<Longrightarrow> view s (ipnet_String sub) = Some A \<Longrightarrow>
      \<exists>ns. st_AllocatedIPs S sub s = (Inr ns, s) \<and> distinct (map ipnet_String ns) \<and> set (map ipnet_String ns) = A \<and>
        list_all net_ok ns"
    and AllocatedIPs_refused: "inv s \<Longrightarrow> view s (ipnet_String sub) = None \<Longrightarrow> \<exists>e. st_AllocatedIPs S sub s = (Inl e, s)"
    and Purge_eq: "inv s \<Longrightarrow> \<exists>s'. st_Purge S t s =
        (lift_err (fst (purge_result t \<lparr>leases = leases_of s, subnets = view s\<rparr>)), s') \<and> inv s' \<and>
      leases_of s' = live_leases t (leases_of s) \<and>
      view s' = (\<lambda>sub. map_option (\<lambda>A. A - purged_ips t (leases_of s) sub) (view s sub))"

section \<open>More of the invariant\<close>

text \<open>A store keeps more than the contract asks for when its operations do.\<close>

lemma handler_store_and:
  assumes "handler_store st ls storable ok view lvs clock"
    and "\<And>sub s. ok s \<Longrightarrow> P s \<Longrightarrow> net_ok sub \<Longrightarrow> P (snd (ip_SaveSubnet st sub s))"
    and "\<And>sub ip s. ok s \<Longrightarrow> P s \<Longrightarrow> P (snd (ip_AllocateIP st sub ip s))"
    and "\<And>sub ip s. ok s \<Longrightarrow> P s \<Longrightarrow> P (snd (ip_FreeIP st sub ip s))"
    and "\<And>k l s. ok s \<Longrightarrow> P s \<Longrightarrow> storable l \<Longrightarrow> P (snd (ls_SaveLease ls k l s))"
    and "\<And>k s. ok s \<Longrightarrow> P s \<Longrightarrow> P (snd (ls_DeleteLease ls k s))"
  shows "handler_store st ls storable (\<lambda>s. ok s \<and> P s) view lvs clock"
proof -
  note h = assms(1) [unfolded handler_store_def reliable_ip_store_def ip_store_def reliable_ip_store_axioms_def
      lease_store_def]
  have leases: "lease_store ls storable (\<lambda>s. ok s \<and> P s) lvs view"
  proof (unfold lease_store_def, intro conjI allI impI; elim conjE)
    fix s k l assume s: "ok s" "P s"
    show "ls_Lease ls k s = (Inr (lvs s k), s)" using h s(1) by blast
    show "\<exists>s'. ls_DeleteLease ls k s = (Inr (), s') \<and> (ok s' \<and> P s') \<and> lvs s' = (lvs s)(k := None) \<and> view s' = view s"
      using h s(1) assms(6) [OF s, of k] by (metis snd_conv)
    show "\<exists>s'. ls_SaveLease ls k l s = (Inr (), s') \<and> (ok s' \<and> P s') \<and> lvs s' = (lvs s)(k := Some l) \<and> view s' = view s"
      if "storable l"
      using h s(1) that assms(5) [OF s that, of k] by (metis snd_conv)
  qed
  have I: "ip_store st ok view lvs" using assms(1) unfolding handler_store_def reliable_ip_store_def by blast
  note laws = ip_store.SaveSubnet_inv [OF I] ip_store.SaveSubnet_other [OF I] ip_store.SaveSubnet_error [OF I]
    ip_store.SaveSubnet_done [OF I] ip_store.AllocateIP_inv [OF I] ip_store.AllocateIP_other [OF I]
    ip_store.AllocateIP_error [OF I] ip_store.AllocateIP_taken [OF I] ip_store.AllocateIP_done [OF I]
    ip_store.FreeIP_inv [OF I] ip_store.FreeIP_other [OF I] ip_store.FreeIP_error [OF I] ip_store.FreeIP_done [OF I]
  have ips: "ip_store st (\<lambda>s. ok s \<and> P s) view lvs"
    by (rule ip_store.intro; (elim conjE)?; (rule laws; assumption)?; (rule conjI; rule laws assms(2-4); assumption)?)
  have "reliable_ip_store st (\<lambda>s. ok s \<and> P s) view lvs"
    unfolding reliable_ip_store_def reliable_ip_store_axioms_def using h ips by blast
  then show ?thesis using leases h unfolding handler_store_def by blast
qed

text \<open>Any store keeps its maps finite.\<close>

definition finite_maps :: "(u64 \<Rightarrow> lease option) \<Rightarrow> alloc_view \<Rightarrow> bool" where
  "finite_maps L v \<longleftrightarrow> finite (dom L) \<and> finite (dom v)"

lemma finite_dom_insert: "\<forall>t. t \<noteq> k \<longrightarrow> v' t = v t \<Longrightarrow> finite (dom v) \<Longrightarrow> finite (dom v')"
  by (rule finite_subset [of _ "insert k (dom v)"]) (auto simp: domIff)

context handler_store
begin

lemma finite_after_ip:
  assumes "inv s" "finite_maps (leases_of s) (view s)"
  shows "finite_maps (leases_of (snd (ip_SaveSubnet st sub s))) (view (snd (ip_SaveSubnet st sub s)))"
    "finite_maps (leases_of (snd (ip_AllocateIP st sub ip s))) (view (snd (ip_AllocateIP st sub ip s)))"
    "finite_maps (leases_of (snd (ip_FreeIP st sub ip s))) (view (snd (ip_FreeIP st sub ip s)))"
proof -
  have f: "finite (dom (leases_of s))" "finite (dom (view s))" using assms(2) by (auto simp: finite_maps_def)
  show "finite_maps (leases_of (snd (ip_SaveSubnet st sub s))) (view (snd (ip_SaveSubnet st sub s)))"
  proof (cases "ip_SaveSubnet st sub s")
    case (Pair r s')
    then show ?thesis
      using f ips.SaveSubnet_other [of sub s] ips.SaveSubnet_error [OF assms(1)] ips.SaveSubnet_done [OF assms(1)]
        finite_dom_insert [of "ipnet_String sub" "view s'" "view s"]
      by (cases r) (auto simp: finite_maps_def)
  qed
  show "finite_maps (leases_of (snd (ip_AllocateIP st sub ip s))) (view (snd (ip_AllocateIP st sub ip s)))"
    using f ips.AllocateIP_other [of sub ip s] ips.AllocateIP_subnets [OF assms(1), of sub ip]
    by (cases "ip_AllocateIP st sub ip s") (auto simp: finite_maps_def)
  show "finite_maps (leases_of (snd (ip_FreeIP st sub ip s))) (view (snd (ip_FreeIP st sub ip s)))"
  proof (cases "ip_FreeIP st sub ip s")
    case (Pair r s')
    have "dom (view_remove sub ip (view s)) = dom (view s)" by (auto simp: view_remove_def domIff)
    then show ?thesis
      using Pair f ips.FreeIP_other [of sub ip s] ips.FreeIP_error [OF assms(1)] ips.FreeIP_done [OF assms(1)]
      by (cases r) (auto simp: finite_maps_def)
  qed
qed

lemma finite_after_lease:
  assumes "inv s" "finite_maps (leases_of s) (view s)"
  shows "storable l \<Longrightarrow> finite_maps (leases_of (snd (ls_SaveLease ls k l s))) (view (snd (ls_SaveLease ls k l s)))"
    "finite_maps (leases_of (snd (ls_DeleteLease ls k s))) (view (snd (ls_DeleteLease ls k s)))"
  using leases.SaveLease_eq [OF assms(1), of l k] leases.DeleteLease_eq [OF assms(1), of k] assms(2)
  by (auto simp: finite_maps_def)

lemma with_finite:
  "handler_store st ls storable (\<lambda>s. inv s \<and> finite_maps (leases_of s) (view s)) view leases_of clock_ok"
  by (rule handler_store_and [OF handler_store_axioms]) (simp_all add: finite_after_ip finite_after_lease)

end

section \<open>The memory store\<close>

definition mem_full :: "memoryStore \<Rightarrow> bool" where
  "mem_full s \<longleftrightarrow> mem_ok s \<and> finite_maps (leases s) (subnets s)"

lemma mem_full_handler: "handler_store mem_ips mem_leases lease_storable mem_full subnets leases clock_range"
  using handler_store.with_finite [OF mem_handler_store] by (simp add: mem_full_def [abs_def])

lemma mem_AllocatedIPs:
  assumes "mem_ok s" "subnets s (ipnet_String sub) = Some A" "set is = A"
  shows "\<exists>ns. parse_all parse_ip_key is = Inr ns \<and> map ipnet_String ns = is \<and> list_all net_ok ns"
  using parse_ip_key_text mem_ok_key [OF assms(1,2)] assms(3) by (intro parse_all_texts) metis

lemma mem_ok_finite: "mem_ok s \<Longrightarrow> subnets s t = Some A \<Longrightarrow> finite A"
  by (auto simp: mem_ok_def)

lemma dom_purged: "dom (\<lambda>sub. map_option (f sub) (v sub)) = dom v"
  by (auto simp: domIff)

lemma mem_full_purge:
  assumes "mem_full s"
  shows "mem_full (snd (purge_result t s))"
proof -
  have "dom (live_leases t (leases s)) \<subseteq> dom (leases s)" by (auto simp: live_leases_def split: option.splits)
  then show ?thesis
    using assms mem_ok_purge_result [of s t]
    by (auto simp: mem_full_def finite_maps_def purge_result_def dom_purged intro: finite_subset)
qed

lemma memory_Store_contract:
  assumes "orders lk" "orders sk"
  shows "store_contract (memory_Store lk sk) mem_full subnets leases"
proof (intro store_contract.intro store_contract_axioms.intro)
  show "handler_store (st_ips (memory_Store lk sk)) (st_leases (memory_Store lk sk)) lease_storable mem_full subnets
      leases clock_range"
    using mem_full_handler by simp
  fix s assume s: "mem_full s"
  then have ok: "mem_ok s" and fin: "finite (dom (leases s))" "finite (dom (subnets s))"
    by (auto simp: mem_full_def finite_maps_def)
  note ord = orders_range [OF assms(1) fin(1)] orders_range [OF assms(2) fin(2)]
  show "\<exists>ks. range_order ks (leases s) \<and> st_Leases (memory_Store lk sk) s = (Inr (List.map_filter (leases s) ks), s)"
    using ord(1) by (auto simp: memory_Store_def memoryStore_Leases_def)
  show "\<exists>s'. st_Purge (memory_Store lk sk) t s =
        (lift_err (fst (purge_result t \<lparr>leases = leases s, subnets = subnets s\<rparr>)), s') \<and> mem_full s' \<and>
      leases s' = live_leases t (leases s) \<and>
      subnets s' = (\<lambda>sub. map_option (\<lambda>A. A - purged_ips t (leases s) sub) (subnets s sub))" for t
  proof -
    have e: "\<lparr>leases = leases s, subnets = subnets s\<rparr> = s" by simp
    show ?thesis
      unfolding e using Purge_eq [OF ok ord, of t] mem_full_purge [OF s, of t]
      by (intro exI [of _ "snd (purge_result t s)"]) (simp add: memory_Store_def purge_result_def)
  qed
  show "\<exists>ns. st_Subnets (memory_Store lk sk) s = (Inr ns, s) \<and> range_order (map ipnet_String ns) (subnets s) \<and>
      list_all net_ok ns" if N: "\<forall>t\<in>dom (subnets s). \<exists>n. base_net n \<and> t = ipnet_String n"
  proof -
    have "\<exists>ns. parse_all parse_subnet_key (sk (dom (subnets s))) = Inr ns \<and>
        map ipnet_String ns = sk (dom (subnets s)) \<and> list_all net_ok ns"
    proof (rule parse_all_texts)
      fix k assume "k \<in> set (sk (dom (subnets s)))"
      then obtain n where "base_net n" "k = ipnet_String n" using N ord(2) unfolding range_order_def by blast
      then show "\<exists>m. parse_subnet_key k = Inr m \<and> net_ok m \<and> ipnet_String m = k"
        using parse_subnet_key_text by blast
    qed
    then show ?thesis using ord(2) by (auto simp: memory_Store_def memoryStore_Subnets_def)
  qed
  fix sub ip
  show "\<exists>ns. st_AllocatedIPs (memory_Store lk sk) sub s = (Inr ns, s) \<and> distinct (map ipnet_String ns) \<and>
      set (map ipnet_String ns) = A \<and> list_all net_ok ns" if A: "subnets s (ipnet_String sub) = Some A" for A
  proof -
    have A': "distinct (sk A)" "set (sk A) = A" using assms(2) mem_ok_finite [OF ok A] by (auto simp: orders_def)
    then obtain ns where "parse_all parse_ip_key (sk A) = Inr ns" "map ipnet_String ns = sk A" "list_all net_ok ns"
      using mem_AllocatedIPs [OF ok A] by blast
    then show ?thesis
      using A A' by (intro exI [of _ ns]) (simp add: memory_Store_def memoryStore_AllocatedIPs_def keys_of_def del: set_map)
  qed
qed (auto simp: memory_Store_def memoryStore_SaveSubnet_def mem_ips_def AllocateIP_cases FreeIP_cases mem_leases_def
  memoryStore_SaveLease_def memoryStore_AllocatedIPs_def mem_full_def finite_maps_def mem_ok_leases
  intro: cmp_refl(2))

text \<open>With its keys in ascending order, for one.\<close>

interpretation memory: store_contract "memory_Store sorted_list_of_set sorted_list_of_set" mem_full subnets leases
  by (rule memory_Store_contract [OF orders_sorted orders_sorted])

section \<open>The file store\<close>

text \<open>The JSON form of a lease keeps it, except that an address comes back with 16 bytes.\<close>

definition with16 :: "ipnet \<Rightarrow> ipnet" where
  "with16 n = n\<lparr>IP := (case to16 (IP n) of Some x \<Rightarrow> x | None \<Rightarrow> [])\<rparr>"

definition json_codec :: "'v lease_codec \<Rightarrow> bool" where
  "json_codec c \<longleftrightarrow> codec_ok c \<and> (\<forall>l. lease_valid l \<longrightarrow>
     (\<exists>v. marshal c l = Inr v \<and> unmarshal c v = Inr (l\<lparr>Lease_IPs := map with16 (Lease_IPs l)\<rparr>)))"

lemma with16_same: "net_ok n \<Longrightarrow> cmp_IPNet n (with16 n)"
  by (cases "IP n" rule: to4_cases)
    (auto simp: with16_def cmp_IPNet_def ip_equal_def net_ok_def length_v4InV6Prefix valid_ip_def)

definition bolt_full :: "'v lease_codec \<Rightarrow> 'v boltStore \<Rightarrow> bool" where
  "bolt_full c s \<longleftrightarrow> (bolt_ready c {} s \<and> dom (bolt_view s) \<subseteq> dom (bolt_subnets s)) \<and>
     finite_maps (bolt_leases_of c s) (bolt_view s)"

lemma bolt_full_handler:
  assumes "codec_ok c"
  shows "handler_store (bolt_ips Commits) (bolt_leases c Commits) lease_storable (bolt_full c) bolt_view
    (bolt_leases_of c) clock_range"
proof -
  have "handler_store (bolt_ips Commits) (bolt_leases c Commits) lease_storable
      (\<lambda>s. bolt_ready c {} s \<and> dom (bolt_view s) \<subseteq> dom (bolt_subnets s)) bolt_view (bolt_leases_of c) clock_range"
  proof (rule handler_store_and [OF bolt_handler_store [OF assms]])
    fix s :: "'a boltStore" and k l assume "bolt_ready c {} s" "lease_storable l"
      "dom (bolt_view s) \<subseteq> dom (bolt_subnets s)"
    then show "dom (bolt_view (snd (ls_SaveLease (bolt_leases c Commits) k l s))) \<subseteq>
        dom (bolt_subnets (snd (ls_SaveLease (bolt_leases c Commits) k l s)))"
      using bolt_SaveLease_eq [OF assms, of l k s] by (simp add: bolt_leases_def) (elim exE conjE; simp)
  qed (auto simp: bolt_ips_def bolt_leases_def bolt_effects bolt_DeleteLease_eq view_insert_def view_remove_def
      split: if_splits)
  from handler_store.with_finite [OF this] show ?thesis by (simp add: bolt_full_def [abs_def])
qed

lemma bolt_lease_keys:
  assumes "bolt_ok c s"
  shows "dom (bucketLeases (bolt_db s)) = keyBytes ` dom (bolt_leases_of c s)"
  using bolt_ok_lease [OF assms] by (force simp: bolt_leases_of_def split: option.splits)

lemma bolt_all_leases:
  assumes "bolt_ok c s" "set js \<subseteq> dom (bolt_leases_of c s)"
  shows "parse_all (unmarshal c) (List.map_filter (bucketLeases (bolt_db s)) (map keyBytes js)) =
    Inr (List.map_filter (bolt_leases_of c s) js)"
  using assms(2)
proof (induction js)
  case (Cons k js)
  then obtain l where "bolt_leases_of c s k = Some l" by auto
  then obtain v where "bucketLeases (bolt_db s) (keyBytes k) = Some v" "unmarshal c v = Inr l"
    by (auto simp: bolt_leases_of_def split: option.splits sum.splits)
  then show ?case using Cons by (simp add: List.map_filter_simps bolt_leases_of_def)
qed (simp add: List.map_filter_simps)

lemma bolt_Store_contract:
  assumes "json_codec c" "orders lk" "orders sk"
  shows "store_contract (bolt_Store c Commits lk sk) (bolt_full c) bolt_view (bolt_leases_of c)"
proof (intro store_contract.intro store_contract_axioms.intro)
  have c: "codec_ok c" using assms(1) by (simp add: json_codec_def)
  show "handler_store (st_ips (bolt_Store c Commits lk sk)) (st_leases (bolt_Store c Commits lk sk)) lease_storable
      (bolt_full c) bolt_view (bolt_leases_of c) clock_range"
    using bolt_full_handler [OF c] by (simp add: bolt_Store_def)
  fix s assume s: "bolt_full c s"
  then have r: "bolt_ready c {} s" and ok: "bolt_ok c s" and fin: "finite (dom (bolt_leases_of c s))" "finite (dom (bolt_view s))"
    and known: "dom (bolt_subnets s) = dom (bolt_view s)"
    by (auto simp: bolt_full_def bolt_ready_def finite_maps_def)
  have fb: "finite (dom (bucketLeases (bolt_db s)))" by (simp add: bolt_lease_keys [OF ok] fin)
  have ord: "range_order (lk (dom (bucketLeases (bolt_db s)))) (bucketLeases (bolt_db s))"
    "range_order (sk (dom (bolt_view s))) (bolt_view s)" "range_order (sk (dom (bolt_view s))) (bolt_subnets s)"
    using orders_range [OF assms(2) fb] orders_range [OF assms(3) fin(2)] known
    by (simp_all add: range_order_def)
  show "\<exists>ks. range_order ks (bolt_leases_of c s) \<and>
      st_Leases (bolt_Store c Commits lk sk) s = (Inr (List.map_filter (bolt_leases_of c s) ks), s)"
  proof -
    obtain js where js: "lk (dom (bucketLeases (bolt_db s))) = map keyBytes js" "distinct js"
      "set js = {key. bucketLeases (bolt_db s) (keyBytes key) \<noteq> None}"
      using range_order_keys [OF ord(1)] bolt_ok_lease [OF ok] by blast
    have "set js = dom (bolt_leases_of c s)" unfolding js(3) using bolt_lease_keys [OF ok] by (auto simp: set_eq_iff image_iff domIff)
    then show ?thesis
      using js bolt_all_leases [OF ok, of js]
      by (auto simp: bolt_Store_def boltStore_Leases_def db_View_def range_order_def intro!: exI [of _ js])
  qed
  show "\<exists>s'. st_Purge (bolt_Store c Commits lk sk) t s =
        (lift_err (fst (purge_result t \<lparr>leases = bolt_leases_of c s, subnets = bolt_view s\<rparr>)), s') \<and> bolt_full c s' \<and>
      bolt_leases_of c s' = live_leases t (bolt_leases_of c s) \<and>
      bolt_view s' = (\<lambda>sub. map_option (\<lambda>A. A - purged_ips t (bolt_leases_of c s) sub) (bolt_view s sub))" for t
  proof -
    let ?L = "bolt_leases_of c s"
    obtain s' where s': "boltStore_Purge c Commits (lk (dom (bucketLeases (bolt_db s)))) (sk (dom (bolt_view s))) t s =
        (Inr \<lparr>FreedIPs = (\<lambda>sub. if sub \<in> dom (bolt_subnets s) \<and> 0 < purged_count t ?L sub
                               then Some (purged_count t ?L sub) else None)\<rparr>, s')"
      "bolt_ready c {} s'" "bolt_leases_of c s' = live_leases t ?L" "bolt_subnets s' = bolt_subnets s"
      "bolt_view s' = (\<lambda>sub. if sub \<in> dom (bolt_subnets s)
        then map_option (\<lambda>A. A - purged_ips t ?L sub) (bolt_view s sub) else bolt_view s sub)"
      using bolt_Purge_eq [OF r ord(1,3), of t] by blast
    have v: "bolt_view s' = (\<lambda>sub. map_option (\<lambda>A. A - purged_ips t ?L sub) (bolt_view s sub))"
      unfolding s'(5) known by (auto simp: fun_eq_iff domIff)
    have "dom (live_leases t ?L) \<subseteq> dom ?L" by (auto simp: live_leases_def split: option.splits)
    then have "bolt_full c s'"
      using s'(2,3,4) v fin known by (auto simp: bolt_full_def finite_maps_def dom_purged intro: finite_subset)
    moreover have "sk (dom (bolt_subnets s)) = sk (dom (bolt_view s))" using known by simp
    ultimately show ?thesis
      using s'(1,3) v known
      by (intro exI [of _ s']) (simp add: bolt_Store_def purge_result_def cong: if_cong)
  qed
  show "\<exists>ns. st_Subnets (bolt_Store c Commits lk sk) s = (Inr ns, s) \<and> range_order (map ipnet_String ns) (bolt_view s) \<and>
      list_all net_ok ns" if N: "\<forall>t\<in>dom (bolt_view s). \<exists>n. base_net n \<and> t = ipnet_String n"
  proof -
    have "\<exists>ns. parse_all unmarshalIPNet (sk (dom (bolt_view s))) = Inr ns \<and>
        map ipnet_String ns = sk (dom (bolt_view s)) \<and> list_all net_ok ns"
    proof (rule parse_all_texts)
      fix k assume "k \<in> set (sk (dom (bolt_view s)))"
      then obtain n where "base_net n" "k = ipnet_String n" using N ord(2) unfolding range_order_def by blast
      then show "\<exists>m. unmarshalIPNet k = Inr m \<and> net_ok m \<and> ipnet_String m = k"
        using parse_ip_key_text [of n] by (simp add: parse_ip_key_def unmarshalIPNet_def base_net_def)
    qed
    then show ?thesis using ord(2) by (auto simp: bolt_Store_def boltStore_Subnets_def db_View_def bolt_view_def)
  qed
  fix sub ip
  show "\<exists>ns. st_AllocatedIPs (bolt_Store c Commits lk sk) sub s = (Inr ns, s) \<and> distinct (map ipnet_String ns) \<and>
      set (map ipnet_String ns) = A \<and> list_all net_ok ns" if A: "bolt_view s (ipnet_String sub) = Some A" for A
  proof -
    have m: "mem_ok (bolt_abs c s)" "subnets (bolt_abs c s) (ipnet_String sub) = Some A"
      using bolt_ok_mem [OF ok] A by (simp_all add: bolt_abs_def)
    have "unmarshalIPNet = parse_ip_key" by (simp add: fun_eq_iff unmarshalIPNet_def parse_ip_key_def)
    moreover have A': "distinct (sk A)" "set (sk A) = A" using assms(3) mem_ok_finite [OF m] by (auto simp: orders_def)
    moreover obtain ns where "parse_all parse_ip_key (sk A) = Inr ns" "map ipnet_String ns = sk A" "list_all net_ok ns"
      using mem_AllocatedIPs [OF m A'(2)] by blast
    ultimately show ?thesis
      using A by (intro exI [of _ ns])
        (simp add: bolt_Store_def boltStore_AllocatedIPs_def keys_of_def db_View_def bolt_view_def marshalIPNet_def del: set_map)
  qed
  show "\<exists>s' l'. ls_SaveLease (st_leases (bolt_Store c Commits lk sk)) k l s = (Inr (), s') \<and> cmp_Lease l l' \<and>
      bolt_full c s' \<and> bolt_leases_of c s' = (bolt_leases_of c s)(k := Some l') \<and> bolt_view s' = bolt_view s"
    if l: "lease_valid l" for k l
  proof -
    let ?l = "l\<lparr>Lease_IPs := map with16 (Lease_IPs l)\<rparr>"
    obtain v where v: "marshal c l = Inr v" "unmarshal c v = Inr ?l"
      using assms(1) l by (auto simp: json_codec_def)
    let ?s = "set_leases s ((bucketLeases (bolt_db s))(keyBytes k := Some v))"
    have "boltStore_SaveLease c Commits k l s = (Inr (), ?s)"
      using v(1) by (simp add: boltStore_SaveLease_def on_db_def set_leases_def)
    moreover have "cmp_Lease l ?l"
      using l with16_same by (simp add: cmp_Lease_def lease_valid_def list_all2_map2 list_all2_same)
    moreover have "bolt_ready c {} ?s"
      using bolt_ok_lease [OF ok] v(2) by (intro bolt_ready_set_leases [OF r]) (auto split: if_splits)
    ultimately show ?thesis
      using bolt_leases_put(1) [OF v(2), of s k] fin known
      by (intro exI [of _ ?s] exI [of _ ?l]) (simp add: bolt_Store_def bolt_leases_def bolt_full_def finite_maps_def)
  qed
qed (auto simp: bolt_Store_def boltStore_AllocatedIPs_def db_View_def bolt_ips_def bolt_effects bolt_view_def marshalIPNet_def
  set_tables_def)

end
