(* ===== verification/Daemon.thy ===== *)
theory Daemon
  imports Store_Contract Config
begin

text \<open>
  The daemon (internal/wgipamd/server.go): \<open>Run\<close> makes a store for every interface of the configuration,
  puts gauges around it, makes the allocator and the handler, and starts the debug listener; after that
  requests and purges arrive in any order.  What the operating system answers (listeners, files) is an
  environment.  The registry of prometheus is the set of the names registered in it: the program gives a
  name always the same help text and labels, and the labels an interface is curried with are no part of a
  descriptor.
\<close>

section \<open>Metrics registered\<close>

type_synonym registry = "string set"

text \<open>\<open>Registry.MustRegister\<close> of a vector: a name that is there already makes it panic.\<close>

definition MustRegister :: "string \<Rightarrow> registry \<Rightarrow> (fault + unit) \<times> registry" where
  "MustRegister name reg =
     (if name \<in> reg then (Inl (Panic (AlreadyRegistered name)), reg) else (Inr (), insert name reg))"

fun register_all :: "string list \<Rightarrow> registry \<Rightarrow> (fault + unit) \<times> registry" where
  "register_all [] reg = (Inr (), reg)"
| "register_all (n # ns) reg =
     (case MustRegister n reg of (Inl e, reg') \<Rightarrow> (Inl e, reg') | (Inr _, reg') \<Rightarrow> register_all ns reg')"

definition store_metrics :: "string list" where
  "store_metrics = [''wgipamd_store_ips_allocated'', ''wgipamd_store_subnet_allocatable_size'', ''wgipamd_store_last_purge'']"

definition server_metrics :: "string list" where
  "server_metrics = [''wgipamd_server_requests_total'', ''wgipamd_server_errors_total'']"

definition IPStoreMetrics :: "'s Store \<Rightarrow> Subnet list \<Rightarrow> registry \<Rightarrow> 's \<Rightarrow> (fault + gauges) \<times> registry \<times> 's" where
  "IPStoreMetrics st subs reg s =
     (case register_all store_metrics reg of
        (Inl e, reg') \<Rightarrow> (Inl e, reg', s)
      | (Inr _, reg') \<Rightarrow> (case init_gauges st subs s of (r, s') \<Rightarrow> (lift_err r, reg', s')))"

definition NewHandlerMetrics :: "registry \<Rightarrow> (fault + HandlerMetrics) \<times> registry" where
  "NewHandlerMetrics reg =
     (case register_all server_metrics reg of
        (Inl e, reg') \<Rightarrow> (Inl e, reg')
      | (Inr _, reg') \<Rightarrow> (Inr \<lparr>RequestsTotal = (\<lambda>_. 0), ErrorsTotal = (\<lambda>_. 0)\<rparr>, reg'))"

section \<open>The file of an interface\<close>

text \<open>\<open>filepath.Join\<close>: the parts joined with slashes and made as short as possible, \<open>..\<close> by dropping the part
  before it.\<close>

fun split_slash :: "string \<Rightarrow> string list" where
  "split_slash [] = [[]]"
| "split_slash (c # cs) =
     (case split_slash cs of
        [] \<Rightarrow> [[c]]
      | p # ps \<Rightarrow> if c = CHR ''/'' then [] # p # ps else (c # p) # ps)"

fun clean_parts :: "bool \<Rightarrow> string list \<Rightarrow> string list \<Rightarrow> string list" where
  "clean_parts rooted out [] = rev out"
| "clean_parts rooted out (p # ps) =
     (if p = '''' \<or> p = ''.'' then clean_parts rooted out ps
      else if p = ''..'' then
        (case out of
           [] \<Rightarrow> clean_parts rooted (if rooted then [] else [p]) ps
         | q # qs \<Rightarrow> clean_parts rooted (if q = ''..'' then p # out else qs) ps)
      else clean_parts rooted (p # out) ps)"

fun join_with :: "string \<Rightarrow> string list \<Rightarrow> string" where
  "join_with sep [] = ''''"
| "join_with sep [p] = p"
| "join_with sep (p # q # ps) = p @ sep @ join_with sep (q # ps)"

definition filepath_Clean :: "string \<Rightarrow> string" where
  "filepath_Clean path =
     (let rooted = (path \<noteq> '''' \<and> hd path = CHR ''/'');
          out = (if rooted then ''/'' else '''') @ join_with ''/'' (clean_parts rooted [] (split_slash path))
      in if out = '''' then ''.'' else out)"

definition filepath_Join :: "string list \<Rightarrow> string" where
  "filepath_Join ps =
     (let ps = dropWhile (\<lambda>p. p = '''') ps in if ps = [] then '''' else filepath_Clean (join_with ''/'' ps))"

section \<open>Starting\<close>

datatype server_error =
    StoreOpen goerr
  | InvalidStorage
  | ListenFailed string goerr
  | MetricsFailed goerr
  | AllocatorFailed goerr
  | DebugFailed goerr

datatype server_fault = ServerError server_error | ServerPanic gopanic

text \<open>What the program finds outside: the listener of an interface, the debug listener, a bolt file and what
  becomes of the transaction that makes its buckets.\<close>

record 'v environment =
  env_Listen :: "string \<Rightarrow> goerr option"
  env_debug_Listen :: "string \<Rightarrow> goerr option"
  env_file :: "string \<Rightarrow> goerr option \<times> tx \<times> 'v bolt_file"

record Server =
  srv_cfg :: Config
  srv_reg :: registry
  srv_TestListener :: "goerr option option"

text \<open>\<open>go_metrics\<close>: the names the collectors of the Go runtime and of the process register.\<close>

definition NewServer :: "registry \<Rightarrow> Config \<Rightarrow> Server" where
  "NewServer go_metrics cfg = \<lparr>srv_cfg = cfg, srv_reg = go_metrics, srv_TestListener = None\<rparr>"

definition newStore :: "'v environment \<Rightarrow> string \<Rightarrow> Storage \<Rightarrow> server_error + (memoryStore + 'v boltStore)" where
  "newStore env ifi s =
     (if Storage_Memory s then Inr (Inl MemoryStore)
      else if Storage_File s \<noteq> '''' then
        (case env_file env (filepath_Join [Storage_File s, ''wgipamd-'' @ ifi @ ''.db'']) of
           (opened, tx, f) \<Rightarrow> (case FileStore opened tx f of Inl e \<Rightarrow> Inl (StoreOpen e) | Inr b \<Rightarrow> Inr (Inr b)))
      else Inl InvalidStorage)"

definition subnetsString :: "Subnet list \<Rightarrow> string" where
  "subnetsString subs = join_with '', '' (map (\<lambda>s. ipnet_String (Subnet_Subnet s)) subs)"

text \<open>An interface that is served: its configuration, and the states of its allocator, of its store with the
  gauges and of the handler's counters.\<close>

record 'v running =
  run_Interface :: Interface
  run_ipa :: multiIPAllocator
  run_store :: "(memoryStore + 'v boltStore) \<times> gauges"
  run_metrics :: HandlerMetrics

type_synonym orders3 = "lease_order \<times> (byte list set \<Rightarrow> byte list list) \<times> key_order"

definition orders3 :: "orders3 \<Rightarrow> bool" where
  "orders3 ord \<longleftrightarrow> (case ord of (lk, bk, sk) \<Rightarrow> orders lk \<and> orders bk \<and> orders sk)"

definition daemon_store :: "'v lease_codec \<Rightarrow> orders3 \<Rightarrow> (memoryStore + 'v boltStore) Store" where
  "daemon_store c ord = (case ord of (lk, bk, sk) \<Rightarrow> daemon_Store c lk bk sk)"

definition runServer :: "'v lease_codec \<Rightarrow> orders3 \<Rightarrow> goerr option \<Rightarrow> Interface \<Rightarrow> memoryStore + 'v boltStore \<Rightarrow> registry \<Rightarrow>
    (server_fault + 'v running) \<times> registry" where
  "runServer c ord listened ifi store reg =
     (let S = daemon_store c ord; subs = if_Subnets ifi
      in case listened of
           Some e \<Rightarrow> (Inl (ServerError (ListenFailed (if_Name ifi) e)), reg)
         | None \<Rightarrow>
             (case IPStoreMetrics S subs reg store of
                (Inl (Err e), reg1, _) \<Rightarrow> (Inl (ServerError (MetricsFailed e)), reg1)
              | (Inl (Panic p), reg1, _) \<Rightarrow> (Inl (ServerPanic p), reg1)
              | (Inr g, reg1, s1) \<Rightarrow>
                  (case DualStackIPAllocator (metrics_ips S) subs (s1, g) of
                     (Inl (Err e), _) \<Rightarrow> (Inl (ServerError (AllocatorFailed e)), reg1)
                   | (Inl (Panic p), _) \<Rightarrow> (Inl (ServerPanic p), reg1)
                   | (Inr ipa, x) \<Rightarrow>
                       (case NewHandlerMetrics reg1 of
                          (Inl (Err e), reg2) \<Rightarrow> (Inl (ServerError (MetricsFailed e)), reg2)
                        | (Inl (Panic p), reg2) \<Rightarrow> (Inl (ServerPanic p), reg2)
                        | (Inr hm, reg2) \<Rightarrow>
                            (Inr \<lparr>run_Interface = ifi, run_ipa = ipa, run_store = x, run_metrics = hm\<rparr>, reg2)))))"

text \<open>The loop of \<open>Run\<close> over the interfaces.\<close>

fun run_interfaces :: "'v lease_codec \<Rightarrow> orders3 \<Rightarrow> 'v environment \<Rightarrow> goerr option option \<Rightarrow> Storage \<Rightarrow> Interface list \<Rightarrow> registry \<Rightarrow>
    (server_fault + 'v running list) \<times> registry" where
  "run_interfaces c ord env test st [] reg = (Inr [], reg)"
| "run_interfaces c ord env test st (ifi # ifis) reg =
     (case newStore env (if_Name ifi) st of
        Inl e \<Rightarrow> (Inl (ServerError e), reg)
      | Inr store \<Rightarrow>
          (let listened = (case test of None \<Rightarrow> env_Listen env (if_Name ifi) | Some r \<Rightarrow> r)
           in case runServer c ord listened ifi store reg of
                (Inl e, reg1) \<Rightarrow> (Inl e, reg1)
              | (Inr r, reg1) \<Rightarrow>
                  (case run_interfaces c ord env test st ifis reg1 of
                     (Inl e, reg2) \<Rightarrow> (Inl e, reg2)
                   | (Inr rs, reg2) \<Rightarrow> (Inr (r # rs), reg2))))"

definition runDebug :: "'v environment \<Rightarrow> Debug \<Rightarrow> server_error + unit" where
  "runDebug env d =
     (if Debug_Address d = '''' then Inr ()
      else case env_debug_Listen env (Debug_Address d) of None \<Rightarrow> Inr () | Some e \<Rightarrow> Inl (DebugFailed e))"

text \<open>\<open>Run\<close> up to the point where it is ready.\<close>

definition Run :: "'v lease_codec \<Rightarrow> orders3 \<Rightarrow> 'v environment \<Rightarrow> Server \<Rightarrow> server_fault + 'v running list" where
  "Run c ord env srv =
     (case run_interfaces c ord env (srv_TestListener srv) (cfg_Storage (srv_cfg srv)) (cfg_Interfaces (srv_cfg srv)) (srv_reg srv) of
        (Inl e, _) \<Rightarrow> Inl e
      | (Inr rs, _) \<Rightarrow>
          (case runDebug env (cfg_Debug (srv_cfg srv)) of Inl e \<Rightarrow> Inl (ServerError e) | Inr _ \<Rightarrow> Inr rs))"

text \<open>What \<open>Run\<close> makes of the error a listener ends with; \<open>OpError\<close> carries the text of the error inside.\<close>

datatype serve_error = OpError string | OtherServeError goerr

definition serve_result :: "serve_error option \<Rightarrow> serve_error option" where
  "serve_result e =
     (case e of
        None \<Rightarrow> None
      | Some (OtherServeError g) \<Rightarrow> e
      | Some (OpError inner) \<Rightarrow> if inner \<noteq> ''use of closed network connection'' then e else None)"

section \<open>Running\<close>

text \<open>A request that does not panic, and a tick of the purge; the orders of the maps are new each time.\<close>

definition run_request :: "'v lease_codec \<Rightarrow> orders3 \<Rightarrow> (string \<Rightarrow> u64) \<Rightarrow> time \<Rightarrow> time \<Rightarrow> string \<Rightarrow> RequestIP \<Rightarrow> 'v running \<Rightarrow>
    ((fault + RequestIP) \<times> 'v running) option" where
  "run_request c ord strKey now now' src req r =
     (let S = daemon_store c ord
      in case Handler_RequestIP (multi_handler (metrics_leases S) (metrics_ips S) (if_LeaseDuration (run_Interface r)))
             strKey now now' src req (Some (run_metrics r)) (run_ipa r) (run_store r) of
           None \<Rightarrow> None
         | Some (res, m, ipa, x) \<Rightarrow>
             Some (res, r\<lparr>run_ipa := ipa, run_store := x,
               run_metrics := (case m of None \<Rightarrow> run_metrics r | Some m \<Rightarrow> m)\<rparr>))"

definition run_purge :: "'v lease_codec \<Rightarrow> orders3 \<Rightarrow> key_order \<Rightarrow> time \<Rightarrow> time \<Rightarrow> 'v running \<Rightarrow>
    (fault + PurgeStats) \<times> 'v running" where
  "run_purge c ord ko now t r =
     (case metricsIPStore_Purge (daemon_store c ord) ko now t (run_store r) of (res, x) \<Rightarrow> (res, r\<lparr>run_store := x\<rparr>))"

inductive run_step :: "'v lease_codec \<Rightarrow> (string \<Rightarrow> u64) \<Rightarrow> 'v running \<Rightarrow> 'v running \<Rightarrow> bool"
  for c :: "'v lease_codec" and strKey :: "string \<Rightarrow> u64" where
  request: "orders3 ord \<Longrightarrow> clock_range now' \<Longrightarrow> run_request c ord strKey now now' src req r = Some (res, r') \<Longrightarrow>
    \<not> (\<exists>e. res = Inl (Panic e)) \<Longrightarrow> run_step c strKey r r'"
| purge: "orders3 ord \<Longrightarrow> run_purge c ord ko now t r = (res, r') \<Longrightarrow> run_step c strKey r r'"

text \<open>The daemon with one interface, from a start with memory or on a new file, through requests and purges, and
  through restarts on the file it left.\<close>

definition opens :: "'v environment \<Rightarrow> 'v bolt_file \<Rightarrow> bool" where
  "opens env f \<longleftrightarrow> (\<forall>path. env_file env path = (None, Commits, f))"

definition left_file :: "'v running \<Rightarrow> 'v bolt_file" where
  "left_file r = (case fst (run_store r) of Inl m \<Rightarrow> new_file | Inr b \<Rightarrow> file_of b)"

inductive daemon_reach :: "'v lease_codec \<Rightarrow> (string \<Rightarrow> u64) \<Rightarrow> Server \<Rightarrow> 'v running \<Rightarrow> bool"
  for c :: "'v lease_codec" and strKey :: "string \<Rightarrow> u64" and srv :: Server where
  start: "orders3 ord \<Longrightarrow> opens env new_file \<Longrightarrow> Run c ord env srv = Inr [r] \<Longrightarrow> daemon_reach c strKey srv r"
| step: "daemon_reach c strKey srv r \<Longrightarrow> run_step c strKey r r' \<Longrightarrow> daemon_reach c strKey srv r'"
| restart: "daemon_reach c strKey srv r \<Longrightarrow> orders3 ord \<Longrightarrow> opens env (left_file r) \<Longrightarrow> Run c ord env srv = Inr [r'] \<Longrightarrow>
    daemon_reach c strKey srv r'"

end
