(* ===== verification/Daemon_Safety.thy ===== *)
theory Daemon_Safety
  imports Daemon
begin

text \<open>
  What the daemon promises: that it starts and starts again on the file it left, that two clients never
  share an address whatever the storage, and that it does not start with two interfaces.
\<close>

section \<open>Registering\<close>

lemma register_all_ok: "distinct ns \<Longrightarrow> set ns \<inter> reg = {} \<Longrightarrow> register_all ns reg = (Inr (), set ns \<union> reg)"
  by (induction ns arbitrary: reg) (auto simp: MustRegister_def)

lemma register_all_done: "register_all ns reg = (Inr u, reg') \<Longrightarrow> reg' = set ns \<union> reg"
  by (induction ns arbitrary: reg) (auto simp: MustRegister_def split: if_splits)

lemma register_again: "n \<in> reg \<Longrightarrow> register_all (n # ns) reg = (Inl (Panic (AlreadyRegistered n)), reg)"
  by (simp add: MustRegister_def)

lemma runServer_registers:
  assumes "runServer c ord l ifi store reg = (Inr r, reg')"
  shows "set store_metrics \<subseteq> reg'"
proof -
  let ?S = "daemon_store c ord"
  obtain g reg1 s1 where g: "IPStoreMetrics ?S (if_Subnets ifi) reg store = (Inr g, reg1, s1)"
    "\<exists>hm. NewHandlerMetrics reg1 = (Inr hm, reg')"
    using assms by (auto simp: runServer_def Let_def split: option.splits sum.splits fault.splits prod.splits)
  have "reg1 = set store_metrics \<union> reg"
    using g(1) register_all_done [of store_metrics reg]
    by (auto simp: IPStoreMetrics_def split: sum.splits prod.splits)
  moreover have "reg' = set server_metrics \<union> reg1"
    using g(2) register_all_done [of server_metrics reg1]
    by (auto simp: NewHandlerMetrics_def split: sum.splits prod.splits)
  ultimately show ?thesis by blast
qed

lemma runServer_registered:
  assumes "set store_metrics \<subseteq> reg"
  shows "runServer c ord None ifi store reg = (Inl (ServerPanic (AlreadyRegistered ''wgipamd_store_ips_allocated'')), reg)"
proof -
  have "register_all store_metrics reg = (Inl (Panic (AlreadyRegistered ''wgipamd_store_ips_allocated'')), reg)"
    using assms unfolding store_metrics_def by (intro register_again) simp
  then show ?thesis by (simp add: runServer_def IPStoreMetrics_def Let_def)
qed

lemma second_interface:
  assumes "set store_metrics \<subseteq> reg"
  shows "\<exists>e reg'. run_interfaces c ord env test st (ifi # ifis) reg = (Inl e, reg')"
    and "newStore env (if_Name ifi) st = Inr store \<Longrightarrow> (case test of None \<Rightarrow> env_Listen env (if_Name ifi) | Some r \<Rightarrow> r) = None \<Longrightarrow>
      run_interfaces c ord env test st (ifi # ifis) reg =
        (Inl (ServerPanic (AlreadyRegistered ''wgipamd_store_ips_allocated'')), reg)"
proof -
  show "\<exists>e reg'. run_interfaces c ord env test st (ifi # ifis) reg = (Inl e, reg')"
  proof (cases "newStore env (if_Name ifi) st")
    case (Inr store)
    let ?l = "case test of None \<Rightarrow> env_Listen env (if_Name ifi) | Some r \<Rightarrow> r"
    have "\<exists>e reg'. runServer c ord ?l ifi store reg = (Inl e, reg')"
    proof (cases ?l)
      case None
      then show ?thesis using runServer_registered [OF assms, of c ord ifi store] by auto
    next
      case (Some e)
      then show ?thesis by (simp add: runServer_def Let_def)
    qed
    then show ?thesis using Inr by (auto simp: Let_def)
  qed simp
  show "run_interfaces c ord env test st (ifi # ifis) reg =
        (Inl (ServerPanic (AlreadyRegistered ''wgipamd_store_ips_allocated'')), reg)"
    if "newStore env (if_Name ifi) st = Inr store" "(case test of None \<Rightarrow> env_Listen env (if_Name ifi) | Some r \<Rightarrow> r) = None"
    using that runServer_registered [OF assms, of c ord ifi store] by (simp add: Let_def)
qed

text \<open>C12: The daemon never comes up with two interfaces or more, though the configuration allows them: either
  something else fails, or the metrics of the second one are registered under the names of the first and
  \<open>MustRegister\<close> panics.\<close>

theorem Run_second_interface_fails:
  assumes "cfg_Interfaces (srv_cfg srv) = i1 # i2 # ifis" "srv_TestListener srv = None"
  shows "(\<exists>e. Run c ord env srv = Inl e) \<and>
    (\<forall>s1 s2 r reg. newStore env (if_Name i1) (cfg_Storage (srv_cfg srv)) = Inr s1 \<longrightarrow>
       runServer c ord (env_Listen env (if_Name i1)) i1 s1 (srv_reg srv) = (Inr r, reg) \<longrightarrow>
       newStore env (if_Name i2) (cfg_Storage (srv_cfg srv)) = Inr s2 \<longrightarrow> env_Listen env (if_Name i2) = None \<longrightarrow>
       Run c ord env srv = Inl (ServerPanic (AlreadyRegistered ''wgipamd_store_ips_allocated'')))"
proof (intro conjI allI impI)
  show "\<exists>e. Run c ord env srv = Inl e"
  proof (cases "newStore env (if_Name i1) (cfg_Storage (srv_cfg srv))")
    case (Inr s1)
    show ?thesis
    proof (cases "runServer c ord (env_Listen env (if_Name i1)) i1 s1 (srv_reg srv)")
      case (Pair r reg)
      then show ?thesis
        using Inr assms second_interface(1) [OF runServer_registers, of c ord "env_Listen env (if_Name i1)" i1 s1
            "srv_reg srv" _ reg c ord env None "cfg_Storage (srv_cfg srv)" i2 ifis]
        by (cases r) (auto simp: Run_def Let_def simp del: run_interfaces.simps(2) simp: run_interfaces.simps(2) [of _ _ _ _ _ i1])
    qed
  qed (simp add: Run_def assms)
next
  fix s1 s2 r reg
  assume h: "newStore env (if_Name i1) (cfg_Storage (srv_cfg srv)) = Inr s1"
    "runServer c ord (env_Listen env (if_Name i1)) i1 s1 (srv_reg srv) = (Inr r, reg)"
    "newStore env (if_Name i2) (cfg_Storage (srv_cfg srv)) = Inr s2" "env_Listen env (if_Name i2) = None"
  have "run_interfaces c ord env None (cfg_Storage (srv_cfg srv)) (i2 # ifis) reg =
      (Inl (ServerPanic (AlreadyRegistered ''wgipamd_store_ips_allocated'')), reg)"
    by (rule second_interface(2) [OF runServer_registers [OF h(2)] h(3)]) (simp add: h(4))
  then show "Run c ord env srv = Inl (ServerPanic (AlreadyRegistered ''wgipamd_store_ips_allocated''))"
    using h(1,2) assms by (simp add: Run_def Let_def)
qed

section \<open>Starting with one interface\<close>

lemma set_allocated_state:
  assumes "\<And>sub. snd (st_AllocatedIPs st sub s) = s"
  shows "snd (set_allocated st rs g s) = s"
proof (induction rs arbitrary: g)
  case (Cons r rs)
  have "snd (st_AllocatedIPs st r s) = s" by (rule assms)
  then show ?case using Cons by (cases "st_AllocatedIPs st r s"; cases "fst (st_AllocatedIPs st r s)") auto
qed simp

lemma daemon_reads [simp]:
  "snd (st_Subnets (daemon_store c ord) s) = s" "snd (st_AllocatedIPs (daemon_store c ord) sub s) = s"
  by (cases ord; cases s; simp add: daemon_store_def daemon_Store_def sum_Store_def memory_Store_def bolt_Store_def
      memoryStore_Subnets_def boltStore_Subnets_def memoryStore_AllocatedIPs_def boltStore_AllocatedIPs_def
      split: option.splits)+

lemma init_gauges_state: "init_gauges (daemon_store c ord) subs s = (r, s') \<Longrightarrow> s' = s"
proof -
  assume h: "init_gauges (daemon_store c ord) subs s = (r, s')"
  let ?S = "daemon_store c ord"
  have st: "snd (set_allocated ?S rs g s) = s" for rs g by (rule set_allocated_state) simp
  have "snd (init_gauges ?S subs s) = s"
    using daemon_reads(1) [of c ord s] st
    by (cases "st_Subnets ?S s"; cases "fst (st_Subnets ?S s)") (auto simp: init_gauges_def split: sum.splits)
  then show "s' = s" using h by simp
qed

lemma runServer_started:
  assumes "runServer c ord l ifi store reg = (Inr r, reg')"
  shows "l = None" "run_Interface r = ifi"
    "\<exists>g. DualStackIPAllocator (metrics_ips (daemon_store c ord)) (if_Subnets ifi) (store, g) = (Inr (run_ipa r), run_store r)"
proof -
  let ?S = "daemon_store c ord"
  obtain g reg1 s1 where g: "IPStoreMetrics ?S (if_Subnets ifi) reg store = (Inr g, reg1, s1)"
    "DualStackIPAllocator (metrics_ips ?S) (if_Subnets ifi) (s1, g) = (Inr (run_ipa r), run_store r)"
    and h: "l = None" "run_Interface r = ifi"
    using assms by (auto simp: runServer_def Let_def split: option.splits sum.splits fault.splits prod.splits)
  have "s1 = store"
    using g(1) init_gauges_state [of c ord "if_Subnets ifi" store] by (auto simp: IPStoreMetrics_def split: sum.splits prod.splits)
  then show "l = None" "run_Interface r = ifi"
    "\<exists>g. DualStackIPAllocator (metrics_ips ?S) (if_Subnets ifi) (store, g) = (Inr (run_ipa r), run_store r)"
    using g h by blast+
qed

lemma Run_one:
  assumes "Run c ord env srv = Inr [r]"
  shows "\<exists>ifi store l reg. cfg_Interfaces (srv_cfg srv) = [ifi] \<and>
    newStore env (if_Name ifi) (cfg_Storage (srv_cfg srv)) = Inr store \<and>
    runServer c ord l ifi store (srv_reg srv) = (Inr r, reg)"
proof (cases "cfg_Interfaces (srv_cfg srv)")
  case Nil
  then show ?thesis using assms by (simp add: Run_def split: sum.splits)
next
  case (Cons ifi ifis)
  obtain store l reg1 rs reg2 where h: "newStore env (if_Name ifi) (cfg_Storage (srv_cfg srv)) = Inr store"
    "runServer c ord l ifi store (srv_reg srv) = (Inr r, reg1)"
    "run_interfaces c ord env (srv_TestListener srv) (cfg_Storage (srv_cfg srv)) ifis reg1 = (Inr [], reg2)"
    using assms Cons by (auto simp: Run_def Let_def split: sum.splits prod.splits)
  have "ifis = []" using h(3) by (cases ifis) (auto simp: Let_def split: sum.splits prod.splits)
  then show ?thesis using Cons h by blast
qed

section \<open>The store of the daemon\<close>

definition any_full :: "'v lease_codec \<Rightarrow> string set \<Rightarrow> bool \<Rightarrow> memoryStore + 'v boltStore \<Rightarrow> bool" where
  "any_full c N memory s \<longleftrightarrow>
     any_ok c N memory s \<and> finite_maps (any_leases c s) (any_view s)"

lemma daemon_full_store:
  assumes "codec_ok c"
  shows "handler_store (metrics_ips (daemon_store c ord)) (metrics_leases (daemon_store c ord)) lease_storable
    (\<lambda>x. any_full c N memory (fst x)) (\<lambda>x. any_view (fst x)) (\<lambda>x. any_leases c (fst x)) clock_range"
proof (cases ord)
  case (fields lk bk sk)
  have S: "daemon_store c ord = daemon_Store c lk bk sk" by (simp add: daemon_store_def fields)
  show ?thesis
    using handler_store.with_finite [OF daemon_handler_store [OF assms S, of N memory]]
    by (simp add: any_full_def [abs_def])
qed

definition configured :: "Subnet list \<Rightarrow> ipnet set" where
  "configured subs = (\<lambda>x. NewPrefix (Subnet_Subnet x)) ` set subs"

text \<open>The invariant of an interface that is served.\<close>

definition daemon_inv :: "'v lease_codec \<Rightarrow> Subnet list \<Rightarrow> bool \<Rightarrow> 'v running \<Rightarrow> bool" where
  "daemon_inv c subs memory r \<longleftrightarrow>
     handler_inv (any_full c (subnet_keys subs) memory) any_view (any_leases c) (run_ipa r) (fst (run_store r)) \<and>
     nets (run_ipa r) = configured subs"

lemma daemon_request:
  assumes "codec_ok c" "daemon_inv c subs memory r" "clock_range now'"
  shows "\<exists>res r'. run_request c ord strKey now now' src req r = Some (res, r') \<and> run_Interface r' = run_Interface r \<and>
    ((\<forall>e. res \<noteq> Inl (Panic e)) \<longrightarrow> daemon_inv c subs memory r')"
proof -
  let ?S = "daemon_store c ord" and ?d = "if_LeaseDuration (run_Interface r)"
  have h: "handler_inv (\<lambda>x. any_full c (subnet_keys subs) memory (fst x)) (\<lambda>x. any_view (fst x)) (\<lambda>x. any_leases c (fst x))
      (run_ipa r) (run_store r)"
    using assms(2) by (auto simp: daemon_inv_def handler_inv_def)
  obtain res a' x' where q: "requestIP (multi_handler (metrics_leases ?S) (metrics_ips ?S) ?d) strKey now now' src req
      (run_ipa r) (run_store r) = Some (res, a', x')" "same_nets (run_ipa r) a'"
    "(\<forall>e. res \<noteq> Inl (Panic e)) \<longrightarrow> handler_inv (\<lambda>x. any_full c (subnet_keys subs) memory (fst x))
      (\<lambda>x. any_view (fst x)) (\<lambda>x. any_leases c (fst x)) a' x'"
    using handler_store.requestIP_safe [OF daemon_full_store [OF assms(1)] h assms(3), of ord ?d strKey now src req] by blast
  obtain m where m: "run_request c ord strKey now now' src req r =
      Some (res, r\<lparr>run_ipa := a', run_store := x', run_metrics := m\<rparr>)"
    using q(1) unfolding run_request_def Handler_RequestIP_def Let_def
    by (cases res; cases "projl res") (auto split: option.splits)
  show ?thesis
    unfolding m using q(3) nets_same [OF q(2)] assms(2) by (auto simp: daemon_inv_def handler_inv_def)
qed

text \<open>A purge of either store.\<close>

lemma live_full:
  assumes "finite_maps L v" "dom v' = dom v"
  shows "finite_maps (live_leases t L) v'"
proof -
  have "dom (live_leases t L) \<subseteq> dom L" by (auto simp: live_leases_def split: option.splits)
  then show ?thesis using assms by (auto simp: finite_maps_def intro: finite_subset)
qed

lemma any_Purge:
  assumes "orders3 ord" "any_full c N memory s"
  shows "\<exists>stats s'. st_Purge (daemon_store c ord) t s = (Inr stats, s') \<and> any_full c N memory s' \<and>
    any_leases c s' = live_leases t (any_leases c s) \<and>
    (\<forall>sub\<in>N. any_view s' sub = map_option (\<lambda>A. A - purged_ips t (any_leases c s) sub) (any_view s sub))"
proof (cases ord)
  case (fields lk bk sk)
  then have o: "orders lk" "orders bk" "orders sk" using assms(1) by (auto simp: orders3_def)
  show ?thesis
  proof (cases s)
    case (Inl m)
    have m: "mem_ok m" "finite_maps (leases m) (subnets m)" memory
      using assms(2) Inl by (auto simp: any_full_def any_ok_def any_leases_def any_view_def)
    obtain stats m' where r: "purge_result t m = (Inr stats, m')" and e: "leases m' = live_leases t (leases m)"
      "subnets m' = (\<lambda>sub. map_option (\<lambda>A. A - purged_ips t (leases m) sub) (subnets m sub))"
      by (rule that [of "projr (fst (purge_result t m))" "snd (purge_result t m)"]) (simp_all add: purge_result_def)
    have "memoryStore_Purge (lk (dom (leases m))) (sk (dom (subnets m))) t m = (Inr stats, m')"
      using Purge_eq [OF m(1) orders_range [OF o(1)] orders_range [OF o(3)]] m(2) r by (simp add: finite_maps_def)
    moreover have "finite_maps (leases m') (subnets m')"
      unfolding e(1) by (rule live_full [OF m(2)]) (simp add: e(2) dom_purged)
    moreover have "mem_ok m'" using mem_ok_purge_result [OF m(1), of t] r by simp
    ultimately show ?thesis
      using m(3) Inl fields e
      by (intro exI [of _ stats] exI [of _ "Inl m'"]) (simp add: any_full_def any_ok_def any_leases_def any_view_def
          daemon_store_def daemon_Store_def sum_Store_def memory_Store_def)
  next
    case (Inr b)
    have b: "bolt_ready c N b" "finite_maps (bolt_leases_of c b) (bolt_view b)" "\<not> memory"
      using assms(2) Inr by (auto simp: any_full_def any_ok_def any_leases_def any_view_def)
    have fin: "finite (dom (bucketLeases (bolt_db b)))" "finite (dom (bolt_subnets b))"
      using b(1,2) by (auto simp: bolt_ready_def bolt_lease_keys finite_maps_def intro: finite_subset)
    obtain stats b' where p: "boltStore_Purge c Commits (bk (dom (bucketLeases (bolt_db b)))) (sk (dom (bolt_subnets b))) t b =
        (Inr stats, b')" and b': "bolt_ready c N b'" "bolt_leases_of c b' = live_leases t (bolt_leases_of c b)"
      "bolt_view b' = (\<lambda>sub. if sub \<in> dom (bolt_subnets b)
        then map_option (\<lambda>A. A - purged_ips t (bolt_leases_of c b) sub) (bolt_view b sub) else bolt_view b sub)"
      using bolt_Purge_eq [OF b(1) orders_range [OF o(2) fin(1)] orders_range [OF o(3) fin(2)], of t] by blast
    have "finite_maps (bolt_leases_of c b') (bolt_view b')"
      unfolding b'(2) by (rule live_full [OF b(2)]) (auto simp: b'(3) domIff split: if_splits)
    moreover have "N \<subseteq> dom (bolt_subnets b)" using b(1) by (simp add: bolt_ready_def)
    ultimately show ?thesis
      using p b' b(3) Inr fields
      by (auto simp: any_full_def any_ok_def any_leases_def any_view_def daemon_store_def daemon_Store_def sum_Store_def
          bolt_Store_def)
  qed
qed

lemma configured_keys:
  assumes "config_ok subs" "p \<in> configured subs"
  shows "ipnet_String p \<in> subnet_keys subs"
  using assms config_keys by (auto simp: configured_def subnet_keys_def)

lemma daemon_purge:
  assumes cfg: "config_ok subs" and inv: "daemon_inv c subs memory r" and o: "orders3 ord"
    and p: "run_purge c ord ko now t r = (res, r')"
  shows "daemon_inv c subs memory r' \<and> run_Interface r' = run_Interface r \<and> (\<exists>stats. res = Inr stats)"
proof -
  let ?s = "fst (run_store r)"
  have h: "any_full c (subnet_keys subs) memory ?s" "lease_inv (configured subs) (any_view ?s) (any_leases c ?s)"
    "nets (run_ipa r) = configured subs" "multi_ok (run_ipa r)" "nets_apart (run_ipa r)"
    using inv by (auto simp: daemon_inv_def handler_inv_def)
  obtain stats s' where s': "st_Purge (daemon_store c ord) t ?s = (Inr stats, s')" "any_full c (subnet_keys subs) memory s'"
    "any_leases c s' = live_leases t (any_leases c ?s)"
    "\<forall>sub\<in>subnet_keys subs. any_view s' sub = map_option (\<lambda>A. A - purged_ips t (any_leases c ?s) sub) (any_view ?s sub)"
    using any_Purge [OF o h(1)] by blast
  have N: "nets_ok (configured subs)" using multi_nets_ok [OF h(4,5)] h(3) by simp
  have "lease_inv (configured subs) (any_view s') (live_leases t (any_leases c ?s))"
    using s'(4) configured_keys [OF cfg] by (intro lease_inv_purge [OF h(2) N]) blast
  moreover have "fst (run_store r') = s' \<and> run_ipa r' = run_ipa r \<and> run_Interface r' = run_Interface r \<and> res = Inr stats"
    using p s'(1) by (auto simp: run_purge_def metricsIPStore_Purge_def)
  ultimately show ?thesis using s'(2,3) h by (auto simp: daemon_inv_def handler_inv_def)
qed

section \<open>Starts\<close>

text \<open>A file the daemon can start on: a new one, or one it left.\<close>

definition good_file :: "'v lease_codec \<Rightarrow> Subnet list \<Rightarrow> 'v bolt_file \<Rightarrow> bool" where
  "good_file c subs f \<longleftrightarrow>
     (\<exists>b. FileStore None Commits f = Inr b \<and> any_full c {} False (Inr b) \<and> opens_with c subs b)"

lemma good_new_file:
  assumes "config_ok subs"
  shows "good_file c subs new_file"
  using new_file_opens(1) [OF assms] new_file_opens(2,3) [OF assms, of c]
  by (auto simp: good_file_def any_full_def any_ok_def any_leases_def any_view_def finite_maps_def
      bolt_view_def empty_bolt_def bolt_leases_of_def dom_def)

lemma good_left_file:
  assumes "config_ok subs" "daemon_inv c subs False r"
  shows "good_file c subs (left_file r)"
proof -
  obtain b where b: "fst (run_store r) = Inr b" "bolt_ready c (subnet_keys subs) b"
    "finite_maps (bolt_leases_of c b) (bolt_view b)" and inv: "bolt_inv c subs (run_ipa r) b"
    using assms(2) by (auto simp: daemon_inv_def handler_inv_def bolt_inv_def any_full_def any_ok_def any_leases_def
        any_view_def configured_def split: sum.splits)
  note o = file_of_opens [OF inv]
  have "bolt_leases_of c (b\<lparr>bolt_subnets := Map.empty\<rparr>) = bolt_leases_of c b"
    "bolt_view (b\<lparr>bolt_subnets := Map.empty\<rparr>) = bolt_view b"
    by (simp_all add: bolt_view_def bolt_leases_of_def fun_eq_iff)
  then show ?thesis
    using o b by (auto simp: good_file_def left_file_def any_full_def any_ok_def any_leases_def any_view_def)
qed

text \<open>Making the allocator of an interface on a store that is opened.\<close>

definition opened :: "'v lease_codec \<Rightarrow> Subnet list \<Rightarrow> bool \<Rightarrow> memoryStore + 'v boltStore \<Rightarrow> bool" where
  "opened c subs memory s \<longleftrightarrow>
     (if memory then s = Inl MemoryStore else \<exists>b. s = Inr b \<and> any_full c {} False (Inr b) \<and> opens_with c subs b)"

lemma opened_full: "opened c subs memory s \<Longrightarrow> any_full c {} memory s"
  by (auto simp: opened_def any_full_def any_ok_def any_leases_def any_view_def finite_maps_def
      mem_ok_MemoryStore split: if_splits) (simp_all add: MemoryStore_def)

lemma DualStack_opened:
  assumes "codec_ok c" "config_ok subs" "opened c subs memory s"
  shows "\<exists>a x. DualStackIPAllocator (metrics_ips (daemon_store c ord)) subs (s, g) = (Inr a, x) \<and>
    handler_inv (any_full c (subnet_keys subs) memory) any_view (any_leases c) a (fst x) \<and> nets a = configured subs \<and>
    any_leases c (fst x) = any_leases c s"
proof (cases ord)
  case (fields lk bk sk)
  let ?S = "daemon_store c ord"
  have S: "?S = daemon_Store c lk bk sk" by (simp add: daemon_store_def fields)
  have c: "subs \<noteq> []" "\<forall>x\<in>set subs. subnet_ok x \<and> Validate x = Inr ()" "\<forall>x\<in>set subs. subnet_ok x"
    "sorted_wrt disjoint_nets (map Subnet_Subnet subs)"
    using assms(2) by (auto simp: config_ok_def)
  have R: "reliable_ip_store (metrics_ips ?S) (\<lambda>x. any_full c {} memory (fst x)) (\<lambda>x. any_view (fst x)) (\<lambda>x. any_leases c (fst x))"
    using daemon_full_store [OF assms(1)] unfolding handler_store_def by blast
  have full: "any_full c {} memory (fst (s, g))" using opened_full [OF assms(3)] by simp
  obtain a x where a: "DualStackIPAllocator (metrics_ips ?S) subs (s, g) = (Inr a, x)" "any_full c {} memory (fst x)" "any_leases c (fst x) = any_leases c s"
    "list_all2 starts (mia_m a IPv4) (filter (\<lambda>x. to4 (IP (Subnet_Subnet x)) \<noteq> None) subs)"
    "list_all2 starts (mia_m a IPv6) (filter (\<lambda>x. to4 (IP (Subnet_Subnet x)) = None) subs)"
    "\<forall>f. f \<noteq> IPv4 \<and> f \<noteq> IPv6 \<longrightarrow> mia_m a f = []"
    using reliable_ip_store.DualStackIPAllocator_ok [OF R c(1,2), of "(s, g)", OF full] by auto
  have nets: "nets a = configured subs" using server_nets(2) [OF c(3,4) a(4-6)] by (simp add: configured_def)
  have "handler_inv (any_full c (subnet_keys subs) memory) any_view (any_leases c) a (fst x)"
  proof (cases memory)
    case True
    then have s: "s = Inl MemoryStore" using assms(3) by (simp add: opened_def)
    obtain a' m where m: "DualStackIPAllocator mem_ips subs MemoryStore = (Inr a', m)" "mem_inv a' m"
      using new_server_inv [OF assms(2)] by blast
    then have "a' = a \<and> x = (Inl m, g)" using a(1) unfolding s DualStack_daemon(1) [OF S] by simp
    then show ?thesis
      using m(2) a(2) True by (auto simp: handler_inv_def any_full_def any_ok_def any_view_def any_leases_def)
  next
    case False
    then obtain b where b: "s = Inr b" "any_full c {} False (Inr b)" "opens_with c subs b"
      using assms(3) by (auto simp: opened_def)
    then have "bolt_ready c {} b" by (simp add: any_full_def any_ok_def)
    then obtain a' b' where b': "DualStackIPAllocator (bolt_ips Commits) subs b = (Inr a', b')" "bolt_inv c subs a' b'"
      using bolt_open_inv [OF assms(2)] b(3) unfolding opens_with_def by blast
    then have "a' = a \<and> x = (Inr b', g)" using a(1) unfolding b(1) DualStack_daemon(2) [OF S] by simp
    then show ?thesis
      using b'(2) a(2) False by (auto simp: bolt_inv_def handler_inv_def any_full_def any_ok_def any_view_def any_leases_def)
  qed
  then show ?thesis using a(1,3) nets by blast
qed

lemma newStore_opened:
  assumes "newStore env n st = Inr s" "opens env f" "\<not> Storage_Memory st \<Longrightarrow> good_file c subs f"
  shows "opened c subs (Storage_Memory st) s"
  using assms by (auto simp: newStore_def opened_def opens_def good_file_def split: if_splits sum.splits)

lemma newStore_ok:
  assumes "Storage_Memory st \<or> Storage_File st \<noteq> ''''" "opens env f" "good_file c subs f"
  shows "\<exists>s. newStore env n st = Inr s"
  using assms by (auto simp: newStore_def opens_def good_file_def)

lemma runServer_inv:
  assumes "codec_ok c" "config_ok (if_Subnets ifi)" "opened c (if_Subnets ifi) memory s"
    "runServer c ord l ifi s reg = (Inr r, reg')"
  shows "daemon_inv c (if_Subnets ifi) memory r \<and> run_Interface r = ifi \<and> any_leases c (fst (run_store r)) = any_leases c s"
proof -
  note h = runServer_started [OF assms(4)]
  obtain g where g: "DualStackIPAllocator (metrics_ips (daemon_store c ord)) (if_Subnets ifi) (s, g) = (Inr (run_ipa r), run_store r)"
    using h(3) by blast
  obtain a x where "DualStackIPAllocator (metrics_ips (daemon_store c ord)) (if_Subnets ifi) (s, g) = (Inr a, x)"
    "handler_inv (any_full c (subnet_keys (if_Subnets ifi)) memory) any_view (any_leases c) a (fst x)"
    "nets a = configured (if_Subnets ifi)" "any_leases c (fst x) = any_leases c s"
    using DualStack_opened [OF assms(1,2,3)] by blast
  then show ?thesis using g h(2) by (simp add: daemon_inv_def)
qed

text \<open>The gauges of a store that is opened.\<close>

lemma set_allocated_ok:
  assumes "\<And>r. r \<in> set rs \<Longrightarrow> \<exists>ips. st_AllocatedIPs st r s = (Inr ips, s)"
  shows "\<exists>g'. set_allocated st rs g s = (Inr g', s)"
  using assms
proof (induction rs arbitrary: g)
  case (Cons r rs)
  obtain ips where ips: "st_AllocatedIPs st r s = (Inr ips, s)" using Cons.prems by auto
  have "\<exists>g'. set_allocated st rs h s = (Inr g', s)" for h using Cons.IH Cons.prems by simp
  then show ?case using ips by simp
qed simp

lemma init_gauges_ok:
  assumes "orders3 ord" "opened c subs memory s"
  shows "\<exists>g. init_gauges (daemon_store c ord) xs s = (Inr g, s)"
proof (cases ord)
  case (fields lk bk sk)
  then have o: "orders lk" "orders bk" "orders sk" using assms(1) by (auto simp: orders3_def)
  show ?thesis
  proof (cases memory)
    case True
    then have "s = Inl MemoryStore" using assms(2) by (simp add: opened_def)
    then have "st_Subnets (daemon_store c ord) s = (Inr [], s)"
      using o by (simp add: fields daemon_store_def daemon_Store_def sum_Store_def memory_Store_def
          memoryStore_Subnets_def MemoryStore_def)
    then show ?thesis by (simp add: init_gauges_def)
  next
    case False
    then obtain b where b: "s = Inr b" "any_full c {} False (Inr b)" using assms(2) by (auto simp: opened_def)
    then have full: "bolt_ok c b" "finite (dom (bolt_view b))"
      by (auto simp: any_full_def any_ok_def bolt_ready_def any_view_def any_leases_def finite_maps_def)
    have u: "unmarshalIPNet = parse_ip_key" by (simp add: fun_eq_iff unmarshalIPNet_def parse_ip_key_def)
    have keys: "set (sk (dom (bolt_view b))) = dom (bolt_view b)" using o(3) full(2) by (auto simp: orders_def)
    have "\<exists>m. parse_ip_key k = Inr m \<and> net_ok m \<and> ipnet_String m = k" if "k \<in> set (sk (dom (bolt_view b)))" for k
    proof -
      have "k \<in> dom (subnets (bolt_abs c b))" using that unfolding keys by (simp add: bolt_abs_def)
      then obtain A where "subnets (bolt_abs c b) k = Some A" by blast
      then obtain n where n: "net_ok n" "k = ipnet_String n" using bolt_ok_mem [OF full(1)] unfolding mem_ok_def by meson
      show ?thesis unfolding n(2) by (rule parse_ip_key_text [OF n(1)])
    qed
    then obtain ns where ns: "parse_all parse_ip_key (sk (dom (bolt_view b))) = Inr ns" "map ipnet_String ns = sk (dom (bolt_view b))"
      using parse_all_texts [of "sk (dom (bolt_view b))" parse_ip_key] by blast
    have subs: "st_Subnets (daemon_store c ord) s = (Inr ns, s)"
      using ns(1) b(1) u by (simp add: fields daemon_store_def daemon_Store_def sum_Store_def bolt_Store_def
          boltStore_Subnets_def db_View_def bolt_view_def)
    have "\<exists>ips. st_AllocatedIPs (daemon_store c ord) r s = (Inr ips, s)" if "r \<in> set ns" for r
    proof -
      have "ipnet_String r \<in> dom (bolt_view b)" using that ns(2) keys by (metis image_eqI image_set)
      then obtain A where A: "bolt_view b (ipnet_String r) = Some A" by auto
      have m: "mem_ok (bolt_abs c b)" "subnets (bolt_abs c b) (ipnet_String r) = Some A"
        using bolt_ok_mem [OF full(1)] A by (simp_all add: bolt_abs_def)
      have "set (sk A) = A" using o(3) mem_ok_finite [OF m] by (auto simp: orders_def)
      then obtain ips where "parse_all parse_ip_key (sk A) = Inr ips" using mem_AllocatedIPs [OF m] by blast
      then show ?thesis
        using A b(1) u by (simp add: fields daemon_store_def daemon_Store_def sum_Store_def bolt_Store_def
            boltStore_AllocatedIPs_def db_View_def bolt_view_def marshalIPNet_def keys_of_def)
    qed
    then have "\<exists>g'. set_allocated (daemon_store c ord) ns g s = (Inr g', s)" for g by (rule set_allocated_ok)
    then show ?thesis using subs by (simp add: init_gauges_def)
  qed
qed

lemma register_metrics:
  assumes "(set store_metrics \<union> set server_metrics) \<inter> reg = {}"
  shows "register_all store_metrics reg = (Inr (), set store_metrics \<union> reg)"
    "register_all server_metrics (set store_metrics \<union> reg) = (Inr (), set server_metrics \<union> (set store_metrics \<union> reg))"
  by (rule register_all_ok; use assms in \<open>auto simp: server_metrics_def store_metrics_def\<close>)+

lemma runServer_ok:
  assumes "codec_ok c" "config_ok (if_Subnets ifi)" "orders3 ord" "opened c (if_Subnets ifi) memory s"
    "(set store_metrics \<union> set server_metrics) \<inter> reg = {}"
  shows "\<exists>r reg'. runServer c ord None ifi s reg = (Inr r, reg')"
proof -
  let ?S = "daemon_store c ord"
  obtain g where g: "init_gauges ?S (if_Subnets ifi) s = (Inr g, s)" using init_gauges_ok [OF assms(3,4)] by blast
  obtain a x where a: "DualStackIPAllocator (metrics_ips ?S) (if_Subnets ifi) (s, g) = (Inr a, x)"
    using DualStack_opened [OF assms(1,2,4)] by blast
  show ?thesis
    using g a register_metrics [OF assms(5)] by (simp add: runServer_def IPStoreMetrics_def NewHandlerMetrics_def Let_def)
qed

section \<open>Reachable states\<close>

lemma daemon_start_inv:
  assumes "codec_ok c" "\<forall>ifi\<in>set (cfg_Interfaces (srv_cfg srv)). config_ok (if_Subnets ifi)" "opens env f"
    "\<And>ifi. cfg_Interfaces (srv_cfg srv) = [ifi] \<Longrightarrow> \<not> Storage_Memory (cfg_Storage (srv_cfg srv)) \<Longrightarrow> good_file c (if_Subnets ifi) f"
    "Run c ord env srv = Inr [r]"
  shows "cfg_Interfaces (srv_cfg srv) = [run_Interface r] \<and>
    daemon_inv c (if_Subnets (run_Interface r)) (Storage_Memory (cfg_Storage (srv_cfg srv))) r"
proof -
  obtain ifi store l reg where h: "cfg_Interfaces (srv_cfg srv) = [ifi]"
    "newStore env (if_Name ifi) (cfg_Storage (srv_cfg srv)) = Inr store"
    "runServer c ord l ifi store (srv_reg srv) = (Inr r, reg)"
    using Run_one [OF assms(5)] by blast
  have "config_ok (if_Subnets ifi)" using assms(2) h(1) by simp
  then show ?thesis
    using runServer_inv [OF assms(1) _ newStore_opened [OF h(2) assms(3) assms(4) [OF h(1)]] h(3)] h(1) by simp
qed

lemma daemon_reach_inv:
  assumes "daemon_reach c strKey srv r" "codec_ok c" "\<forall>ifi\<in>set (cfg_Interfaces (srv_cfg srv)). config_ok (if_Subnets ifi)"
  shows "cfg_Interfaces (srv_cfg srv) = [run_Interface r] \<and>
    daemon_inv c (if_Subnets (run_Interface r)) (Storage_Memory (cfg_Storage (srv_cfg srv))) r"
  using assms(1)
proof induction
  case (start ord env r)
  show ?case by (rule daemon_start_inv [OF assms(2,3) start(2) _ start(3)]) (simp add: good_new_file assms(3))
next
  case (step r r')
  then have inv: "daemon_inv c (if_Subnets (run_Interface r)) (Storage_Memory (cfg_Storage (srv_cfg srv))) r"
    and cfg: "config_ok (if_Subnets (run_Interface r))" using assms(3) by auto
  from step(2) show ?case
  proof cases
    case (request ord now' now src req res)
    then show ?thesis
      using daemon_request [OF assms(2) inv request(2), of ord strKey now src req] step.IH by (auto simp: fun_eq_iff)
  next
    case (purge ord ko now t res)
    then show ?thesis using daemon_purge [OF cfg inv purge(1,2)] step.IH by auto
  qed
next
  case (restart r ord env r')
  have "config_ok (if_Subnets (run_Interface r))" using restart.IH assms(3) by simp
  then show ?case
    using restart.IH by (intro daemon_start_inv [OF assms(2,3) restart(3) _ restart(4)]) (auto intro: good_left_file)
qed

end
