(* ===== verification/Daemon_Run.thy ===== *)
theory Daemon_Run
  imports Daemon_Safety
begin

text \<open>
  Properties of the daemon from end to end: configuration, storage, gauges, allocator, handler and purge
  together, in any order of requests, purges and restarts.
\<close>

section \<open>It starts\<close>

text \<open>A configuration with one interface, and names of metrics that are free.\<close>

definition one_interface :: "Server \<Rightarrow> Interface \<Rightarrow> bool" where
  "one_interface srv ifi \<longleftrightarrow> cfg_Interfaces (srv_cfg srv) = [ifi] \<and> config_ok (if_Subnets ifi) \<and>
     (Storage_Memory (cfg_Storage (srv_cfg srv)) \<or> Storage_File (cfg_Storage (srv_cfg srv)) \<noteq> '''') \<and>
     (set store_metrics \<union> set server_metrics) \<inter> srv_reg srv = {}"

text \<open>The operating system gives what it is asked for.\<close>

definition listens :: "'v environment \<Rightarrow> Server \<Rightarrow> Interface \<Rightarrow> bool" where
  "listens env srv ifi \<longleftrightarrow> (case srv_TestListener srv of None \<Rightarrow> env_Listen env (if_Name ifi) | Some r \<Rightarrow> r) = None \<and>
     runDebug env (cfg_Debug (srv_cfg srv)) = Inr ()"

lemma Run_ok:
  assumes "codec_ok c" "one_interface srv ifi" "orders3 ord" "opens env f" "listens env srv ifi"
    "good_file c (if_Subnets ifi) f"
  shows "\<exists>r s. Run c ord env srv = Inr [r] \<and> newStore env (if_Name ifi) (cfg_Storage (srv_cfg srv)) = Inr s \<and>
    any_leases c (fst (run_store r)) = any_leases c s"
proof -
  have i: "cfg_Interfaces (srv_cfg srv) = [ifi]" "config_ok (if_Subnets ifi)"
    "Storage_Memory (cfg_Storage (srv_cfg srv)) \<or> Storage_File (cfg_Storage (srv_cfg srv)) \<noteq> ''''"
    "(set store_metrics \<union> set server_metrics) \<inter> srv_reg srv = {}"
    using assms(2) by (auto simp: one_interface_def)
  obtain s where s: "newStore env (if_Name ifi) (cfg_Storage (srv_cfg srv)) = Inr s"
    using newStore_ok [OF i(3) assms(4,6)] by blast
  note o = newStore_opened [OF s assms(4,6)]
  obtain r reg where r: "runServer c ord None ifi s (srv_reg srv) = (Inr r, reg)"
    using runServer_ok [OF assms(1) i(2) assms(3) o i(4)] by blast
  have "Run c ord env srv = Inr [r]"
    using i(1) s r assms(5) by (simp add: Run_def Let_def listens_def)
  then show ?thesis using s runServer_inv [OF assms(1) i(2) o r] by blast
qed

lemma reach_one:
  assumes "daemon_reach c strKey srv r" "codec_ok c" "one_interface srv ifi"
  shows "run_Interface r = ifi" "daemon_inv c (if_Subnets ifi) (Storage_Memory (cfg_Storage (srv_cfg srv))) r"
  using daemon_reach_inv [OF assms(1,2)] assms(3) by (auto simp: one_interface_def)

lemma reach_handler:
  assumes "daemon_reach c strKey srv r" "codec_ok c" "one_interface srv ifi"
  shows "handler_inv (any_full c (subnet_keys (if_Subnets ifi)) (Storage_Memory (cfg_Storage (srv_cfg srv)))) any_view
      (any_leases c) (run_ipa r) (fst (run_store r))" "nets (run_ipa r) = configured (if_Subnets ifi)"
  using reach_one(2) [OF assms] by (auto simp: daemon_inv_def)

lemma left_file_leases:
  assumes "newStore env n st = Inr s" "opens env (left_file r)" "\<not> Storage_Memory st"
    "daemon_inv c subs False r"
  shows "any_leases c s = any_leases c (fst (run_store r))"
proof -
  obtain b where b: "fst (run_store r) = Inr b"
    using assms(4) by (auto simp: daemon_inv_def handler_inv_def any_full_def any_ok_def split: sum.splits)
  have "FileStore None Commits (file_of b) = Inr (b\<lparr>bolt_subnets := Map.empty\<rparr>)"
    by (simp add: FileStore_def file_of_def bucket_or_new_def)
  then have "s = Inr (b\<lparr>bolt_subnets := Map.empty\<rparr>)"
    using assms(1-3) b by (auto simp: newStore_def opens_def left_file_def split: if_splits sum.splits)
  then show ?thesis using b by (simp add: any_leases_def bolt_leases_of_def fun_eq_iff)
qed

text \<open>C2: With one interface, whose subnets satisfy \<open>config_ok\<close>, and no metric of its names registered before, the
  daemon starts with memory and on a new file, if the operating system grants the listeners it asks for and opens the
  file; and it can be stopped in every state it reaches and started again under the same conditions; with a file it
  then has every lease it had.  The transactions of the file commit.\<close>

theorem daemon_starts:
  assumes "codec_ok c" "one_interface srv ifi" "orders3 ord" "listens env srv ifi"
  shows "(opens env new_file \<longrightarrow> (\<exists>r. Run c ord env srv = Inr [r])) \<and>
    (\<forall>r. daemon_reach c strKey srv r \<longrightarrow> opens env (left_file r) \<longrightarrow>
      (\<exists>r'. Run c ord env srv = Inr [r'] \<and> daemon_reach c strKey srv r' \<and>
        (\<not> Storage_Memory (cfg_Storage (srv_cfg srv)) \<longrightarrow>
          any_leases c (fst (run_store r')) = any_leases c (fst (run_store r)))))"
proof (intro conjI allI impI)
  have cfg: "config_ok (if_Subnets ifi)" using assms(2) by (simp add: one_interface_def)
  show "\<exists>r. Run c ord env srv = Inr [r]" if "opens env new_file"
    using Run_ok [OF assms(1-3) that assms(4) good_new_file [OF cfg]] by blast
  fix r assume r: "daemon_reach c strKey srv r" and o: "opens env (left_file r)"
  let ?mem = "Storage_Memory (cfg_Storage (srv_cfg srv))"
  note inv = reach_one(2) [OF r assms(1,2)]
  have "good_file c (if_Subnets ifi) (left_file r)"
  proof (cases ?mem)
    case True
    then have "left_file r = new_file"
      using inv by (auto simp: daemon_inv_def handler_inv_def any_full_def any_ok_def left_file_def split: sum.splits)
    then show ?thesis using good_new_file [OF cfg] by simp
  next
    case False
    then show ?thesis using good_left_file [OF cfg] inv by simp
  qed
  from Run_ok [OF assms(1-3) o assms(4) this] obtain r' s where r': "Run c ord env srv = Inr [r']"
    "newStore env (if_Name ifi) (cfg_Storage (srv_cfg srv)) = Inr s"
    "any_leases c (fst (run_store r')) = any_leases c s" by blast
  moreover have "daemon_reach c strKey srv r'" by (rule daemon_reach.restart [OF r assms(3) o r'(1)])
  moreover have "any_leases c s = any_leases c (fst (run_store r))" if "\<not> ?mem"
    using left_file_leases [OF r'(2) o that] inv that by simp
  ultimately show "\<exists>r'. Run c ord env srv = Inr [r'] \<and> daemon_reach c strKey srv r' \<and>
      (\<not> ?mem \<longrightarrow> any_leases c (fst (run_store r')) = any_leases c (fst (run_store r)))" by metis
qed

section \<open>What it keeps\<close>

text \<open>C1: A daemon with one interface, whose subnets satisfy \<open>config_ok\<close>, that serves its requests and purges one
  after the other: in every state it reaches through requests that do not panic, purges and restarts, with a clock in
  the years a lease can be written with, and with memory or with a file whose transactions commit, the leases of two
  clients have no address in common, and the table of a subnet holds the addresses of the leases in it and no other.
  (C13 and C14 show that both can fail when requests and purges interleave; nothing is claimed after a transaction
  that fails.)\<close>

theorem daemon_leases_never_share:
  assumes "codec_ok c" "one_interface srv ifi" "daemon_reach c strKey srv r"
  shows "(\<forall>k k' l l' ip jp. any_leases c (fst (run_store r)) k = Some l \<longrightarrow> any_leases c (fst (run_store r)) k' = Some l' \<longrightarrow>
      k \<noteq> k' \<longrightarrow> ip \<in> set (Lease_IPs l) \<longrightarrow> jp \<in> set (Lease_IPs l') \<longrightarrow> ip \<noteq> jp \<and> ipnet_String ip \<noteq> ipnet_String jp) \<and>
    (\<forall>x\<in>set (if_Subnets ifi). any_view (fst (run_store r)) (ipnet_String (Subnet_Subnet x)) =
      Some (ipnet_String ` {ip. \<exists>k l. any_leases c (fst (run_store r)) k = Some l \<and> ip \<in> set (Lease_IPs l) \<and>
        contains (Subnet_Subnet x) (IP ip)}))"
proof (intro conjI allI ballI impI)
  note h = reach_handler(1) [OF assms(3,1,2)]
  fix k k' l l' ip jp
  assume "any_leases c (fst (run_store r)) k = Some l" "any_leases c (fst (run_store r)) k' = Some l'" "k \<noteq> k'"
    "ip \<in> set (Lease_IPs l)" "jp \<in> set (Lease_IPs l')"
  from handler_inv_no_share [OF h this] show "ip \<noteq> jp" "ipnet_String ip \<noteq> ipnet_String jp" by auto
next
  fix x assume x: "x \<in> set (if_Subnets ifi)"
  note h = reach_handler [OF assms(3,1,2)]
  have ok: "net_ok (Subnet_Subnet x)" using assms(2) x by (auto simp: one_interface_def config_ok_def subnet_ok_def)
  note same = NewPrefix_same [OF ok]
  have "NewPrefix (Subnet_Subnet x) \<in> nets (run_ipa r)" using x unfolding h(2) configured_def by blast
  then obtain b where b: "b \<in> allocators (run_ipa r)" "net_of b = NewPrefix (Subnet_Subnet x)" by (auto simp: nets_def)
  show "any_view (fst (run_store r)) (ipnet_String (Subnet_Subnet x)) =
      Some (ipnet_String ` {ip. \<exists>k l. any_leases c (fst (run_store r)) k = Some l \<and> ip \<in> set (Lease_IPs l) \<and>
        contains (Subnet_Subnet x) (IP ip)})"
    using handler_inv_tables [OF h(1) b(1)] unfolding b(2) by (simp add: same)
qed

text \<open>C15: What the daemon keeps is well formed, whatever the storage: a lease has addresses, all different, each a
  single address in 16-byte form inside a configured subnet; a table has the text of a network as its key and
  finitely many texts of addresses in it.\<close>

theorem daemon_data_wellformed:
  assumes "codec_ok c" "one_interface srv ifi" "daemon_reach c strKey srv r"
  shows "(\<forall>k l. any_leases c (fst (run_store r)) k = Some l \<longrightarrow> Lease_IPs l \<noteq> [] \<and> distinct (Lease_IPs l) \<and>
      (\<forall>ip\<in>set (Lease_IPs l). length (IP ip) = 16 \<and>
        Mask ip = (if is4 (IP ip) then CIDRMask 32 32 else CIDRMask 128 128) \<and>
        (\<exists>x\<in>set (if_Subnets ifi). contains (Subnet_Subnet x) (IP ip)))) \<and>
    (\<forall>t A. any_view (fst (run_store r)) t = Some A \<longrightarrow> finite A \<and> (\<exists>n. net_ok n \<and> t = ipnet_String n \<and>
      (\<forall>i\<in>A. \<exists>ip. net_ok ip \<and> i = ipnet_String ip \<and> contains n (IP ip))))"
proof (rule conjI; intro allI impI)
  let ?s = "fst (run_store r)"
  note h = reach_handler [OF assms(3,1,2)]
  have inv: "lease_inv (configured (if_Subnets ifi)) (any_view ?s) (any_leases c ?s)" and N: "nets_ok (configured (if_Subnets ifi))"
    using h multi_nets_ok [of "run_ipa r"] by (auto simp: handler_inv_def)
  fix k l assume l: "any_leases c ?s k = Some l"
  have "length (IP ip) = 16 \<and> Mask ip = (if is4 (IP ip) then CIDRMask 32 32 else CIDRMask 128 128) \<and>
      (\<exists>x\<in>set (if_Subnets ifi). contains (Subnet_Subnet x) (IP ip))" if ip: "ip \<in> set (Lease_IPs l)" for ip
  proof -
    obtain x where x: "x \<in> set (if_Subnets ifi)" "owned (NewPrefix (Subnet_Subnet x)) ip"
      using inv l ip unfolding lease_inv_def configured_def by blast
    then have p: "prefix_ok (NewPrefix (Subnet_Subnet x))" "family_ok (NewPrefix (Subnet_Subnet x))"
      using N by (auto simp: nets_ok_def configured_def)
    have "net_ok (Subnet_Subnet x)" using assms(2) x(1) by (auto simp: one_interface_def config_ok_def subnet_ok_def)
    then have "contains (Subnet_Subnet x) (IP ip)" using owned_ok(2) [OF p x(2)] NewPrefix_same(7) by simp
    moreover have "Mask ip = (if is4 (IP ip) then CIDRMask 32 32 else CIDRMask 128 128)"
      using arg_cong [OF owned_ok(4) [OF p x(2)], of Mask] unfolding ipnet.select_convs .
    ultimately show ?thesis using owned_16 [OF x(2)] x(1) by blast
  qed
  then show "Lease_IPs l \<noteq> [] \<and> distinct (Lease_IPs l) \<and> (\<forall>ip\<in>set (Lease_IPs l). length (IP ip) = 16 \<and>
      Mask ip = (if is4 (IP ip) then CIDRMask 32 32 else CIDRMask 128 128) \<and>
      (\<exists>x\<in>set (if_Subnets ifi). contains (Subnet_Subnet x) (IP ip)))"
    using inv l unfolding lease_inv_def by blast
next
  let ?s = "fst (run_store r)"
  fix t A assume A: "any_view ?s t = Some A"
  have "any_full c (subnet_keys (if_Subnets ifi)) (Storage_Memory (cfg_Storage (srv_cfg srv))) ?s"
    using reach_handler(1) [OF assms(3,1,2)] by (simp add: handler_inv_def)
  then obtain m where "mem_ok m" "subnets m = any_view ?s"
    by (auto simp: any_full_def any_ok_def any_view_def bolt_ready_def bolt_abs_def dest!: bolt_ok_mem split: sum.splits)
  then show "finite A \<and> (\<exists>n. net_ok n \<and> t = ipnet_String n \<and> (\<forall>i\<in>A. \<exists>ip. net_ok ip \<and> i = ipnet_String ip \<and> contains n (IP ip)))"
    using A unfolding mem_ok_def by metis
qed

section \<open>A run\<close>

definition demo_Interface :: Interface where
  "demo_Interface = \<lparr>if_Name = ''wg0'', if_LeaseDuration = 60 * Second, if_Subnets = small_subnets\<rparr>"

definition demo_Server :: "Storage \<Rightarrow> Server" where
  "demo_Server st = NewServer {''go_goroutines''} \<lparr>cfg_Storage = st, cfg_Interfaces = [demo_Interface],
     cfg_Debug = \<lparr>Debug_Address = '''', Debug_Prometheus = False, Debug_PProf = False\<rparr>\<rparr>"

definition in_memory :: Storage where
  "in_memory = \<lparr>Storage_Memory = True, Storage_File = ''''\<rparr>"

definition in_file :: Storage where
  "in_file = \<lparr>Storage_Memory = False, Storage_File = ''/var/lib/wgipamd''\<rparr>"

definition demo_environment :: "lease bolt_file \<Rightarrow> lease environment" where
  "demo_environment f = \<lparr>env_Listen = (\<lambda>_. None), env_debug_Listen = (\<lambda>_. None), env_file = (\<lambda>_. (None, Commits, f))\<rparr>"

definition key_orders :: orders3 where
  "key_orders = (sorted_list_of_set, sorted_list_of_set, sorted_list_of_set)"

lemma demo_daemon:
  "st = in_memory \<or> st = in_file \<Longrightarrow> one_interface (demo_Server st) demo_Interface"
  "opens (demo_environment f) f" "listens (demo_environment f) (demo_Server st) demo_Interface"
  by (auto simp: one_interface_def demo_Server_def NewServer_def demo_Interface_def small_config_ok in_memory_def
      in_file_def store_metrics_def server_metrics_def opens_def demo_environment_def listens_def runDebug_def)

lemma key_orders_ok: "orders3 key_orders"
  by (simp add: orders3_def key_orders_def orders_sorted)

text \<open>Where \<open>Run\<close> with memory leads.\<close>

lemma Run_memory:
  assumes "one_interface srv ifi" "listens env srv ifi" "cfg_Storage (srv_cfg srv) = in_memory" "orders3 ord"
    "DualStackIPAllocator mem_ips (if_Subnets ifi) MemoryStore = (Inr a, m)"
  shows "Run c ord env srv = Inr [\<lparr>run_Interface = ifi, run_ipa = a,
    run_store = (Inl m, set_sizes (if_Subnets ifi) no_gauges),
    run_metrics = \<lparr>RequestsTotal = (\<lambda>_. 0), ErrorsTotal = (\<lambda>_. 0)\<rparr>\<rparr>]"
proof (cases ord)
  case (fields lk bk sk)
  let ?S = "daemon_store c ord"
  have S: "?S = daemon_Store c lk bk sk" by (simp add: daemon_store_def fields)
  have i: "cfg_Interfaces (srv_cfg srv) = [ifi]" "(set store_metrics \<union> set server_metrics) \<inter> srv_reg srv = {}"
    using assms(1) by (auto simp: one_interface_def)
  have "sk {} = []" using assms(4) fields by (simp add: orders3_def)
  then have "st_Subnets ?S (Inl MemoryStore) = (Inr [], Inl MemoryStore)"
    by (simp add: S daemon_Store_def sum_Store_def memory_Store_def memoryStore_Subnets_def MemoryStore_def)
  then have g: "init_gauges ?S (if_Subnets ifi) (Inl MemoryStore) = (Inr (set_sizes (if_Subnets ifi) no_gauges), Inl MemoryStore)"
    by (simp add: init_gauges_def)
  have d: "DualStackIPAllocator (metrics_ips ?S) (if_Subnets ifi) (Inl MemoryStore, h) = (Inr a, (Inl m, h))" for h
    using assms(5) unfolding DualStack_daemon(1) [OF S] by simp
  note m = register_metrics [OF i(2)]
  show ?thesis
    using i(1) assms(2,3) g d m
    by (simp add: Run_def newStore_def in_memory_def listens_def runServer_def IPStoreMetrics_def NewHandlerMetrics_def Let_def)
qed

text \<open>Two clients are served.\<close>

text \<open>A request only needs the operations on addresses and leases.\<close>

definition request_store :: "'v lease_codec \<Rightarrow> (memoryStore + 'v boltStore) Store" where
  "request_store c =
     \<lparr>st_ips = sum_ips mem_ips (bolt_ips Commits), st_leases = sum_leases mem_leases (bolt_leases c Commits),
      st_Leases = Pair (Inr []), st_Purge = (\<lambda>_. Pair (Inr \<lparr>FreedIPs = Map.empty\<rparr>)), st_Subnets = Pair (Inr []),
      st_AllocatedIPs = (\<lambda>_. Pair (Inr []))\<rparr>"

lemma request_ops:
  "metrics_ips (daemon_store c ord) = metrics_ips (request_store c)"
  "metrics_leases (daemon_store c ord) = metrics_leases (request_store c)"
  by (cases ord; simp add: metrics_ips_def metrics_leases_def request_store_def daemon_store_def daemon_Store_def
      sum_Store_def memory_Store_def bolt_Store_def metricsIPStore_AllocateIP_def [abs_def] metricsIPStore_FreeIP_def [abs_def])+

definition daemon_serve :: "'v lease_codec \<Rightarrow> time \<Rightarrow> string \<Rightarrow> 'v running \<Rightarrow> 'v running option" where
  "daemon_serve c now src r =
     (case Handler_RequestIP (multi_handler (metrics_leases (request_store c)) (metrics_ips (request_store c))
          (if_LeaseDuration (run_Interface r))) demo_key now now src any_request (Some (run_metrics r)) (run_ipa r) (run_store r) of
        Some (Inr res, Some m, ipa, x) \<Rightarrow> Some (r\<lparr>run_ipa := ipa, run_store := x, run_metrics := m\<rparr>)
      | _ \<Rightarrow> None)"

lemma daemon_serve_step:
  assumes "daemon_serve c now src r = Some r'" "clock_range now"
  shows "run_step c demo_key r r'"
proof -
  obtain res where "run_request c key_orders demo_key now now src any_request r = Some (Inr res, r')"
    using assms(1) by (auto simp: daemon_serve_def run_request_def request_ops split: option.splits sum.splits prod.splits)
  from run_step.request [OF key_orders_ok assms(2) this] show ?thesis by simp
qed

lemma daemon_demo_eval:
  "case boot small_subnets of
     None \<Rightarrow> False
   | Some (a, m) \<Rightarrow>
       (case daemon_serve plain_codec 5 ''fe80::a'' \<lparr>run_Interface = demo_Interface, run_ipa = a, run_store = (Inl m, set_sizes small_subnets no_gauges),
          run_metrics = \<lparr>RequestsTotal = (\<lambda>_. 0), ErrorsTotal = (\<lambda>_. 0)\<rparr>\<rparr> of
          None \<Rightarrow> False
        | Some r1 \<Rightarrow>
            (case daemon_serve plain_codec 6 ''fe80::b'' r1 of
               None \<Rightarrow> False
             | Some r2 \<Rightarrow> any_leases plain_codec (fst (run_store r2)) 1 = Some (small_lease 1) \<and>
                 any_leases plain_codec (fst (run_store r2)) 2 = Some (small_lease 2)))"
  by code_simp

lemma daemon_demo_run:
  "\<exists>r. daemon_reach plain_codec demo_key (demo_Server in_memory) r \<and>
    any_leases plain_codec (fst (run_store r)) 1 = Some (small_lease 1) \<and>
    any_leases plain_codec (fst (run_store r)) 2 = Some (small_lease 2)"
proof -
  let ?c = plain_codec and ?srv = "demo_Server in_memory" and ?env = "demo_environment new_file"
  let ?r0 = "\<lambda>a m. \<lparr>run_Interface = demo_Interface, run_ipa = a, run_store = (Inl m, set_sizes small_subnets no_gauges),
      run_metrics = \<lparr>RequestsTotal = (\<lambda>_. 0), ErrorsTotal = (\<lambda>_. 0)\<rparr>\<rparr> :: lease running"
  obtain a m r1 r2 where b: "boot small_subnets = Some (a, m)"
    and r: "daemon_serve ?c 5 ''fe80::a'' (?r0 a m) = Some r1" "daemon_serve ?c 6 ''fe80::b'' r1 = Some r2"
    and l: "any_leases ?c (fst (run_store r2)) 1 = Some (small_lease 1)" "any_leases ?c (fst (run_store r2)) 2 = Some (small_lease 2)"
    using daemon_demo_eval by (auto split: option.splits prod.splits)
  have clk: "clock_range 5" "clock_range 6" by (simp_all add: clock_range_def Second_def)
  have one: "one_interface ?srv demo_Interface" by (rule demo_daemon(1)) simp
  have "DualStackIPAllocator mem_ips (if_Subnets demo_Interface) MemoryStore = (Inr a, m)"
    using b by (auto simp: boot_def demo_Interface_def split: sum.splits prod.splits)
  from Run_memory [OF one demo_daemon(3) [where f = new_file] _ key_orders_ok this, where c = ?c]
  have "Run ?c key_orders ?env ?srv = Inr [?r0 a m]" by (simp add: demo_Server_def NewServer_def demo_Interface_def)
  from daemon_reach.start [OF key_orders_ok demo_daemon(2) this, of demo_key]
  have "daemon_reach ?c demo_key ?srv r2"
    using daemon_reach.step daemon_serve_step [OF r(1) clk(1)] daemon_serve_step [OF r(2) clk(2)] by metis
  then show ?thesis using l by blast
qed

theorem daemon_leases_never_share_witness:
  "\<exists>r. daemon_reach plain_codec demo_key (demo_Server in_memory) r \<and>
    any_leases plain_codec (fst (run_store r)) 1 = Some (small_lease 1) \<and>
    any_leases plain_codec (fst (run_store r)) 2 = Some (small_lease 2) \<and>
    ipnet_String (Lease_IPs (small_lease 1) ! 0) \<noteq> ipnet_String (Lease_IPs (small_lease 2) ! 0)"
proof -
  obtain r where r: "daemon_reach plain_codec demo_key (demo_Server in_memory) r"
    "any_leases plain_codec (fst (run_store r)) 1 = Some (small_lease 1)"
    "any_leases plain_codec (fst (run_store r)) 2 = Some (small_lease 2)"
    using daemon_demo_run by blast
  have one: "one_interface (demo_Server in_memory) demo_Interface" by (rule demo_daemon(1)) simp
  have m: "Lease_IPs (small_lease 1) ! 0 \<in> set (Lease_IPs (small_lease 1))" "Lease_IPs (small_lease 2) ! 0 \<in> set (Lease_IPs (small_lease 2))"
    by (simp_all add: small_lease_def)
  have ne: "(1 :: u64) \<noteq> 2" by simp
  show ?thesis using daemon_leases_never_share [OF plain_codec_ok one r(1)] r m ne by blast
qed

theorem daemon_data_wellformed_witness:
  "\<exists>r. daemon_reach plain_codec demo_key (demo_Server in_memory) r \<and>
    any_leases plain_codec (fst (run_store r)) 1 = Some (small_lease 1) \<and>
    (\<forall>ip\<in>set (Lease_IPs (small_lease 1)). \<exists>x\<in>set small_subnets. contains (Subnet_Subnet x) (IP ip))"
proof -
  obtain r where r: "daemon_reach plain_codec demo_key (demo_Server in_memory) r"
    "any_leases plain_codec (fst (run_store r)) 1 = Some (small_lease 1)"
    using daemon_demo_run by blast
  have one: "one_interface (demo_Server in_memory) demo_Interface" by (rule demo_daemon(1)) simp
  have s: "if_Subnets demo_Interface = small_subnets" by (simp add: demo_Interface_def)
  show ?thesis using daemon_data_wellformed [OF plain_codec_ok one r(1)] r unfolding s by blast
qed

text \<open>With a file: a start on a new one, and another on what it left.\<close>

theorem daemon_starts_witness:
  "\<exists>r r'. Run plain_codec key_orders (demo_environment new_file) (demo_Server in_file) = Inr [r] \<and>
    Run plain_codec key_orders (demo_environment (left_file r)) (demo_Server in_file) = Inr [r']"
proof -
  have one: "one_interface (demo_Server in_file) demo_Interface" by (rule demo_daemon(1)) simp
  note D = daemon_starts [OF plain_codec_ok one key_orders_ok demo_daemon(3)]
  obtain r where r: "Run plain_codec key_orders (demo_environment new_file) (demo_Server in_file) = Inr [r]"
    using D demo_daemon(2) by blast
  have "daemon_reach plain_codec demo_key (demo_Server in_file) r"
    by (rule daemon_reach.start [OF key_orders_ok demo_daemon(2) r])
  then show ?thesis using r D demo_daemon(2) by blast
qed

text \<open>Two interfaces.\<close>

definition two_Server :: Server where
  "two_Server = NewServer {''go_goroutines''} \<lparr>cfg_Storage = in_memory,
     cfg_Interfaces = [demo_Interface, demo_Interface\<lparr>if_Name := ''wg1''\<rparr>],
     cfg_Debug = \<lparr>Debug_Address = '''', Debug_Prometheus = False, Debug_PProf = False\<rparr>\<rparr>"

theorem Run_second_interface_fails_witness:
  "Run plain_codec key_orders (demo_environment new_file) two_Server =
    Inl (ServerPanic (AlreadyRegistered ''wgipamd_store_ips_allocated''))"
proof -
  let ?env = "demo_environment new_file" and ?srv = two_Server and ?m = "Inl MemoryStore :: memoryStore + lease boltStore"
  let ?i2 = "demo_Interface\<lparr>if_Name := ''wg1''\<rparr>"
  have i: "cfg_Interfaces (srv_cfg ?srv) = [demo_Interface, ?i2]" "srv_TestListener ?srv = None"
    by (simp_all add: two_Server_def NewServer_def)
  have s: "newStore ?env n (cfg_Storage (srv_cfg ?srv)) = Inr ?m" for n
    by (simp add: two_Server_def NewServer_def in_memory_def newStore_def)
  have l: "env_Listen ?env n = None" for n by (simp add: demo_environment_def)
  have c: "config_ok (if_Subnets demo_Interface)" by (simp add: demo_Interface_def small_config_ok)
  have o: "opened plain_codec (if_Subnets demo_Interface) True ?m" by (simp add: opened_def)
  have free: "(set store_metrics \<union> set server_metrics) \<inter> srv_reg ?srv = {}"
    by (simp add: two_Server_def NewServer_def store_metrics_def server_metrics_def)
  obtain r reg where r: "runServer plain_codec key_orders None demo_Interface ?m (srv_reg ?srv) = (Inr r, reg)"
    using runServer_ok [OF plain_codec_ok c key_orders_ok o free] by blast
  have "runServer plain_codec key_orders (env_Listen ?env (if_Name demo_Interface)) demo_Interface ?m (srv_reg ?srv) = (Inr r, reg)"
    unfolding l by (rule r)
  then show ?thesis
    using Run_second_interface_fails [OF i, of plain_codec key_orders ?env] s [of "if_Name demo_Interface"]
      s [of "if_Name ?i2"] l [of "if_Name ?i2"] by blast
qed

end
