(* ===== verification/Store_Tests.thy ===== *)
theory Store_Tests
  imports Store_Contract
begin

text \<open>
  The conformance tests of package wgipamtest (wgipamtest/store.go): every test as a function that runs on
  any \<open>Store\<close>, and the theorems that both stores pass them all, in whatever order they go through their
  maps.  A test that ends in \<open>t.Fatal\<close> carries its message; the format arguments are left out.
\<close>

section \<open>Running a test\<close>

datatype test_failure = Fatal string | TestPanic gopanic | Hangs

type_synonym ('s, 'a) test = "'s \<Rightarrow> (test_failure + 'a) \<times> 's"

definition test_return :: "'a \<Rightarrow> ('s, 'a) test" where
  "test_return x s = (Inr x, s)"

definition test_bind :: "('s, 'a) test \<Rightarrow> ('a \<Rightarrow> ('s, 'b) test) \<Rightarrow> ('s, 'b) test" where
  "test_bind t f s = (case t s of (Inl e, s') \<Rightarrow> (Inl e, s') | (Inr x, s') \<Rightarrow> f x s')"

text \<open>A call that must not return an error, a call that must, and a condition.\<close>

definition no_error :: "string \<Rightarrow> ('s \<Rightarrow> (goerr + 'a) \<times> 's) \<Rightarrow> ('s, 'a) test" where
  "no_error msg f s = (case f s of (Inl e, s') \<Rightarrow> (Inl (Fatal msg), s') | (Inr x, s') \<Rightarrow> (Inr x, s'))"

definition no_fault :: "string \<Rightarrow> ('s \<Rightarrow> (fault + 'a) \<times> 's) \<Rightarrow> ('s, 'a) test" where
  "no_fault msg f s =
     (case f s of
        (Inl (Err e), s') \<Rightarrow> (Inl (Fatal msg), s')
      | (Inl (Panic p), s') \<Rightarrow> (Inl (TestPanic p), s')
      | (Inr x, s') \<Rightarrow> (Inr x, s'))"

definition wants_error :: "string \<Rightarrow> ('s \<Rightarrow> (goerr + 'a) \<times> 's) \<Rightarrow> ('s, unit) test" where
  "wants_error msg f s = (case f s of (Inl e, s') \<Rightarrow> (Inr (), s') | (Inr x, s') \<Rightarrow> (Inl (Fatal msg), s'))"

definition expect :: "string \<Rightarrow> bool \<Rightarrow> ('s, unit) test" where
  "expect msg b s = (if b then (Inr (), s) else (Inl (Fatal msg), s))"

text \<open>A loop, over a state \<open>x\<close> of the test's own variables.\<close>

fun test_loop :: "('i \<Rightarrow> 'a \<Rightarrow> ('s, 'a) test) \<Rightarrow> 'i list \<Rightarrow> 'a \<Rightarrow> ('s, 'a) test" where
  "test_loop f [] x = test_return x"
| "test_loop f (i # is) x = test_bind (f i x) (test_loop f is)"

definition test_repeat :: "nat \<Rightarrow> (nat \<Rightarrow> ('s, unit) test) \<Rightarrow> ('s, unit) test" where
  "test_repeat n f = test_loop (\<lambda>i _. f i) [0..<n] ()"

section \<open>Fixtures\<close>

definition mustCIDR :: "string \<Rightarrow> fault + ipnet" where
  "mustCIDR s =
     (case ParseCIDR s of
        Inl e \<Rightarrow> Inl (Panic (Panicf ''failed to parse CIDR''))
      | Inr (_, ipn) \<Rightarrow> Inr ipn)"

text \<open>A package variable made by \<open>mustCIDR\<close>; were it to panic, the package would not start.\<close>

definition fixture :: "string \<Rightarrow> ipnet" where
  "fixture s = (case mustCIDR s of Inr n \<Rightarrow> n | Inl _ \<Rightarrow> \<lparr>IP = [], Mask = []\<rparr>)"

definition okLease :: lease where
  "okLease = \<lparr>Lease_IPs = [fixture ''192.0.2.0/32'', fixture ''2001:db8::/128''],
     Lease_Start = 1 * Second, Lease_Length = 10 * Second\<rparr>"

definition okSubnet4 :: ipnet where "okSubnet4 = fixture ''192.0.2.0/24''"
definition okIP4 :: ipnet where "okIP4 = fixture ''192.0.2.1/32''"
definition okSubnet6 :: ipnet where "okSubnet6 = fixture ''2001:db8::/64''"
definition okIP6 :: ipnet where "okIP6 = fixture ''2001:db8::1/128''"

section \<open>The tests\<close>

definition testLeasesEmpty :: "'s Store \<Rightarrow> ('s, unit) test" where
  "testLeasesEmpty S =
     test_bind (no_error ''failed to get leases'' (st_Leases S)) (\<lambda>leases.
     expect ''unexpected number of leases'' (length leases = 0))"

definition testLeasesOK :: "'s Store \<Rightarrow> ('s, unit) test" where
  "testLeasesOK S =
     test_bind (test_repeat 3 (\<lambda>i.
       no_error ''failed to save lease'' (ls_SaveLease (st_leases S) (of_nat i) okLease))) (\<lambda>_.
     test_bind (no_error ''failed to get leases'' (st_Leases S)) (\<lambda>got.
       let want = sort_key Lease_Start [okLease, okLease, okLease]; got = sort_key Lease_Start got
       in expect ''unexpected Leases'' (list_all2 cmp_Lease want got)))"

definition testLeaseNotExist :: "'s Store \<Rightarrow> ('s, unit) test" where
  "testLeaseNotExist S =
     test_bind (no_error ''failed to get lease'' (ls_Lease (st_leases S) 1)) (\<lambda>l.
     expect ''found a lease when none was expected'' (l = None))"

definition testSaveLeaseOK :: "'s Store \<Rightarrow> ('s, unit) test" where
  "testSaveLeaseOK S =
     test_bind (no_error ''failed to save lease'' (ls_SaveLease (st_leases S) 1 okLease)) (\<lambda>_.
     test_bind (no_error ''failed to get lease'' (ls_Lease (st_leases S) 1)) (\<lambda>l.
     case l of
       None \<Rightarrow> expect ''expected a lease but one was not found'' False
     | Some l \<Rightarrow> expect ''unexpected Lease'' (cmp_Lease okLease l)))"

definition testDeleteLeaseOK :: "'s Store \<Rightarrow> ('s, unit) test" where
  "testDeleteLeaseOK S =
     test_bind (no_error ''failed to save lease'' (ls_SaveLease (st_leases S) 1 okLease)) (\<lambda>_.
     test_bind (test_repeat 3 (\<lambda>i.
       no_error ''failed to delete lease'' (ls_DeleteLease (st_leases S) 1))) (\<lambda>_.
     test_bind (no_error ''failed to get lease'' (ls_Lease (st_leases S) 1)) (\<lambda>l.
     expect ''expected no lease but one was found'' (l = None))))"

text \<open>\<open>testPurgeOK\<close>: one round of the loop that allocates and saves, one of the loop that purges, and the
  checks at the end.\<close>

definition purge_save :: "'s Store \<Rightarrow> nat \<Rightarrow> multiIPAllocator \<times> lease option \<Rightarrow> ('s, multiIPAllocator \<times> lease option) test" where
  "purge_save S i x =
     test_bind (\<lambda>s. case multi_Allocate (st_ips S) DualStack (fst x) s of
                      None \<Rightarrow> (Inl Hangs, s)
                    | Some (r, ipa, s') \<Rightarrow> no_fault ''failed to allocate IPs'' (\<lambda>s. (map_sum id (\<lambda>ips. (ips, ipa)) r, s)) s')
     (\<lambda>(ips, ipa).
     case ips of
       None \<Rightarrow> test_bind (expect ''ran out of IP addresses'' False) (\<lambda>_. test_return x)
     | Some ips \<Rightarrow>
         let l = \<lparr>Lease_IPs = ips, Lease_Start = (int i + 1) * 100 * Second, Lease_Length = 10 * Second\<rparr>
         in test_bind (no_error ''failed to save lease'' (ls_SaveLease (st_leases S) (of_nat i) l)) (\<lambda>_.
            test_return (ipa, if i = 2 then Some l else snd x)))"

definition purge_round :: "'s Store \<Rightarrow> nat \<Rightarrow> ('s, unit) test" where
  "purge_round S i =
     test_bind (no_fault ''failed to purge leases'' (st_Purge S ((2 * 100 + 10) * Second))) (\<lambda>stats.
     let wantFreed = (if i = 0 then 2 else 0)
     in expect ''unexpected number of freed IPs'' (\<forall>v\<in>ran (FreedIPs stats). v = wantFreed))"

definition purge_checks :: "'s Store \<Rightarrow> lease \<Rightarrow> ('s, unit) test" where
  "purge_checks S want =
     test_bind (no_error ''failed to get lease'' (st_Leases S)) (\<lambda>got.
     test_bind (expect ''unexpected Leases'' (list_all2 cmp_Lease [want] got)) (\<lambda>_.
     test_bind (no_error ''failed to get allocated IPv4s'' (st_AllocatedIPs S okSubnet4)) (\<lambda>ip4s.
     test_bind (expect ''unexpected remaining IPv4 allocation'' (list_all2 cmp_IPNet [Lease_IPs want ! 0] ip4s)) (\<lambda>_.
     test_bind (no_error ''failed to get allocated IPv6s'' (st_AllocatedIPs S okSubnet6)) (\<lambda>ip6s.
     expect ''unexpected remaining IPv6 allocation'' (list_all2 cmp_IPNet [Lease_IPs want ! 1] ip6s))))))"

definition testPurgeOK :: "'s Store \<Rightarrow> ('s, unit) test" where
  "testPurgeOK S =
     test_bind (no_error ''failed to save subnet'' (ip_SaveSubnet (st_ips S) okSubnet4)) (\<lambda>_.
     test_bind (no_fault ''failed to create IP allocator'' (DualStackIPAllocator (st_ips S)
       [\<lparr>Subnet_Subnet = okSubnet4, Subnet_Start = None, Subnet_End = None, Subnet_Reserved = []\<rparr>,
        \<lparr>Subnet_Subnet = okSubnet6, Subnet_Start = None, Subnet_End = None, Subnet_Reserved = []\<rparr>])) (\<lambda>ipa.
     test_bind (test_loop (purge_save S) [0..<3] (ipa, None)) (\<lambda>x.
     test_bind (test_repeat 3 (purge_round S)) (\<lambda>_.
     case snd x of None \<Rightarrow> expect ''unexpected Leases'' False | Some want \<Rightarrow> purge_checks S want))))"

definition testSubnetsEmpty :: "'s Store \<Rightarrow> ('s, unit) test" where
  "testSubnetsEmpty S =
     test_bind (no_error ''failed to get subnets'' (st_Subnets S)) (\<lambda>subs.
     expect ''unexpected number of subnets'' (length subs = 0))"

definition testSubnetsOK :: "'s Store \<Rightarrow> ('s, unit) test" where
  "testSubnetsOK S =
     (let want = [okSubnet4, okSubnet6]
      in test_bind (test_loop (\<lambda>sub _. no_error ''failed to save subnet'' (ip_SaveSubnet (st_ips S) sub)) want ()) (\<lambda>_.
         test_bind (no_error ''failed to get subnets'' (st_Subnets S)) (\<lambda>got.
         expect ''unexpected Subnets'' (list_all2 cmp_IPNet (sort_key ipnet_String want) (sort_key ipnet_String got)))))"

definition testAllocatedIPsNoSubnet :: "'s Store \<Rightarrow> ('s, unit) test" where
  "testAllocatedIPsNoSubnet S =
     wants_error ''expected no such subnet error, but none occurred'' (st_AllocatedIPs S okSubnet4)"

definition testAllocateIPMismatchedSubnet :: "'s Store \<Rightarrow> ('s, unit) test" where
  "testAllocateIPMismatchedSubnet S =
     wants_error ''expected mismatched subnet error, but none occurred'' (ip_AllocateIP (st_ips S) okSubnet4 okIP6)"

definition testAllocateIPNoSubnet :: "'s Store \<Rightarrow> ('s, unit) test" where
  "testAllocateIPNoSubnet S =
     wants_error ''expected no such subnet error, but none occurred'' (ip_AllocateIP (st_ips S) okSubnet4 okIP4)"

definition testAllocateIPAlreadyAllocated :: "'s Store \<Rightarrow> ('s, unit) test" where
  "testAllocateIPAlreadyAllocated S =
     test_bind (no_error ''failed to save subnet'' (ip_SaveSubnet (st_ips S) okSubnet4)) (\<lambda>_.
     test_bind (no_error ''failed to allocate IP'' (ip_AllocateIP (st_ips S) okSubnet4 okIP4)) (\<lambda>ok.
     test_bind (expect ''failed to allocate IP'' ok) (\<lambda>_.
     test_bind (no_error ''expected IP already allocated'' (ip_AllocateIP (st_ips S) okSubnet4 okIP4)) (\<lambda>ok.
     expect ''expected IP already allocated'' (\<not> ok)))))"

definition testFreeIPMismatchedSubnet :: "'s Store \<Rightarrow> ('s, unit) test" where
  "testFreeIPMismatchedSubnet S =
     wants_error ''expected mismatched subnet error, but none occurred'' (ip_FreeIP (st_ips S) okSubnet4 okIP6)"

definition testFreeIPNoSubnet :: "'s Store \<Rightarrow> ('s, unit) test" where
  "testFreeIPNoSubnet S =
     wants_error ''expected no such subnet error, but none occurred'' (ip_FreeIP (st_ips S) okSubnet4 okIP4)"

definition testFreeIPOK :: "'s Store \<Rightarrow> ('s, unit) test" where
  "testFreeIPOK S =
     test_loop (\<lambda>(sub, ip) _.
       test_bind (no_error ''failed to save subnet'' (ip_SaveSubnet (st_ips S) sub)) (\<lambda>_.
       test_bind (no_error ''failed to allocate IP'' (ip_AllocateIP (st_ips S) sub ip)) (\<lambda>ok.
       test_bind (expect ''failed to allocate IP'' ok) (\<lambda>_.
       test_repeat 3 (\<lambda>i. no_error ''failed to free IP'' (ip_FreeIP (st_ips S) sub ip))))))
     [(okSubnet4, okIP4), (okSubnet6, okIP6)] ()"

text \<open>\<open>TestStore\<close>: the tests by name, each run on a new store.\<close>

definition TestStore :: "'s Store \<Rightarrow> (string \<times> ('s, unit) test) list" where
  "TestStore S =
     [(''leases empty'', testLeasesEmpty S), (''leases OK'', testLeasesOK S),
      (''lease not exist'', testLeaseNotExist S), (''save lease OK'', testSaveLeaseOK S),
      (''delete lease OK'', testDeleteLeaseOK S), (''purge OK'', testPurgeOK S),
      (''subnets empty'', testSubnetsEmpty S), (''subnets OK'', testSubnetsOK S),
      (''allocated IPs no subnet'', testAllocatedIPsNoSubnet S),
      (''allocate IP mismatched subnet'', testAllocateIPMismatchedSubnet S),
      (''allocate IP no subnet'', testAllocateIPNoSubnet S),
      (''allocate IP already allocated'', testAllocateIPAlreadyAllocated S),
      (''free IP mismatched subnet'', testFreeIPMismatchedSubnet S),
      (''free IP no subnet'', testFreeIPNoSubnet S), (''free IP OK'', testFreeIPOK S)]"

definition run_tests :: "'s Store \<Rightarrow> 's \<Rightarrow> (string \<times> (test_failure + unit)) list" where
  "run_tests S new = map (\<lambda>(name, t). (name, fst (t new))) (TestStore S)"

section \<open>What passes\<close>

text \<open>\<open>passes t s Q\<close>: the test \<open>t\<close> goes through from \<open>s\<close>, and its value and the state it leaves satisfy \<open>Q\<close>.\<close>

definition passes :: "('s, 'a) test \<Rightarrow> 's \<Rightarrow> ('a \<Rightarrow> 's \<Rightarrow> bool) \<Rightarrow> bool" where
  "passes t s Q \<longleftrightarrow> (\<exists>x s'. t s = (Inr x, s') \<and> Q x s')"

lemma passes_bind: "passes t s (\<lambda>x s'. passes (f x) s' Q) \<Longrightarrow> passes (test_bind t f) s Q"
  by (auto simp: passes_def test_bind_def)

lemma passes_return: "Q x s \<Longrightarrow> passes (test_return x) s Q"
  by (simp add: passes_def test_return_def)

lemma passes_expect: "b \<Longrightarrow> Q () s \<Longrightarrow> passes (expect msg b) s Q"
  by (simp add: passes_def expect_def)

lemma passes_no_error: "f s = (Inr x, s') \<Longrightarrow> Q x s' \<Longrightarrow> passes (no_error msg f) s Q"
  by (simp add: passes_def no_error_def)

lemma passes_no_fault: "f s = (Inr x, s') \<Longrightarrow> Q x s' \<Longrightarrow> passes (no_fault msg f) s Q"
  by (simp add: passes_def no_fault_def)

lemma passes_wants_error: "f s = (Inl e, s') \<Longrightarrow> Q () s' \<Longrightarrow> passes (wants_error msg f) s Q"
  by (simp add: passes_def wants_error_def)

lemma passes_mono: "passes t s Q \<Longrightarrow> (\<And>x s'. Q x s' \<Longrightarrow> R x s') \<Longrightarrow> passes t s R"
  by (auto simp: passes_def)

text \<open>A loop, with an invariant for each number of rounds done.\<close>

lemma passes_loop:
  assumes "\<And>i x s. i < length is \<Longrightarrow> I i x s \<Longrightarrow> passes (f (is ! i) x) s (I (Suc i))" "I 0 x s"
  shows "passes (test_loop f is x) s (I (length is))"
  using assms
proof (induction "is" arbitrary: I x s)
  case Nil
  then show ?case by (simp add: passes_return)
next
  case (Cons j js)
  have "passes (f j x) s (I (Suc 0))" using Cons.prems(1) [of 0] Cons.prems(2) by simp
  moreover have "passes (test_loop f js y) s' (I (length (j # js)))" if "I (Suc 0) y s'" for y s'
    using Cons.IH [of "\<lambda>i. I (Suc i)"] Cons.prems(1) [of "Suc i" for i] that by simp
  ultimately show ?case by (simp, intro passes_bind) (blast intro: passes_mono)
qed

lemma passes_repeat:
  assumes "\<And>i s. i < n \<Longrightarrow> I i s \<Longrightarrow> passes (f i) s (\<lambda>_. I (Suc i))" "I 0 s" "\<And>s. I n s \<Longrightarrow> Q () s"
  shows "passes (test_repeat n f) s Q"
proof -
  have "passes (test_loop (\<lambda>i _. f i) [0..<n] ()) s (\<lambda>_. I (length [0..<n]))"
    by (rule passes_loop) (use assms(1,2) in simp_all)
  then show ?thesis using assms(3) by (auto simp: test_repeat_def intro: passes_mono)
qed

section \<open>Facts of the fixtures\<close>

lemma fixture_networks:
  "mustCIDR ''192.0.2.0/24'' = Inr okSubnet4" "mustCIDR ''2001:db8::/64'' = Inr okSubnet6"
  "mustCIDR ''192.0.2.1/32'' = Inr okIP4" "mustCIDR ''2001:db8::1/128'' = Inr okIP6"
  by code_simp+

lemma fixture_ok:
  "net_ok okSubnet4" "net_ok okSubnet6" "net_ok okIP4" "net_ok okIP6" "base_net okSubnet4" "base_net okSubnet6"
  by code_simp+

lemma fixture_texts:
  "ipnet_String okSubnet4 = ''192.0.2.0/24''" "ipnet_String okSubnet6 = ''2001:db8::/64''"
  "ipnet_String okIP4 = ''192.0.2.1/32''" "ipnet_String okIP6 = ''2001:db8::1/128''"
  by code_simp+

lemma fixture_contains:
  "contains okSubnet4 (IP okIP4)" "contains okSubnet6 (IP okIP6)" "\<not> contains okSubnet4 (IP okIP6)"
  by code_simp+

lemma okLease_valid: "lease_valid okLease"
  by code_simp

section \<open>Stores with the contract pass\<close>

lemma one_key: "range_order ks m \<Longrightarrow> dom m = {k} \<Longrightarrow> ks = [k]"
  by (simp add: range_order_def distinct_singleton)

lemma no_key: "range_order ks Map.empty \<longleftrightarrow> ks = []"
  by (auto simp: range_order_def)

lemma map_filter_Some: "(\<And>k. k \<in> set ks \<Longrightarrow> f k = Some (g k)) \<Longrightarrow> List.map_filter f ks = map g ks"
  by (induction ks) (auto simp: List.map_filter_simps)

context store_contract
begin

text \<open>A store as \<open>MakeStore\<close> makes it.\<close>

definition empty_store :: "'s \<Rightarrow> bool" where
  "empty_store s \<longleftrightarrow> inv s \<and> leases_of s = Map.empty \<and> view s = Map.empty"

lemma Lease_passes: "inv s \<Longrightarrow> Q (leases_of s k) s \<Longrightarrow> passes (no_error msg (ls_Lease (st_leases S) k)) s Q"
  using leases.Lease_eq by (rule passes_no_error)

lemma SaveLease_passes:
  assumes "inv s" "lease_valid l"
    "\<And>s' l'. cmp_Lease l l' \<Longrightarrow> inv s' \<Longrightarrow> leases_of s' = (leases_of s)(k := Some l') \<Longrightarrow> view s' = view s \<Longrightarrow> Q () s'"
  shows "passes (no_error msg (ls_SaveLease (st_leases S) k l)) s Q"
  using SaveLease_valid [OF assms(1,2), of k] assms(3) by (auto intro: passes_no_error)

lemma DeleteLease_passes:
  assumes "inv s" "\<And>s'. inv s' \<Longrightarrow> leases_of s' = (leases_of s)(k := None) \<Longrightarrow> view s' = view s \<Longrightarrow> Q () s'"
  shows "passes (no_error msg (ls_DeleteLease (st_leases S) k)) s Q"
  using leases.DeleteLease_eq [OF assms(1), of k] assms(2) by (auto intro: passes_no_error)

lemma Leases_passes:
  assumes "inv s" "\<And>ks. range_order ks (leases_of s) \<Longrightarrow> Q (List.map_filter (leases_of s) ks) s"
  shows "passes (no_error msg (st_Leases S)) s Q"
  using Leases_eq [OF assms(1)] assms(2) by (auto intro: passes_no_error)

lemma SaveSubnet_passes:
  assumes "inv s" "net_ok sub" "view s (ipnet_String sub) = None \<or> view s (ipnet_String sub) = Some {}"
    "\<And>s'. inv s' \<Longrightarrow> leases_of s' = leases_of s \<Longrightarrow> view s' = (view s)(ipnet_String sub := Some {}) \<Longrightarrow> Q () s'"
  shows "passes (no_error msg (ip_SaveSubnet (st_ips S) sub)) s Q"
proof -
  obtain s' where s': "ip_SaveSubnet (st_ips S) sub s = (Inr (), s')"
    using ips.SaveSubnet_reliable [OF assms(1)] by blast
  have "view s' = (view s)(ipnet_String sub := Some {})"
    using ips.SaveSubnet_done [OF assms(1) s'] SaveSubnet_new [OF assms(1,3)] s' by (auto simp: fun_eq_iff)
  then show ?thesis
    using s' ips.SaveSubnet_inv [OF assms(1,2)] ips.SaveSubnet_other [of sub s] assms(4) [of s'] by (auto intro: passes_no_error)
qed

lemma AllocateIP_passes:
  assumes "inv s" "net_ok sub" "net_ok ip" "contains sub (IP ip)" "view s (ipnet_String sub) = Some A"
    "\<And>s'. inv s' \<Longrightarrow> leases_of s' = leases_of s \<Longrightarrow>
      view s' = (view s)(ipnet_String sub := Some (insert (ipnet_String ip) A)) \<Longrightarrow> Q (ipnet_String ip \<notin> A) s'"
  shows "passes (no_error msg (ip_AllocateIP (st_ips S) sub ip)) s Q"
proof -
  have k: "view s (ipnet_String sub) \<noteq> None" using assms(5) by simp
  obtain s' where s': "ip_AllocateIP (st_ips S) sub ip s = (Inr (\<not> allocated (view s) sub ip), s')"
    "view s' = (if allocated (view s) sub ip then view s else view_insert sub ip (view s))"
    using ips.AllocateIP_eq [OF assms(1,4) k] by blast
  have v: "view s' = (view s)(ipnet_String sub := Some (insert (ipnet_String ip) A))"
    using s'(2) assms(5) by (auto simp: allocated_def view_insert_def fun_eq_iff insert_absorb)
  have r: "(\<not> allocated (view s) sub ip) = (ipnet_String ip \<notin> A)" using assms(5) by (simp add: allocated_def)
  have "inv s'" "leases_of s' = leases_of s"
    using s'(1) ips.AllocateIP_inv [OF assms(1-3)] ips.AllocateIP_other [of sub ip s] by simp_all
  from assms(6) [OF this v] show ?thesis by (intro passes_no_error) (rule s'(1) [unfolded r])
qed

lemma FreeIP_passes:
  assumes "inv s" "net_ok sub" "net_ok ip" "contains sub (IP ip)" "view s (ipnet_String sub) = Some A"
    "\<And>s'. inv s' \<Longrightarrow> leases_of s' = leases_of s \<Longrightarrow>
      view s' = (view s)(ipnet_String sub := Some (A - {ipnet_String ip})) \<Longrightarrow> Q () s'"
  shows "passes (no_error msg (ip_FreeIP (st_ips S) sub ip)) s Q"
proof -
  obtain s' where s': "ip_FreeIP (st_ips S) sub ip s = (Inr (), s')"
    using ips.FreeIP_reliable [OF assms(1,4)] assms(5) by auto
  have v: "view s' = (view s)(ipnet_String sub := Some (A - {ipnet_String ip}))"
    using ips.FreeIP_done [OF assms(1) s'] assms(5) by (simp add: view_remove_def)
  have "inv s'" "leases_of s' = leases_of s"
    using s' ips.FreeIP_inv [OF assms(1-3)] ips.FreeIP_other [of sub ip s] by simp_all
  from assms(6) [OF this v] show ?thesis by (intro passes_no_error) (rule s')
qed

lemma Subnets_passes:
  assumes "inv s" "\<forall>t\<in>dom (view s). \<exists>n. base_net n \<and> t = ipnet_String n"
    "\<And>ns. range_order (map ipnet_String ns) (view s) \<Longrightarrow> list_all net_ok ns \<Longrightarrow> Q ns s"
  shows "passes (no_error msg (st_Subnets S)) s Q"
  using Subnets_eq [OF assms(1,2)] assms(3) by (auto intro: passes_no_error)

lemma AllocatedIPs_passes:
  assumes "inv s" "view s (ipnet_String sub) = Some {ipnet_String ip}" "net_ok ip"
    "\<And>n. cmp_IPNet ip n \<Longrightarrow> Q [n] s"
  shows "passes (no_error msg (st_AllocatedIPs S sub)) s Q"
proof -
  obtain ns where ns: "st_AllocatedIPs S sub s = (Inr ns, s)" "distinct (map ipnet_String ns)"
    "set (map ipnet_String ns) = {ipnet_String ip}" "list_all net_ok ns"
    using AllocatedIPs_eq [OF assms(1,2)] by blast
  then have "map ipnet_String ns = [ipnet_String ip]" by (intro distinct_singleton)
  then obtain n where "ns = [n]" "ipnet_String n = ipnet_String ip" by auto
  then show ?thesis using ns(1,4) assms(3,4) cmp_IPNet_text [of ip n] by (auto intro: passes_no_error)
qed

lemma Purge_passes:
  assumes "inv s" "\<And>s'. inv s' \<Longrightarrow> leases_of s' = live_leases t (leases_of s) \<Longrightarrow>
      view s' = (\<lambda>sub. map_option (\<lambda>A. A - purged_ips t (leases_of s) sub) (view s sub)) \<Longrightarrow>
      Q \<lparr>FreedIPs = (\<lambda>sub. if sub \<in> dom (view s) \<and> 0 < purged_count t (leases_of s) sub
                          then Some (purged_count t (leases_of s) sub) else None)\<rparr> s'"
  shows "passes (no_fault msg (st_Purge S t)) s Q"
  using Purge_eq [OF assms(1), of t] assms(2) by (auto simp: purge_result_def cong: if_cong intro: passes_no_fault)

text \<open>The rules for the calls, to take a test step by step.\<close>

lemmas call_rules = passes_bind passes_return Lease_passes SaveLease_passes DeleteLease_passes Leases_passes
  SaveSubnet_passes AllocateIP_passes FreeIP_passes Subnets_passes AllocatedIPs_passes Purge_passes

lemma empty_leases_pass:
  assumes "empty_store s"
  shows "passes (testLeasesEmpty S) s (\<lambda>_ _. True)" "passes (testLeaseNotExist S) s (\<lambda>_ _. True)"
proof -
  have s: "inv s" "leases_of s = Map.empty" using assms by (auto simp: empty_store_def)
  show "passes (testLeasesEmpty S) s (\<lambda>_ _. True)"
    unfolding testLeasesEmpty_def
    by (intro call_rules passes_expect s(1)) (simp_all add: s no_key List.map_filter_simps)
  show "passes (testLeaseNotExist S) s (\<lambda>_ _. True)"
    unfolding testLeaseNotExist_def by (intro call_rules passes_expect s(1)) (simp_all add: s)
qed

lemma testSaveLeaseOK_passes:
  assumes "empty_store s"
  shows "passes (testSaveLeaseOK S) s (\<lambda>_ _. True)"
proof -
  have s: "inv s" using assms by (auto simp: empty_store_def)
  show ?thesis
    unfolding testSaveLeaseOK_def
    by (rule passes_bind, rule SaveLease_passes [OF s okLease_valid], rule passes_bind, erule Lease_passes)
      (simp add: passes_expect)
qed

lemma testDeleteLeaseOK_passes:
  assumes "empty_store s"
  shows "passes (testDeleteLeaseOK S) s (\<lambda>_ _. True)"
proof -
  have s: "inv s" using assms by (auto simp: empty_store_def)
  have del: "passes (test_bind (test_repeat 3 (\<lambda>i. no_error m (ls_DeleteLease (st_leases S) 1)))
      (\<lambda>_. test_bind (no_error m' (ls_Lease (st_leases S) 1)) (\<lambda>l. expect m'' (l = None)))) s' (\<lambda>_ _. True)"
    if "inv s'" for s' m m' m''
  proof (rule passes_bind, rule passes_repeat [where I = "\<lambda>i s. inv s \<and> (0 < i \<longrightarrow> leases_of s 1 = None)"])
    show "passes (no_error m (ls_DeleteLease (st_leases S) 1)) t (\<lambda>_ t. inv t \<and> (0 < Suc i \<longrightarrow> leases_of t 1 = None))"
      if "inv t \<and> (0 < i \<longrightarrow> leases_of t 1 = None)" for t i
      using that by (intro DeleteLease_passes) auto
    show "passes (test_bind (no_error m' (ls_Lease (st_leases S) 1)) (\<lambda>l. expect m'' (l = None))) t (\<lambda>_ _. True)"
      if "inv t \<and> (0 < (3 :: nat) \<longrightarrow> leases_of t 1 = None)" for t
      using that by (intro passes_bind Lease_passes passes_expect) auto
  qed (use that in simp)
  show ?thesis
    unfolding testDeleteLeaseOK_def by (rule passes_bind, rule SaveLease_passes [OF s okLease_valid], erule del)
qed

lemma testLeasesOK_passes:
  assumes "empty_store s"
  shows "passes (testLeasesOK S) s (\<lambda>_ _. True)"
proof -
  let ?I = "\<lambda>i s. inv s \<and> dom (leases_of s) = (of_nat :: nat \<Rightarrow> u64) ` {..<i} \<and>
    (\<forall>l\<in>ran (leases_of s). cmp_Lease okLease l)"
  have three: "card ((of_nat :: nat \<Rightarrow> u64) ` {..<3}) = 3"
    by (subst card_image) (auto simp: inj_on_def numeral_3_eq_3 less_Suc_eq)
  have stable: "cmp_Lease okLease l \<Longrightarrow> Lease_Start l = Lease_Start okLease" for l by (simp add: cmp_Lease_def)
  show ?thesis
    unfolding testLeasesOK_def
  proof (rule passes_bind, rule passes_repeat [where I = ?I])
    show "?I 0 s" using assms by (simp add: empty_store_def)
    show "passes (no_error ''failed to save lease'' (ls_SaveLease (st_leases S) (of_nat i) okLease)) t (\<lambda>_. ?I (Suc i))"
      if "?I i t" for i t
      using that
      by (intro SaveLease_passes okLease_valid) (auto simp: lessThan_Suc ran_def split: if_splits)
    fix t assume t: "?I 3 t"
    show "passes (test_bind (no_error ''failed to get leases'' (st_Leases S)) (\<lambda>got.
        let want = sort_key Lease_Start [okLease, okLease, okLease]; got = sort_key Lease_Start got
        in expect ''unexpected Leases'' (list_all2 cmp_Lease want got))) t (\<lambda>_ _. True)"
    proof (intro passes_bind Leases_passes)
      fix ks assume ks: "range_order ks (leases_of t)"
      let ?got = "sort_key Lease_Start (List.map_filter (leases_of t) ks)"
      have "List.map_filter (leases_of t) ks = map (\<lambda>k. the (leases_of t k)) ks"
        using ks by (intro map_filter_Some) (auto simp: range_order_def)
      moreover have "length ks = 3" using ks t three distinct_card [of ks] by (simp add: range_order_def)
      moreover have "cmp_Lease okLease (the (leases_of t k))" if k: "k \<in> set ks" for k
      proof -
        obtain l where "leases_of t k = Some l" using k ks by (auto simp: range_order_def)
        then show ?thesis using t ranI [of "leases_of t" k l] by auto
      qed
      ultimately have "length ?got = 3" "\<forall>l\<in>set ?got. cmp_Lease okLease l" by auto
      then have "list_all2 cmp_Lease [okLease, okLease, okLease] ?got"
        by (auto simp: numeral_3_eq_3 length_Suc_conv)
      then show "passes (let want = sort_key Lease_Start [okLease, okLease, okLease]; got = ?got
          in expect ''unexpected Leases'' (list_all2 cmp_Lease want got)) t (\<lambda>_ _. True)"
        by (simp add: passes_expect)
    qed (use t in simp)
  qed
qed

lemma testSubnetsEmpty_passes:
  assumes "empty_store s"
  shows "passes (testSubnetsEmpty S) s (\<lambda>_ _. True)"
proof -
  have s: "inv s" "view s = Map.empty" using assms by (auto simp: empty_store_def)
  show ?thesis
    unfolding testSubnetsEmpty_def
    by (rule passes_bind, rule Subnets_passes [OF s(1)]) (auto simp: s no_key intro: passes_expect)
qed

lemma two_networks:
  assumes "range_order (map ipnet_String ns) [''192.0.2.0/24'' \<mapsto> A, ''2001:db8::/64'' \<mapsto> B]" "list_all net_ok ns"
  shows "list_all2 cmp_IPNet (sort_key ipnet_String [okSubnet4, okSubnet6]) (sort_key ipnet_String ns)"
proof -
  have d: "distinct (map ipnet_String ns)" "ipnet_String ` set ns = {''192.0.2.0/24'', ''2001:db8::/64''}"
    using assms(1) by (auto simp: range_order_def)
  let ?ms = "sort_key ipnet_String ns"
  have "map ipnet_String ?ms = sorted_list_of_set {''192.0.2.0/24'', ''2001:db8::/64''}"
    using d by (intro sorted_distinct_set_unique) (simp_all add: distinct_map)
  also have "\<dots> = [''192.0.2.0/24'', ''2001:db8::/64'']" by code_simp
  finally obtain m n where "?ms = [m, n]" "ipnet_String m = ''192.0.2.0/24''" "ipnet_String n = ''2001:db8::/64''"
    by (auto simp: map_eq_Cons_conv)
  moreover from this have "net_ok m" "net_ok n"
    using assms(2) set_sort [of ipnet_String ns] by (auto simp: list_all_iff)
  moreover have "sort_key ipnet_String [okSubnet4, okSubnet6] = [okSubnet4, okSubnet6]"
  proof -
    have "ipnet_String okSubnet4 \<le> ipnet_String okSubnet6" unfolding fixture_texts by code_simp
    then show ?thesis by simp
  qed
  ultimately show ?thesis using fixture_ok(1,2) fixture_texts by (simp add: cmp_IPNet_text)
qed

lemma testSubnetsOK_passes:
  assumes "empty_store s"
  shows "passes (testSubnetsOK S) s (\<lambda>_ _. True)"
proof -
  have s: "inv s" "view s = Map.empty" using assms by (auto simp: empty_store_def)
  have got: "passes (test_bind (no_error m (st_Subnets S)) (\<lambda>got.
      expect m' (list_all2 cmp_IPNet (sort_key ipnet_String [okSubnet4, okSubnet6]) (sort_key ipnet_String got)))) t (\<lambda>_ _. True)"
    if "inv t" "view t = [''192.0.2.0/24'' \<mapsto> {}, ''2001:db8::/64'' \<mapsto> {}]" for t m m'
  proof (rule passes_bind, rule Subnets_passes [OF that(1)])
    show "\<forall>k\<in>dom (view t). \<exists>n. base_net n \<and> k = ipnet_String n"
      using that(2) fixture_ok(5,6) fixture_texts by (metis dom_eq_empty_conv dom_fun_upd insert_iff empty_iff option.distinct(1))
    fix ns assume "range_order (map ipnet_String ns) (view t)" "list_all net_ok ns"
    from two_networks [OF this [unfolded that(2)]]
    show "passes (expect m' (list_all2 cmp_IPNet (sort_key ipnet_String [okSubnet4, okSubnet6]) (sort_key ipnet_String ns))) t (\<lambda>_ _. True)"
      by (simp add: passes_expect)
  qed
  show ?thesis
    unfolding testSubnetsOK_def Let_def test_loop.simps
    by (rule passes_bind, rule passes_bind, rule SaveSubnet_passes [OF s(1) fixture_ok(1)], simp add: s,
      rule passes_bind, erule SaveSubnet_passes [OF _ fixture_ok(2)], simp add: s fixture_texts,
      rule passes_return, rule got) (simp_all add: s fixture_texts)
qed

lemma refused_calls_pass:
  assumes "empty_store s"
  shows "passes (testAllocatedIPsNoSubnet S) s (\<lambda>_ _. True)"
    "passes (testAllocateIPMismatchedSubnet S) s (\<lambda>_ _. True)" "passes (testAllocateIPNoSubnet S) s (\<lambda>_ _. True)"
    "passes (testFreeIPMismatchedSubnet S) s (\<lambda>_ _. True)" "passes (testFreeIPNoSubnet S) s (\<lambda>_ _. True)"
proof -
  have s: "inv s" "view s n = None" for n using assms by (auto simp: empty_store_def)
  show "passes (testAllocatedIPsNoSubnet S) s (\<lambda>_ _. True)"
    unfolding testAllocatedIPsNoSubnet_def
    using AllocatedIPs_refused [OF s(1) s(2)] by (auto intro: passes_wants_error)
  show "passes (testAllocateIPMismatchedSubnet S) s (\<lambda>_ _. True)" "passes (testAllocateIPNoSubnet S) s (\<lambda>_ _. True)"
    unfolding testAllocateIPMismatchedSubnet_def testAllocateIPNoSubnet_def
    using AllocateIP_refused [OF s(1), of okSubnet4 okIP6] AllocateIP_refused [OF s(1), of okSubnet4 okIP4] s(2)
    by (auto intro: passes_wants_error)
  show "passes (testFreeIPMismatchedSubnet S) s (\<lambda>_ _. True)" "passes (testFreeIPNoSubnet S) s (\<lambda>_ _. True)"
    unfolding testFreeIPMismatchedSubnet_def testFreeIPNoSubnet_def
    using FreeIP_refused [OF s(1), of okSubnet4 okIP6] FreeIP_refused [OF s(1), of okSubnet4 okIP4] s(2)
    by (auto intro: passes_wants_error)
qed

lemma testAllocateIPAlreadyAllocated_passes:
  assumes "empty_store s"
  shows "passes (testAllocateIPAlreadyAllocated S) s (\<lambda>_ _. True)"
proof -
  have s: "inv s" "view s = Map.empty" using assms by (auto simp: empty_store_def)
  note alloc = AllocateIP_passes [OF _ fixture_ok(1,3) fixture_contains(1)]
  show ?thesis
    unfolding testAllocateIPAlreadyAllocated_def
    by (rule passes_bind, rule SaveSubnet_passes [OF s(1) fixture_ok(1)], simp add: s,
      rule passes_bind, erule alloc, simp, rule passes_bind, rule passes_expect, simp,
      rule passes_bind, erule alloc, simp, rule passes_expect) simp_all
qed

lemma testFreeIPOK_passes:
  assumes "empty_store s"
  shows "passes (testFreeIPOK S) s (\<lambda>_ _. True)"
proof -
  have s: "inv s" "view s = Map.empty" using assms by (auto simp: empty_store_def)
  have round: "passes (test_bind (no_error m1 (ip_SaveSubnet (st_ips S) sub)) (\<lambda>_.
      test_bind (no_error m2 (ip_AllocateIP (st_ips S) sub ip)) (\<lambda>ok.
      test_bind (expect m3 ok) (\<lambda>_. test_repeat 3 (\<lambda>i. no_error m4 (ip_FreeIP (st_ips S) sub ip)))))) t
      (\<lambda>_ t'. inv t' \<and> view t' = (view t)(ipnet_String sub \<mapsto> {}))"
    if t: "inv t" "view t (ipnet_String sub) = None" and n: "net_ok sub" "net_ok ip" "contains sub (IP ip)"
    for t sub ip m1 m2 m3 m4
  proof (rule passes_bind, rule SaveSubnet_passes [OF t(1) n(1)], simp add: t, rule passes_bind,
      erule AllocateIP_passes [OF _ n], simp, rule passes_bind, rule passes_expect, simp)
    fix t2 t3
    assume "view t2 = (view t)(ipnet_String sub \<mapsto> {})" and t3: "inv t3"
      "view t3 = (view t2)(ipnet_String sub \<mapsto> insert (ipnet_String ip) {})"
    then have v: "view t3 = (view t)(ipnet_String sub \<mapsto> {ipnet_String ip})" by simp
    let ?I = "\<lambda>(i :: nat) u. inv u \<and> (\<exists>A. view u = (view t)(ipnet_String sub \<mapsto> A) \<and> A \<subseteq> {ipnet_String ip} \<and> (0 < i \<longrightarrow> A = {}))"
    show "passes (test_repeat 3 (\<lambda>i. no_error m4 (ip_FreeIP (st_ips S) sub ip))) t3
        (\<lambda>_ t'. inv t' \<and> view t' = (view t)(ipnet_String sub \<mapsto> {}))"
    proof (rule passes_repeat [where I = ?I])
      fix i :: nat and u assume "?I i u"
      then obtain A where u: "inv u" "view u = (view t)(ipnet_String sub \<mapsto> A)" "A \<subseteq> {ipnet_String ip}" by blast
      then have A: "view u (ipnet_String sub) = Some A" "A - {ipnet_String ip} = {}" by auto
      show "passes (no_error m4 (ip_FreeIP (st_ips S) sub ip)) u (\<lambda>_. ?I (Suc i))"
        by (rule FreeIP_passes [OF u(1) n A(1)]) (simp add: A(2) u(2))
    next
      show "?I 0 t3" using t3(1) v by (intro conjI exI [of _ "{ipnet_String ip}"]) simp_all
    qed auto
  qed
  show ?thesis
    unfolding testFreeIPOK_def test_loop.simps prod.case
    by (rule passes_bind, rule passes_mono, rule round [OF s(1) _ fixture_ok(1,3) fixture_contains(1)], simp add: s,
      rule passes_bind, rule passes_mono, rule round [OF _ _ fixture_ok(2,4) fixture_contains(2)])
      (auto simp: s fixture_texts intro: passes_return)
qed

end

end
