(* ===== verification/Purge_Test.thy ===== *)
theory Purge_Test
  imports Store_Tests
begin

text \<open>
  The test of \<open>Purge\<close> (\<open>testPurgeOK\<close> of wgipamtest/store.go), which allocates addresses and saves leases before
  it purges; and the whole suite for both stores.
\<close>

section \<open>An allocator without reserved addresses\<close>

definition stands :: "simpleIPAllocator \<Rightarrow> prefix \<Rightarrow> nat \<Rightarrow> bool" where
  "stands a p v \<longleftrightarrow> alloc_ready a p v \<and> a_reserved a = [] \<and> a_last a = net_last p \<and> net_base p \<le> v"

lemma candidates_all: "candidates {} lo hi = [lo..<Suc hi]"
  by (simp add: candidates_def del: upt_Suc)

text \<open>An allocator of each family, their cursors on \<open>v\<close> and \<open>w\<close>.\<close>

definition duo :: "multiIPAllocator \<Rightarrow> prefix \<Rightarrow> nat \<Rightarrow> prefix \<Rightarrow> nat \<Rightarrow> bool" where
  "duo mia p4 v p6 w \<longleftrightarrow> (\<exists>a4 a6. mia_m mia IPv4 = [a4] \<and> mia_m mia IPv6 = [a6] \<and> stands a4 p4 v \<and> stands a6 p6 w \<and>
     sia_f a4 = IPv4 \<and> sia_f a6 = IPv6)"

context reliable_ip_store
begin

lemma stands_Allocate:
  assumes "stands a p v" "v < net_last p" "inv s" "view s (ipnet_String p) \<noteq> None"
    "\<not> allocated (view s) p (alloc_addr p v)"
  shows "\<exists>a' s'. simple_Allocate st (sia_f a) a s = Some (Inr (Some [alloc_addr p v]), a', s') \<and> inv s' \<and>
    other s' = other s \<and> sia_f a' = sia_f a \<and> stands a' p (Suc v) \<and> view s' = view_insert p (alloc_addr p v) (view s)"
proof -
  have a: "alloc_ready a p v" "a_reserved a = []" "a_last a = net_last p" "net_base p \<le> v"
    using assms(1) by (auto simp: stands_def)
  have "[v..<Suc (net_last p)] = v # [Suc v..<Suc (net_last p)]" using assms(2) by (simp add: upt_conv_Cons del: upt_Suc)
  then have f: "first_free p (view s) (candidates (set (a_reserved a)) v (a_last a) @
      candidates (set (a_reserved a)) (a_start a) (a_last a)) = Some v"
    using assms(5) a by (simp add: first_free_def candidates_all del: upt_Suc)
  obtain a' s' where r: "simple_Allocate st (sia_f a) a s = Some (Inr (Some [alloc_addr p v]), a', s')" "inv s'"
    "same_static a a'" "other s' = other s" "ready_next a a' p v" "view s' = view_insert p (alloc_addr p v) (view s)"
    using simple_Allocate_first [OF a(1) assms(3) a(4) assms(4)] unfolding f by auto
  note same = same_static_numbers [OF r(3)]
  obtain w where w: "alloc_ready a' p w" "[w..<Suc (net_last p)] = [Suc v..<Suc (net_last p)]"
    using r(5) a(2,3) assms(2) by (auto simp: ready_next_def next_candidates_def candidates_all Let_def simp del: upt_Suc)
  have "w = Suc v" using w(2) assms(2) by (metis Suc_mono hd_upt upt_eq_Nil_conv not_less_eq_eq not_less zero_less_Suc less_nat_zero_code)
  then have "stands a' p (Suc v)" using w(1) same a by (simp add: stands_def)
  then show ?thesis using r same by blast
qed

lemma duo_Allocate:
  assumes "duo mia p4 v p6 w" "v < net_last p4" "w < net_last p6" "inv s"
    "view s (ipnet_String p4) \<noteq> None" "view s (ipnet_String p6) \<noteq> None" "ipnet_String p4 \<noteq> ipnet_String p6"
    "\<not> allocated (view s) p4 (alloc_addr p4 v)" "\<not> allocated (view s) p6 (alloc_addr p6 w)"
  shows "\<exists>mia' s'. multi_Allocate st DualStack mia s =
      Some (Inr (Some [alloc_addr p4 v, alloc_addr p6 w]), mia', s') \<and> inv s' \<and> other s' = other s \<and>
    duo mia' p4 (Suc v) p6 (Suc w) \<and>
    view s' = view_insert p6 (alloc_addr p6 w) (view_insert p4 (alloc_addr p4 v) (view s))"
proof -
  obtain a4 a6 where a: "mia_m mia IPv4 = [a4]" "mia_m mia IPv6 = [a6]" "stands a4 p4 v" "stands a6 p6 w"
    "sia_f a4 = IPv4" "sia_f a6 = IPv6"
    using assms(1) by (auto simp: duo_def)
  obtain b4 t where t: "simple_Allocate st IPv4 a4 s = Some (Inr (Some [alloc_addr p4 v]), b4, t)" "inv t"
    "other t = other s" "sia_f b4 = IPv4" "stands b4 p4 (Suc v)" "view t = view_insert p4 (alloc_addr p4 v) (view s)"
    using stands_Allocate [OF a(3) assms(2,4,5,8)] unfolding a(5) by blast
  have "view t (ipnet_String p6) \<noteq> None" "\<not> allocated (view t) p6 (alloc_addr p6 w)"
    using assms(6,7,9) t(6) by (auto simp: view_insert_def allocated_def)
  from stands_Allocate [OF a(4) assms(3) t(2) this] obtain b6 u where
    u: "simple_Allocate st IPv6 a6 t = Some (Inr (Some [alloc_addr p6 w]), b6, u)" "inv u"
    "other u = other t" "sia_f b6 = IPv6" "stands b6 p6 (Suc w)" "view u = view_insert p6 (alloc_addr p6 w) (view t)"
    unfolding a(6) by blast
  have ne: "IPv6 \<noteq> IPv4" "IPv4 \<noteq> IPv6" by (simp_all add: IPv4_def IPv6_def)
  have "allocate_families DualStack = Inr [IPv4, IPv6]"
    by (simp add: allocate_families_def DualStack_def IPv4_def IPv6_def)
  then have "multi_Allocate st DualStack mia s = Some (Inr (Some [alloc_addr p4 v, alloc_addr p6 w]),
      mia\<lparr>mia_m := (mia_m mia)(IPv4 := [b4], IPv6 := [b6])\<rparr>, u)"
    using a(1,2) t(1) u(1) ne by (simp add: multi_Allocate_def)
  moreover have "duo (mia\<lparr>mia_m := (mia_m mia)(IPv4 := [b4], IPv6 := [b6])\<rparr>) p4 (Suc v) p6 (Suc w)"
    using t(4,5) u(4,5) ne by (simp add: duo_def)
  ultimately show ?thesis using t u by auto
qed

end

section \<open>The addresses of the test\<close>

definition bare_subnet :: "ipnet \<Rightarrow> Subnet" where
  "bare_subnet n = \<lparr>Subnet_Subnet = n, Subnet_Start = None, Subnet_End = None, Subnet_Reserved = []\<rparr>"

definition addr4 :: "nat \<Rightarrow> ipnet" where
  "addr4 i = alloc_addr (NewPrefix okSubnet4) (net_base okSubnet4 + i)"

definition addr6 :: "nat \<Rightarrow> ipnet" where
  "addr6 i = alloc_addr (NewPrefix okSubnet6) (net_base okSubnet6 + i)"

definition lease_no :: "nat \<Rightarrow> lease" where
  "lease_no i = \<lparr>Lease_IPs = [addr4 i, addr6 i], Lease_Start = (int i + 1) * 100 * Second, Lease_Length = 10 * Second\<rparr>"

lemma bare_subnets_ok:
  "subnet_ok (bare_subnet okSubnet4)" "subnet_ok (bare_subnet okSubnet6)"
  "Validate (bare_subnet okSubnet4) = Inr ()" "Validate (bare_subnet okSubnet6) = Inr ()"
  "to4 (IP okSubnet4) \<noteq> None" "to4 (IP okSubnet6) = None"
  by code_simp+

lemma host_sizes: "host_bits okSubnet4 = 8" "host_bits okSubnet6 = 64"
  by code_simp+

lemma room: "i \<le> 3 \<Longrightarrow> net_base okSubnet4 + i < net_last okSubnet4" "i \<le> 3 \<Longrightarrow> net_base okSubnet6 + i < net_last okSubnet6"
  by (simp_all add: net_last_def host_sizes)

lemma prefixes_ok:
  "prefix_ok (NewPrefix okSubnet4)" "family_ok (NewPrefix okSubnet4)" "is4 (IP (NewPrefix okSubnet4))"
  "prefix_ok (NewPrefix okSubnet6)" "family_ok (NewPrefix okSubnet6)" "\<not> is4 (IP (NewPrefix okSubnet6))"
  using Validate_prefix [of "bare_subnet okSubnet4"] Validate_prefix [of "bare_subnet okSubnet6"]
    bare_subnets_ok NewPrefix_same(4) [OF fixture_ok(1)] NewPrefix_same(4) [OF fixture_ok(2)]
  by (simp_all add: subnet_ok_def bare_subnet_def is4_def)

lemma addr4_ok:
  assumes "i \<le> 3"
  shows "net_ok (addr4 i)" "contains okSubnet4 (IP (addr4 i))" "\<not> contains okSubnet6 (IP (addr4 i))"
    "ipval (IP (addr4 i)) = net_base okSubnet4 + i"
proof -
  note n = NewPrefix_same [OF fixture_ok(1)]
  have "net_base (NewPrefix okSubnet4) \<le> net_base okSubnet4 + i" "net_base okSubnet4 + i \<le> net_last (NewPrefix okSubnet4)"
    using n room(1) [OF assms] by simp_all
  note a = alloc_addr_ok [OF prefixes_ok(1,2) this, folded addr4_def]
  show "net_ok (addr4 i)" "contains okSubnet4 (IP (addr4 i))" "ipval (IP (addr4 i)) = net_base okSubnet4 + i"
    using a n by simp_all
  show "\<not> contains okSubnet6 (IP (addr4 i))"
    using a(5) contains_range [OF fixture_ok(2) a(4)] prefixes_ok(3,6) NewPrefix_same(4) [OF fixture_ok(2)] by simp
qed

lemma addr6_ok:
  assumes "i \<le> 3"
  shows "net_ok (addr6 i)" "contains okSubnet6 (IP (addr6 i))" "\<not> contains okSubnet4 (IP (addr6 i))"
    "ipval (IP (addr6 i)) = net_base okSubnet6 + i"
proof -
  note n = NewPrefix_same [OF fixture_ok(2)]
  have "net_base (NewPrefix okSubnet6) \<le> net_base okSubnet6 + i" "net_base okSubnet6 + i \<le> net_last (NewPrefix okSubnet6)"
    using n room(2) [OF assms] by simp_all
  note a = alloc_addr_ok [OF prefixes_ok(4,5) this, folded addr6_def]
  show "net_ok (addr6 i)" "contains okSubnet6 (IP (addr6 i))" "ipval (IP (addr6 i)) = net_base okSubnet6 + i"
    using a n by simp_all
  show "\<not> contains okSubnet4 (IP (addr6 i))"
    using a(5) contains_range [OF fixture_ok(1) a(4)] prefixes_ok(3,6) NewPrefix_same(4) [OF fixture_ok(1)] by simp
qed

lemma addr_texts:
  assumes "i \<le> 3" "j \<le> 3"
  shows "ipnet_String (addr4 i) = ipnet_String (addr4 j) \<longleftrightarrow> i = j" "ipnet_String (addr6 i) = ipnet_String (addr6 j) \<longleftrightarrow> i = j"
  using ipnet_String_inj(1) [of "addr4 i" "addr4 j"] ipnet_String_inj(1) [of "addr6 i" "addr6 j"]
    addr4_ok [OF assms(1)] addr4_ok [OF assms(2)] addr6_ok [OF assms(1)] addr6_ok [OF assms(2)] by auto

lemma lease_no_storable:
  assumes "i < 3"
  shows "lease_storable (lease_no i)"
proof -
  have l: "length (IP (addr4 i)) = 16" "length (IP (addr6 i)) = 16"
    unfolding addr4_def addr6_def alloc_addr_def by (simp_all only: ipnet.select_convs length_be_bytes)
  have "0 \<le> (int i + 1) * 100 * Second" "(int i + 1) * 100 * Second < 253402214400 * Second"
    using assms by (simp_all add: Second_def)
  then show ?thesis using l by (simp add: lease_storable_def lease_no_def clock_range_def)
qed

lemma starts_stands:
  assumes "starts a (bare_subnet n)" "net_ok n"
  shows "stands a (NewPrefix n) (net_base n)"
proof -
  have le: "net_base n \<le> net_last n" by (simp only: net_last_def le_add1)
  then have "subnet_ready (bare_subnet n)"
    by (simp add: subnet_ready_def bare_subnet_def candidates_empty range_start_def range_last_def) blast
  from starts_ready [OF assms(1) this] show ?thesis
    using assms NewPrefix_same [OF assms(2)]
    by (simp add: starts_def fits_def stands_def bare_subnet_def range_start_def range_last_def)
qed

lemma key_contains_text: "net_ok n \<Longrightarrow> key_contains (ipnet_String n) = contains n"
  using ParseCIDR_key [of n] by (elim exE conjE meta_impE) (simp_all add: key_contains_def fun_eq_iff)

lemma test_expired:
  "\<not> Lease_Expired (lease_no 2) (210 * Second)" "Lease_Expired (lease_no 0) (210 * Second)" "Lease_Expired (lease_no 1) (210 * Second)"
  by (simp_all add: Expired_iff lease_no_def Second_def)

definition saved :: "nat \<Rightarrow> u64 \<Rightarrow> lease option" where
  "saved i = (\<lambda>k. if unat k < i then Some (lease_no (unat k)) else None)"

definition tables :: "nat set \<Rightarrow> alloc_view" where
  "tables I = [''192.0.2.0/24'' \<mapsto> (\<lambda>i. ipnet_String (addr4 i)) ` I, ''2001:db8::/64'' \<mapsto> (\<lambda>i. ipnet_String (addr6 i)) ` I]"

definition last_saved :: "u64 \<Rightarrow> lease option" where
  "last_saved = [2 \<mapsto> lease_no 2]"

lemma dom_saved: "dom (saved 3) = {0, 1, 2}"
proof -
  have "unat k < 3 \<longleftrightarrow> k \<in> {0, 1, 2}" for k :: u64
  proof -
    have "k = 0 \<longleftrightarrow> unat k = 0" "k = 1 \<longleftrightarrow> unat k = 1" "k = 2 \<longleftrightarrow> unat k = 2" by (simp_all add: word_unat_eq_iff)
    moreover have "unat k < 3 \<longleftrightarrow> unat k = 0 \<or> unat k = 1 \<or> unat k = 2" by linarith
    ultimately show ?thesis by simp
  qed
  moreover have "dom (saved 3) = {k. unat k < 3}" by (simp add: saved_def dom_def)
  ultimately show ?thesis by auto
qed

lemma saved_expired:
  "expired_ips (210 * Second) (saved 3) = (\<lambda>k. if k = 0 then [addr4 0, addr6 0] else if k = 1 then [addr4 1, addr6 1] else [])"
proof
  fix k :: u64
  show "expired_ips (210 * Second) (saved 3) k =
      (if k = 0 then [addr4 0, addr6 0] else if k = 1 then [addr4 1, addr6 1] else [])"
  proof (cases "k \<in> {0, 1, 2}")
    case True
    then show ?thesis using test_expired by (auto simp: expired_ips_def saved_def lease_no_def)
  next
    case False
    then have "saved 3 k = None" using dom_saved by blast
    then show ?thesis using False by (simp add: expired_ips_def)
  qed
qed

lemma saved_live: "live_leases (210 * Second) (saved 3) = last_saved"
proof
  fix k :: u64
  show "live_leases (210 * Second) (saved 3) k = last_saved k"
  proof (cases "k \<in> {0, 1, 2}")
    case True
    then show ?thesis using test_expired by (auto simp: live_leases_def saved_def last_saved_def)
  next
    case False
    then have "saved 3 k = None" using dom_saved by blast
    then show ?thesis using False by (simp add: live_leases_def last_saved_def)
  qed
qed

lemma saved_purged:
  "purged_count (210 * Second) (saved 3) ''192.0.2.0/24'' = 2" "purged_count (210 * Second) (saved 3) ''2001:db8::/64'' = 2"
  "purged_ips (210 * Second) (saved 3) ''192.0.2.0/24'' = (\<lambda>i. ipnet_String (addr4 i)) ` {0, 1}"
  "purged_ips (210 * Second) (saved 3) ''2001:db8::/64'' = (\<lambda>i. ipnet_String (addr6 i)) ` {0, 1}"
proof -
  have k: "key_contains ''192.0.2.0/24'' = contains okSubnet4" "key_contains ''2001:db8::/64'' = contains okSubnet6"
    using key_contains_text [OF fixture_ok(1)] key_contains_text [OF fixture_ok(2)] by (simp_all add: fixture_texts)
  have all: "(\<exists>k. f \<in> set (expired_ips (210 * Second) (saved 3) k)) \<longleftrightarrow> f \<in> {addr4 0, addr6 0, addr4 1, addr6 1}" for f
    unfolding saved_expired by (auto intro: exI [of _ 0] exI [of _ 1])
  have purged: "purged_ips (210 * Second) (saved 3) sub =
      ipnet_String ` {f \<in> {addr4 0, addr6 0, addr4 1, addr6 1}. key_contains sub (IP f)}" for sub
    unfolding all [symmetric] by (auto simp: purged_ips_def)
  show "purged_count (210 * Second) (saved 3) ''192.0.2.0/24'' = 2" "purged_count (210 * Second) (saved 3) ''2001:db8::/64'' = 2"
    by (simp_all add: purged_count_def dom_saved saved_expired k addr4_ok addr6_ok)
  have "{f \<in> {addr4 0, addr6 0, addr4 1, addr6 1}. contains okSubnet4 (IP f)} = {addr4 0, addr4 1}"
    "{f \<in> {addr4 0, addr6 0, addr4 1, addr6 1}. contains okSubnet6 (IP f)} = {addr6 0, addr6 1}"
    using addr4_ok [of 0] addr4_ok [of 1] addr6_ok [of 0] addr6_ok [of 1] by auto
  then show "purged_ips (210 * Second) (saved 3) ''192.0.2.0/24'' = (\<lambda>i. ipnet_String (addr4 i)) ` {0, 1}"
    "purged_ips (210 * Second) (saved 3) ''2001:db8::/64'' = (\<lambda>i. ipnet_String (addr6 i)) ` {0, 1}"
    unfolding purged k by simp_all
qed

lemma last_saved_again:
  "live_leases (210 * Second) last_saved = last_saved" "purged_count (210 * Second) last_saved sub = 0"
  "purged_ips (210 * Second) last_saved sub = {}"
proof -
  have "expired_ips (210 * Second) last_saved k = []" for k
    using test_expired by (simp add: expired_ips_def last_saved_def)
  then show "purged_count (210 * Second) last_saved sub = 0" "purged_ips (210 * Second) last_saved sub = {}"
    by (simp_all add: purged_count_def purged_ips_def)
  show "live_leases (210 * Second) last_saved = last_saved"
    using test_expired by (auto simp: live_leases_def last_saved_def fun_eq_iff)
qed

lemma tables_purged:
  "(\<lambda>sub. map_option (\<lambda>A. A - purged_ips (210 * Second) (saved 3) sub) (tables {..<3} sub)) = tables {2}"
proof -
  have three: "{..<3 :: nat} = {0, 1, 2}" by auto
  show ?thesis by (auto simp: tables_def saved_purged three fun_eq_iff addr_texts)
qed

section \<open>The test passes\<close>

lemma prefix_texts: "ipnet_String (NewPrefix okSubnet4) = ''192.0.2.0/24''" "ipnet_String (NewPrefix okSubnet6) = ''2001:db8::/64''"
  using NewPrefix_same(8) [OF fixture_ok(1)] NewPrefix_same(8) [OF fixture_ok(2)] by (simp_all add: fixture_texts)

lemma tables_insert:
  "view_insert (NewPrefix okSubnet6) (addr6 i) (view_insert (NewPrefix okSubnet4) (addr4 i) (tables I)) = tables (insert i I)"
  by (auto simp: view_insert_def prefix_texts tables_def fun_eq_iff)

lemma saved_Suc:
  assumes "i < 3"
  shows "(saved i)(of_nat i := Some (lease_no i)) = saved (Suc i)"
proof
  fix k :: u64
  have u: "unat (of_nat i :: u64) = i" using assms by (simp add: unat_of_nat)
  then have "k = of_nat i \<longleftrightarrow> unat k = i" by (metis word_unat_eq_iff)
  then show "((saved i)(of_nat i := Some (lease_no i))) k = saved (Suc i) k"
    by (auto simp: saved_def less_Suc_eq)
qed

definition test_duo :: "multiIPAllocator \<Rightarrow> nat \<Rightarrow> bool" where
  "test_duo mia i \<longleftrightarrow> duo mia (NewPrefix okSubnet4) (net_base okSubnet4 + i) (NewPrefix okSubnet6) (net_base okSubnet6 + i)"

context store_contract
begin

lemma SimpleIPAllocator_new:
  assumes "inv s" "subnet_ok (bare_subnet n)" "Validate (bare_subnet n) = Inr ()"
    "view s (ipnet_String n) = None \<or> view s (ipnet_String n) = Some {}"
  shows "\<exists>a s'. SimpleIPAllocator (st_ips S) (bare_subnet n) s = (Inr a, s') \<and> starts a (bare_subnet n) \<and> inv s' \<and>
    leases_of s' = leases_of s \<and> view s' = (view s)(ipnet_String n := Some {})"
proof -
  have sub: "Subnet_Subnet (bare_subnet n) = n" by (simp add: bare_subnet_def)
  obtain a s' where a: "SimpleIPAllocator (st_ips S) (bare_subnet n) s = (Inr a, s')" "starts a (bare_subnet n)" "inv s'"
    "leases_of s' = leases_of s" "\<forall>t. t \<noteq> ipnet_String n \<longrightarrow> view s' t = view s t"
    using ips.SimpleIPAllocator_ok(1) [OF assms(2,1,3)] unfolding sub by blast
  have "s' = snd (ip_SaveSubnet (st_ips S) n s)"
    using a(1) assms(3) by (auto simp: SimpleIPAllocator_def sub split: sum.splits prod.splits)
  then have "view s' (ipnet_String n) = Some {}" using SaveSubnet_new [OF assms(1,4)] by simp
  then show ?thesis using a by (auto simp: fun_eq_iff)
qed

lemma DualStack_new:
  assumes "inv s" "view s = [''192.0.2.0/24'' \<mapsto> {}]"
  shows "\<exists>mia s'. DualStackIPAllocator (st_ips S) [bare_subnet okSubnet4, bare_subnet okSubnet6] s = (Inr mia, s') \<and>
    inv s' \<and> leases_of s' = leases_of s \<and> test_duo mia 0 \<and> view s' = tables {}"
proof -
  note ok = bare_subnets_ok
  obtain a4 t where a4: "SimpleIPAllocator (st_ips S) (bare_subnet okSubnet4) s = (Inr a4, t)" "starts a4 (bare_subnet okSubnet4)"
    "inv t" "leases_of t = leases_of s" "view t = view s"
    using SimpleIPAllocator_new [OF assms(1) ok(1,3)] assms(2) by (auto simp: fixture_texts)
  obtain a6 u where a6: "SimpleIPAllocator (st_ips S) (bare_subnet okSubnet6) t = (Inr a6, u)" "starts a6 (bare_subnet okSubnet6)"
    "inv u" "leases_of u = leases_of t" "view u = (view t)(''2001:db8::/64'' := Some {})"
    using SimpleIPAllocator_new [OF a4(3) ok(2,4)] a4(5) assms(2) by (auto simp: fixture_texts)
  have f: "filter (\<lambda>x. to4 (IP (Subnet_Subnet x)) \<noteq> None) [bare_subnet okSubnet4, bare_subnet okSubnet6] = [bare_subnet okSubnet4]"
    "filter (\<lambda>x. to4 (IP (Subnet_Subnet x)) = None) [bare_subnet okSubnet4, bare_subnet okSubnet6] = [bare_subnet okSubnet6]"
    using ok(5,6) by (simp_all add: bare_subnet_def)
  let ?m = "\<lparr>mia_m = (\<lambda>f. if f = IPv4 then [a4] else if f = IPv6 then [a6] else [])\<rparr>"
  have "DualStackIPAllocator (st_ips S) [bare_subnet okSubnet4, bare_subnet okSubnet6] s = (Inr ?m, u)"
    unfolding DualStackIPAllocator_def f using a4(1) a6(1) by simp
  moreover have "sia_f a4 = IPv4" "sia_f a6 = IPv6"
    using starts_ok(3) [OF a4(2) ok(1)] starts_ok(3) [OF a6(2) ok(2)] ok(5,6) by (simp_all add: bare_subnet_def)
  then have "test_duo ?m 0"
    using starts_stands [OF a4(2) fixture_ok(1)] starts_stands [OF a6(2) fixture_ok(2)]
    by (simp add: test_duo_def duo_def IPv4_def IPv6_def)
  moreover have "view u = tables {}" using a4(5) a6(5) assms(2) by (simp add: tables_def)
  ultimately show ?thesis using a4(4) a6(3,4) by auto
qed

lemma purge_save_passes:
  assumes "i < 3" "inv s" "test_duo mia i" "leases_of s = saved i" "view s = tables {..<i}"
  shows "passes (purge_save S i (mia, w)) s (\<lambda>x s'. inv s' \<and> test_duo (fst x) (Suc i) \<and> leases_of s' = saved (Suc i) \<and>
    view s' = tables {..<Suc i} \<and> snd x = (if i = 2 then Some (lease_no 2) else w))"
proof -
  note n = NewPrefix_same [OF fixture_ok(1)] NewPrefix_same [OF fixture_ok(2)]
  have "i \<le> 3" using assms(1) by simp
  then have "net_base okSubnet4 + i < net_last (NewPrefix okSubnet4)" "net_base okSubnet6 + i < net_last (NewPrefix okSubnet6)"
    using room [of i] n by simp_all
  moreover have "view s (ipnet_String (NewPrefix okSubnet4)) \<noteq> None" "view s (ipnet_String (NewPrefix okSubnet6)) \<noteq> None"
    "ipnet_String (NewPrefix okSubnet4) \<noteq> ipnet_String (NewPrefix okSubnet6)"
    by (simp_all add: assms(5) prefix_texts tables_def)
  moreover have "\<not> allocated (view s) (NewPrefix okSubnet4) (addr4 i)" "\<not> allocated (view s) (NewPrefix okSubnet6) (addr6 i)"
    using addr_texts [of _ i] assms(1) by (auto simp: allocated_def assms(5) prefix_texts tables_def dest: sym)
  ultimately obtain mia' t where t: "multi_Allocate (st_ips S) DualStack mia s = Some (Inr (Some [addr4 i, addr6 i]), mia', t)"
    "inv t" "leases_of t = leases_of s" "test_duo mia' (Suc i)" "view t = tables (insert i {..<i})"
    using ips.duo_Allocate [OF assms(3) [unfolded test_duo_def] _ _ assms(2)]
    unfolding addr4_def [symmetric] addr6_def [symmetric] assms(5) tables_insert add_Suc_right [symmetric]
      test_duo_def [symmetric] by blast
  let ?l = "\<lparr>Lease_IPs = [addr4 i, addr6 i], Lease_Start = (int i + 1) * 100 * Second, Lease_Length = 10 * Second\<rparr>"
  have l: "?l = lease_no i" by (simp add: lease_no_def)
  obtain u where u: "ls_SaveLease (st_leases S) (of_nat i) ?l t = (Inr (), u)" "inv u"
    "leases_of u = saved (Suc i)" "view u = view t"
    using leases.SaveLease_eq [OF t(2) lease_no_storable [OF assms(1)], of "of_nat i"] t(3) assms(4) saved_Suc [OF assms(1)]
    unfolding l by auto
  have "purge_save S i (mia, w) s = (Inr (mia', if i = 2 then Some ?l else w), u)"
    using t(1) u(1) by (simp add: purge_save_def test_bind_def no_fault_def no_error_def test_return_def Let_def)
  then show ?thesis using t(4,5) u(2-4) l by (auto simp: passes_def lessThan_Suc lease_no_def)
qed

lemma testPurgeOK_passes:
  assumes "empty_store s"
  shows "passes (testPurgeOK S) s (\<lambda>_ _. True)"
proof -
  have s: "inv s" "leases_of s = Map.empty" "view s = Map.empty" using assms by (auto simp: empty_store_def)
  let ?I = "\<lambda>i x s. inv s \<and> test_duo (fst x) i \<and> leases_of s = saved i \<and> view s = tables {..<i} \<and>
    snd x = (if i = 3 then Some (lease_no 2) else None)"
  let ?J = "\<lambda>i s. inv s \<and> (if i = (0 :: nat) then leases_of s = saved 3 \<and> view s = tables {..<3}
    else leases_of s = last_saved \<and> view s = tables {2})"
  have loop: "passes (test_loop (purge_save S) [0..<3] (mia, None)) t (?I 3)" if "?I 0 (mia, None) t" for mia t
  proof -
    have "passes (test_loop (purge_save S) [0..<3] (mia, None)) t (?I (length [0..<3]))"
    proof (rule passes_loop)
      show "passes (purge_save S ([0..<3] ! i) x) u (?I (Suc i))" if "i < length [0..<3]" "?I i x u" for i x u
        using purge_save_passes [of i u "fst x" "snd x"] that by (cases x) (auto elim: passes_mono)
    qed (use that in simp)
    then show ?thesis by simp
  qed
  have purge: "passes (purge_round S i) t (\<lambda>_. ?J (Suc i))" if "?J i t" for i t
    unfolding purge_round_def
  proof (rule passes_bind, rule Purge_passes)
    show "inv t" using that by simp
    fix u assume u: "inv u" "leases_of u = live_leases ((2 * 100 + 10) * Second) (leases_of t)"
      "view u = (\<lambda>sub. map_option (\<lambda>A. A - purged_ips ((2 * 100 + 10) * Second) (leases_of t) sub) (view t sub))"
    have t: "(2 * 100 + 10) * Second = 210 * Second" by simp
    have "?J (Suc i) u"
      using u that unfolding t by (cases "i = 0") (simp_all add: saved_live tables_purged last_saved_again option.map_ident)
    moreover have "\<forall>v\<in>ran (\<lambda>sub. if sub \<in> dom (view t) \<and> 0 < purged_count (210 * Second) (leases_of t) sub
        then Some (purged_count (210 * Second) (leases_of t) sub) else None). v = (if i = 0 then 2 else 0)"
      using that by (cases "i = 0") (auto simp: ran_def tables_def saved_purged last_saved_again split: if_splits)
    ultimately show "passes (let wantFreed = if i = 0 then 2 else 0 in expect ''unexpected number of freed IPs''
        (\<forall>v\<in>ran (FreedIPs \<lparr>FreedIPs = (\<lambda>sub. if sub \<in> dom (view t) \<and>
          0 < purged_count ((2 * 100 + 10) * Second) (leases_of t) sub
          then Some (purged_count ((2 * 100 + 10) * Second) (leases_of t) sub) else None)\<rparr>). v = wantFreed)) u
        (\<lambda>_. ?J (Suc i))"
      unfolding t Let_def by (intro passes_expect) simp_all
  qed
  have checks: "passes (purge_checks S (lease_no 2)) t (\<lambda>_ _. True)"
    if t: "inv t" "leases_of t = last_saved" "view t = tables {2}" for t
  proof -
    have keys: "List.map_filter (leases_of t) ks = [lease_no 2]" if "range_order ks (leases_of t)" for ks
      using one_key [OF that, of 2] t(2) by (simp add: last_saved_def List.map_filter_simps)
    have v: "view t (ipnet_String okSubnet4) = Some {ipnet_String (addr4 2)}"
      "view t (ipnet_String okSubnet6) = Some {ipnet_String (addr6 2)}"
      by (simp_all add: t(3) tables_def fixture_texts)
    have n: "net_ok (addr4 2)" "net_ok (addr6 2)" using addr4_ok(1) [of 2] addr6_ok(1) [of 2] by simp_all
    have ips: "Lease_IPs (lease_no 2) ! 0 = addr4 2" "Lease_IPs (lease_no 2) ! 1 = addr6 2" by (simp_all add: lease_no_def)
    show ?thesis
      unfolding purge_checks_def ips
      by (rule passes_bind, rule Leases_passes [OF t(1)], rule passes_bind, rule passes_expect, simp add: keys,
        rule passes_bind, rule AllocatedIPs_passes [OF t(1) v(1) n(1)], rule passes_bind, rule passes_expect, simp,
        rule passes_bind, rule AllocatedIPs_passes [OF t(1) v(2) n(2)], rule passes_expect) simp_all
  qed
  have rest: "passes (test_bind (test_repeat 3 (purge_round S)) (\<lambda>_. case snd x of
      None \<Rightarrow> expect ''unexpected Leases'' False | Some want \<Rightarrow> purge_checks S want)) t (\<lambda>_ _. True)"
    if "?I 3 x t" for x t
  proof (rule passes_bind, rule passes_repeat [where I = ?J])
    show "?J 0 t" using that by simp
    show "passes (case snd x of None \<Rightarrow> expect ''unexpected Leases'' False | Some want \<Rightarrow> purge_checks S want) u (\<lambda>_ _. True)"
      if "?J 3 u" for u using \<open>?I 3 x t\<close> that checks by simp
  qed (rule purge)
  show ?thesis
    unfolding testPurgeOK_def bare_subnet_def [symmetric]
  proof (rule passes_bind, rule SaveSubnet_passes [OF s(1) fixture_ok(1)])
    fix t assume t: "inv t" "leases_of t = leases_of s" "view t = (view s)(ipnet_String okSubnet4 \<mapsto> {})"
    have "view t = [''192.0.2.0/24'' \<mapsto> {}]" using t(3) s(3) by (simp add: fixture_texts)
    from DualStack_new [OF t(1) this] obtain mia u where
      u: "DualStackIPAllocator (st_ips S) [bare_subnet okSubnet4, bare_subnet okSubnet6] t = (Inr mia, u)"
      "inv u" "leases_of u = Map.empty" "test_duo mia 0" "view u = tables {}"
      using t(2) s(2) by auto
    have start: "?I 0 (mia, None) u" using u by (simp add: saved_def)
    show "passes (test_bind (no_fault ''failed to create IP allocator''
        (DualStackIPAllocator (st_ips S) [bare_subnet okSubnet4, bare_subnet okSubnet6]))
      (\<lambda>ipa. test_bind (test_loop (purge_save S) [0..<3] (ipa, None)) (\<lambda>x. test_bind (test_repeat 3 (purge_round S))
        (\<lambda>_. case snd x of None \<Rightarrow> expect ''unexpected Leases'' False | Some want \<Rightarrow> purge_checks S want)))) t (\<lambda>_ _. True)"
      by (rule passes_bind, rule passes_no_fault, rule u(1), rule passes_bind, rule passes_mono, rule loop, rule start, erule rest)
  qed (simp add: s)
qed

lemma all_tests_pass:
  assumes "empty_store s"
  shows "list_all (\<lambda>(name, r). r = Inr ()) (run_tests S s)"
proof -
  have p: "passes t s (\<lambda>_ _. True) \<Longrightarrow> fst (t s) = Inr ()" for t :: "('s, unit) test"
    by (auto simp: passes_def)
  note pass = empty_leases_pass [OF assms, THEN p]
    testLeasesOK_passes [OF assms, THEN p]
    testSaveLeaseOK_passes [OF assms, THEN p]
    testDeleteLeaseOK_passes [OF assms, THEN p]
    testPurgeOK_passes [OF assms, THEN p]
    testSubnetsEmpty_passes [OF assms, THEN p]
    testSubnetsOK_passes [OF assms, THEN p]
    refused_calls_pass [OF assms, THEN p]
    testAllocateIPAlreadyAllocated_passes [OF assms, THEN p]
    testFreeIPOK_passes [OF assms, THEN p]
  show ?thesis by (simp add: run_tests_def TestStore_def pass)
qed

end

section \<open>Both stores pass\<close>

text \<open>C37: The memory store passes every conformance test of the repository, in whatever order Go ranges over its maps.\<close>

theorem memory_store_conforms:
  assumes "orders lk" "orders sk"
  shows "list_all (\<lambda>(name, r). r = Inr ()) (run_tests (memory_Store lk sk) MemoryStore)"
proof -
  have "store_contract.empty_store mem_full subnets leases MemoryStore"
    unfolding store_contract.empty_store_def [OF memory_Store_contract [OF assms]]
    by (simp add: mem_full_def mem_ok_MemoryStore finite_maps_def) (simp add: MemoryStore_def)
  then show ?thesis by (rule store_contract.all_tests_pass [OF memory_Store_contract [OF assms]])
qed

theorem memory_store_conforms_witness:
  "list_all (\<lambda>(name, r). r = Inr ()) (run_tests (memory_Store sorted_list_of_set sorted_list_of_set) MemoryStore)"
  by (rule memory_store_conforms [OF orders_sorted orders_sorted])

text \<open>C38: The file store passes every conformance test of the repository on a new file, whatever the order of the
  keys in its buckets and maps, when the JSON form of a lease keeps it up to the length of its addresses.\<close>

theorem file_store_conforms:
  assumes "json_codec c" "orders lk" "orders sk" "FileStore None Commits \<lparr>file_leases = None, file_subnets = None\<rparr> = Inr s"
  shows "list_all (\<lambda>(name, r). r = Inr ()) (run_tests (bolt_Store c Commits lk sk) s)"
proof -
  have s: "s = \<lparr>bolt_db = \<lparr>bucketLeases = Map.empty, bucketSubnets = Map.empty\<rparr>, bolt_subnets = Map.empty\<rparr>"
    using assms(4) by (simp add: FileStore_def bucket_or_new_def)
  have "store_contract.empty_store (bolt_full c) bolt_view (bolt_leases_of c) s"
    unfolding store_contract.empty_store_def [OF bolt_Store_contract [OF assms(1-3)]]
    by (simp add: s bolt_full_def bolt_ready_def bolt_ok_def mem_ok_def bolt_abs_def finite_maps_def bolt_view_def
        bolt_leases_of_def [abs_def])
  then show ?thesis by (rule store_contract.all_tests_pass [OF bolt_Store_contract [OF assms(1-3)]])
qed

definition text_codec :: "lease lease_codec" where
  "text_codec = \<lparr>marshal = (\<lambda>l. Inr (l\<lparr>Lease_IPs := map with16 (Lease_IPs l)\<rparr>)), unmarshal = Inr\<rparr>"

lemma text_codec_json: "json_codec text_codec"
proof -
  have "with16 n = n" if "length (IP n) = 16" for n
    using that by (simp add: with16_def to16_def)
  then have "map with16 ips = ips" if "\<forall>n\<in>set ips. length (IP n) = 16" for ips
    using that by (intro map_idI) blast
  then show ?thesis by (simp add: json_codec_def codec_ok_def text_codec_def lease_storable_def)
qed

theorem file_store_conforms_witness:
  "list_all (\<lambda>(name, r). r = Inr ()) (run_tests (bolt_Store text_codec Commits sorted_list_of_set sorted_list_of_set)
    \<lparr>bolt_db = \<lparr>bucketLeases = Map.empty, bucketSubnets = Map.empty\<rparr>, bolt_subnets = Map.empty\<rparr>)"
  by (rule file_store_conforms [OF text_codec_json orders_sorted orders_sorted]) (simp add: FileStore_def bucket_or_new_def)

end
