(* ===== verification/HTTP.thy ===== *)
theory HTTP
  imports Daemon_Run Purge_Test "HOL-Library.Multiset"
begin

text \<open>
  The debug HTTP API (http.go): the routes of \<open>HTTPHandler\<close> and what \<open>/api/v0/interfaces\<close> answers.  The
  handlers of prometheus and pprof are only named.  \<open>net/http\<close>'s \<open>ServeMux\<close> is modelled for the patterns
  used here, which have no host, and for requests other than \<open>CONNECT\<close>.  A \<open>range\<close> over the map of stores
  takes the order of the keys as an argument, and \<open>sort.Slice\<close>, which is not stable, is an argument too.
\<close>

section \<open>The answer\<close>

record jsonLease =
  jl_IPs :: "string list"
  jl_Start :: int
  jl_Length :: int

text \<open>\<open>Leases\<close> is a nil slice (in JSON \<open>null\<close>) as long as nothing is appended.\<close>

record jsonInterface =
  jif_Name :: string
  jif_Subnets :: "string list"
  jif_Leases :: "jsonLease list option"

datatype api_error = ListLeases goerr | ListSubnets goerr

text \<open>\<open>time.Time.Unix\<close>, and \<open>int(d.Seconds())\<close>: \<open>Seconds\<close> adds the quotient and the remainder, divided by a
  second, as float64.  Here both are scaled by \<open>2 ^ 91\<close>, where the quotient of the remainder has more than
  53 bits; its last bit is set when the division is not exact, so that it is rounded the right way.\<close>

definition Unix :: "time \<Rightarrow> int" where
  "Unix t = t div Second"

definition float_quotient :: "int \<Rightarrow> int" where
  "float_quotient nsec =
     (let q = nsec * 2 ^ 90 div Second
      in round53 (2 * q + (if nsec * 2 ^ 90 mod Second = 0 then 0 else 1)))"

definition int_Seconds :: "duration \<Rightarrow> int" where
  "int_Seconds d =
     (let sec = \<bar>d\<bar> div Second; nsec = \<bar>d\<bar> mod Second
      in sgn d * (round53 (round53 sec * 2 ^ 91 + float_quotient nsec) div 2 ^ 91))"

definition json_of :: "lease \<Rightarrow> jsonLease" where
  "json_of l = \<lparr>jl_IPs = map ipnet_String (Lease_IPs l), jl_Start = Unix (Lease_Start l), jl_Length = int_Seconds (Lease_Length l)\<rparr>"

lemma round53_shift:
  assumes "0 \<le> k" "k < 2 ^ 53"
  shows "round53 (k * 2 ^ n) = k * 2 ^ n"
proof -
  let ?m = "k * 2 ^ n" and ?e = "nat (bitlen (k * 2 ^ n) - 53)"
  have "?m < 2 ^ (53 + n)" using assms(2) by (simp add: power_add)
  then have "bitlen ?m \<le> int (53 + n)" by (simp only: bitlen_le_iff_power nat_int of_nat_0_le_iff simp_thms)
  then have "?e \<le> n" by simp
  then have "(2 :: int) ^ ?e dvd 2 ^ n" by (rule le_imp_power_dvd)
  then have "2 ^ ?e dvd ?m" by (rule dvd_mult)
  then have "?m mod 2 ^ ?e = 0" "?m div 2 ^ ?e * 2 ^ ?e = ?m" by simp_all
  then show ?thesis using assms(1) by (auto simp: round53_def Let_def sgn_if)
qed

lemma int_Seconds_whole:
  assumes "0 \<le> k" "k < 2 ^ 53"
  shows "int_Seconds (k * Second) = k"
proof -
  have d: "\<bar>k * Second\<bar> div Second = k" "\<bar>k * Second\<bar> mod Second = 0" using assms(1) by (simp_all add: Second_def abs_mult)
  have q: "float_quotient 0 = 0" by (simp add: float_quotient_def round53_exact)
  have "\<bar>k\<bar> \<le> 2 ^ 53" using assms by linarith
  then have "round53 (round53 k * 2 ^ 91 + 0) = k * 2 ^ 91"
    by (simp only: round53_exact add_0_right round53_shift [OF assms])
  moreover have "sgn (k * Second) * k = k" using assms(1) by (auto simp: sgn_if Second_def)
  moreover have "k * 2 ^ 91 div 2 ^ 91 = k" by simp
  ultimately show ?thesis unfolding int_Seconds_def Let_def d q by (simp only:)
qed

text \<open>What \<open>sort.Slice\<close> does with leases.\<close>

definition sorts :: "(lease list \<Rightarrow> lease list) \<Rightarrow> bool" where
  "sorts f \<longleftrightarrow> (\<forall>ls. mset (f ls) = mset ls \<and> sorted (map Lease_Start (f ls)))"

definition api_entry :: "(lease list \<Rightarrow> lease list) \<Rightarrow> string \<Rightarrow> lease list \<Rightarrow> ipnet list \<Rightarrow> jsonInterface" where
  "api_entry sort_Slice ifi ls subs =
     \<lparr>jif_Name = ifi, jif_Subnets = sort (map ipnet_String subs),
      jif_Leases = (if ls = [] then None else Some (map json_of (sort_Slice ls)))\<rparr>"

text \<open>The loop over the stores, and the handler.\<close>

fun interfaces_loop :: "'s Store \<Rightarrow> (lease list \<Rightarrow> lease list) \<Rightarrow> string list \<Rightarrow> (string \<Rightarrow> 's option) \<Rightarrow>
    (api_error + jsonInterface list) \<times> (string \<Rightarrow> 's option)" where
  "interfaces_loop S sort_Slice [] stores = (Inr [], stores)"
| "interfaces_loop S sort_Slice (ifi # ks) stores =
     (case stores ifi of
        None \<Rightarrow> interfaces_loop S sort_Slice ks stores
      | Some s \<Rightarrow>
          (case st_Leases S s of
             (Inl e, s1) \<Rightarrow> (Inl (ListLeases e), stores(ifi \<mapsto> s1))
           | (Inr ls, s1) \<Rightarrow>
               (case st_Subnets S s1 of
                  (Inl e, s2) \<Rightarrow> (Inl (ListSubnets e), stores(ifi \<mapsto> s2))
                | (Inr subs, s2) \<Rightarrow>
                    (case interfaces_loop S sort_Slice ks (stores(ifi \<mapsto> s2)) of
                       (Inl e, stores') \<Rightarrow> (Inl e, stores')
                     | (Inr js, stores') \<Rightarrow> (Inr (api_entry sort_Slice ifi ls subs # js), stores')))))"

definition interfaces :: "'s Store \<Rightarrow> (lease list \<Rightarrow> lease list) \<Rightarrow> string list \<Rightarrow> (string \<Rightarrow> 's option) \<Rightarrow>
    (api_error + jsonInterface list) \<times> (string \<Rightarrow> 's option)" where
  "interfaces S sort_Slice ks stores =
     (case interfaces_loop S sort_Slice ks stores of
        (Inl e, stores') \<Rightarrow> (Inl e, stores')
      | (Inr js, stores') \<Rightarrow> (Inr (sort_key jif_Name js), stores'))"

section \<open>Routes\<close>

datatype endpoint = InterfacesAPI | PromHTTP | PProf_Index | PProf_Cmdline | PProf_Profile | PProf_Symbol | PProf_Trace

datatype http_response =
    Banner string
  | Answer "jsonInterface list"
  | InternalServerError api_error
  | Served endpoint
  | MovedPermanently string
  | NotFound

record 's HTTPHandler =
  http_mux :: "(string \<times> endpoint) list"
  http_stores :: "string \<Rightarrow> 's option"

definition NewHTTPHandler :: "bool \<Rightarrow> bool \<Rightarrow> (string \<Rightarrow> 's option) \<Rightarrow> 's HTTPHandler" where
  "NewHTTPHandler usePrometheus usePProf stores =
     \<lparr>http_mux =
        [(''/api/v0/interfaces'', InterfacesAPI)] @
        (if usePrometheus then [(''/metrics'', PromHTTP)] else []) @
        (if usePProf then
          [(''/debug/pprof/'', PProf_Index), (''/debug/pprof/cmdline'', PProf_Cmdline), (''/debug/pprof/profile'', PProf_Profile),
           (''/debug/pprof/symbol'', PProf_Symbol), (''/debug/pprof/trace'', PProf_Trace)]
         else []),
      http_stores = stores\<rparr>"

text \<open>\<open>ServeMux\<close>: a pattern that is the path, else the longest one that ends with a slash and is a prefix of
  it; before that, a redirect to the clean path or to the path with a slash.\<close>

definition cleanPath :: "string \<Rightarrow> string" where
  "cleanPath p =
     (if p = '''' then ''/''
      else let p' = (if hd p = CHR ''/'' then p else CHR ''/'' # p); np = filepath_Clean p'
           in if last p' = CHR ''/'' \<and> np \<noteq> ''/'' then np @ ''/'' else np)"

definition is_prefix :: "string \<Rightarrow> string \<Rightarrow> bool" where
  "is_prefix a b \<longleftrightarrow> take (length a) b = a"

definition mux_match :: "(string \<times> endpoint) list \<Rightarrow> string \<Rightarrow> endpoint option" where
  "mux_match es path =
     (case map_of es path of
        Some e \<Rightarrow> Some e
      | None \<Rightarrow>
          (case rev (sort_key (\<lambda>(p, e). length p) (filter (\<lambda>(p, e). p \<noteq> '''' \<and> last p = CHR ''/'' \<and> is_prefix p path) es)) of
             [] \<Rightarrow> None
           | (p, e) # _ \<Rightarrow> Some e))"

datatype mux_result = Redirect string | Found endpoint | NoHandler

definition mux_Handler :: "(string \<times> endpoint) list \<Rightarrow> string \<Rightarrow> mux_result" where
  "mux_Handler es url =
     (let path = cleanPath url
      in if map_of es path = None \<and> map_of es (path @ ''/'') \<noteq> None \<and> last path \<noteq> CHR ''/'' then Redirect (path @ ''/'')
         else if path \<noteq> url then Redirect path
         else case mux_match es url of None \<Rightarrow> NoHandler | Some e \<Rightarrow> Found e)"

definition ServeHTTP :: "'s Store \<Rightarrow> (lease list \<Rightarrow> lease list) \<Rightarrow> string list \<Rightarrow> 's HTTPHandler \<Rightarrow> string \<Rightarrow>
    http_response \<times> 's HTTPHandler" where
  "ServeHTTP S sort_Slice ks h url =
     (if url = ''/'' then (Banner (''wgipamd'' @ [CHR 0x0A]), h)
      else case mux_Handler (http_mux h) url of
             Redirect path \<Rightarrow> (MovedPermanently path, h)
           | NoHandler \<Rightarrow> (NotFound, h)
           | Found e \<Rightarrow>
               if e = InterfacesAPI then
                 (case interfaces S sort_Slice ks (http_stores h) of
                    (Inl err, stores) \<Rightarrow> (InternalServerError err, h\<lparr>http_stores := stores\<rparr>)
                  | (Inr js, stores) \<Rightarrow> (Answer js, h\<lparr>http_stores := stores\<rparr>))
               else (Served e, h))"

section \<open>What the answer shows\<close>

definition shows_store :: "('k \<Rightarrow> lease option) \<Rightarrow> alloc_view \<Rightarrow> jsonInterface \<Rightarrow> bool" where
  "shows_store L v j \<longleftrightarrow> sorted_wrt (<) (jif_Subnets j) \<and> set (jif_Subnets j) = dom v \<and>
     (let js = (case jif_Leases j of None \<Rightarrow> [] | Some js \<Rightarrow> js)
      in mset js = image_mset (\<lambda>k. json_of (the (L k))) (mset_set (dom L)) \<and> sorted (map jl_Start js))"

lemma map_filter_the: "set ks \<subseteq> dom L \<Longrightarrow> List.map_filter L ks = map (\<lambda>k. the (L k)) ks"
  by (induction ks) (auto simp: List.map_filter_simps)

lemma api_entry_shows:
  assumes "sorts f" "range_order ks L" "range_order (map ipnet_String ns) v"
  shows "shows_store L v (api_entry f ifi (List.map_filter L ks) ns)"
proof -
  let ?ls = "List.map_filter L ks"
  have ks: "distinct ks" "set ks = dom L" and ns: "distinct (map ipnet_String ns)" "set (map ipnet_String ns) = dom v"
    using assms(2,3) by (auto simp: range_order_def)
  have ls: "?ls = map (\<lambda>k. the (L k)) ks" using ks(2) by (simp add: map_filter_the)
  have "mset (map json_of (f ?ls)) = image_mset json_of (mset ?ls)" using assms(1) by (simp add: sorts_def)
  also have "mset ?ls = image_mset (\<lambda>k. the (L k)) (mset_set (dom L))" unfolding ls ks(2) [symmetric] by (simp add: mset_set_set [OF ks(1)])
  finally have m: "mset (map json_of (f ?ls)) = image_mset (\<lambda>k. json_of (the (L k))) (mset_set (dom L))"
    by (simp add: image_mset.compositionality comp_def)
  have "sorted (map Lease_Start (f ?ls))" using assms(1) by (simp add: sorts_def)
  then have "sorted (map (\<lambda>t. t div Second) (map Lease_Start (f ?ls)))"
    by (rule sorted_map_mono) (auto simp: mono_on_def Second_def intro: zdiv_mono1)
  then have s: "sorted (map jl_Start (map json_of (f ?ls)))" by (simp add: json_of_def Unix_def comp_def)
  have "mset (f ?ls) = mset ?ls" using assms(1) by (simp add: sorts_def)
  then have "?ls = [] \<Longrightarrow> map json_of (f ?ls) = []" by simp
  then have "(case jif_Leases (api_entry f ifi ?ls ns) of None \<Rightarrow> [] | Some js \<Rightarrow> js) = map json_of (f ?ls)"
    by (simp add: api_entry_def)
  then show ?thesis
    using m s ns by (simp add: shows_store_def strict_sorted_iff) (simp add: api_entry_def)
qed

context store_contract
begin

lemma interfaces_loop_ok:
  assumes "sorts f" "distinct ks"
    "\<forall>k\<in>set ks. \<exists>s. stores k = Some s \<and> inv s \<and> (\<forall>t\<in>dom (view s). \<exists>n. base_net n \<and> t = ipnet_String n)"
  shows "\<exists>js. interfaces_loop S f ks stores = (Inr js, stores) \<and> map jif_Name js = ks \<and>
    (\<forall>j\<in>set js. \<exists>s. stores (jif_Name j) = Some s \<and> shows_store (leases_of s) (view s) j)"
  using assms(2,3)
proof (induction ks)
  case (Cons k ks)
  obtain s where s: "stores k = Some s" "inv s" "\<forall>t\<in>dom (view s). \<exists>n. base_net n \<and> t = ipnet_String n"
    using Cons.prems by auto
  obtain ls where ls: "range_order ls (leases_of s)" "st_Leases S s = (Inr (List.map_filter (leases_of s) ls), s)"
    using Leases_eq [OF s(2)] by blast
  obtain ns where ns: "st_Subnets S s = (Inr ns, s)" "range_order (map ipnet_String ns) (view s)"
    using Subnets_eq [OF s(2,3)] by blast
  obtain js where js: "interfaces_loop S f ks stores = (Inr js, stores)" "map jif_Name js = ks"
    "\<forall>j\<in>set js. \<exists>s. stores (jif_Name j) = Some s \<and> shows_store (leases_of s) (view s) j"
    using Cons by auto
  let ?j = "api_entry f k (List.map_filter (leases_of s) ls) ns"
  have "stores(k \<mapsto> s) = stores" using s(1) by (simp add: fun_upd_idem)
  then have "interfaces_loop S f (k # ks) stores = (Inr (?j # js), stores)" using s(1) ls(2) ns(1) js(1) by simp
  moreover have "jif_Name ?j = k" by (simp add: api_entry_def)
  ultimately show ?case using js(2,3) s(1) api_entry_shows [OF assms(1) ls(1) ns(2)] by auto
qed simp

lemma interfaces_ok:
  assumes "sorts f" "range_order ks stores"
    "\<And>k s. stores k = Some s \<Longrightarrow> inv s \<and> (\<forall>t\<in>dom (view s). \<exists>n. base_net n \<and> t = ipnet_String n)"
  shows "\<exists>js. interfaces S f ks stores = (Inr js, stores) \<and> sorted_wrt (<) (map jif_Name js) \<and>
    set (map jif_Name js) = dom stores \<and>
    (\<forall>j\<in>set js. \<exists>s. stores (jif_Name j) = Some s \<and> shows_store (leases_of s) (view s) j)"
proof -
  have ks: "distinct ks" "set ks = dom stores" using assms(2) by (auto simp: range_order_def)
  have "\<forall>k\<in>set ks. \<exists>s. stores k = Some s \<and> inv s \<and> (\<forall>t\<in>dom (view s). \<exists>n. base_net n \<and> t = ipnet_String n)"
    unfolding ks(2) using assms(3) by blast
  from interfaces_loop_ok [OF assms(1) ks(1) this]
  obtain js where js: "interfaces_loop S f ks stores = (Inr js, stores)" "map jif_Name js = ks"
    "\<forall>j\<in>set js. \<exists>s. stores (jif_Name j) = Some s \<and> shows_store (leases_of s) (view s) j" by blast
  let ?js = "sort_key jif_Name js"
  have n: "set (map jif_Name ?js) = dom stores" "distinct (map jif_Name ?js)"
    using js(2) ks by (auto simp: distinct_map)
  have "sorted (map jif_Name ?js)" by simp
  then show ?thesis using js(1,3) n by (auto simp: interfaces_def strict_sorted_iff intro!: exI [of _ ?js])
qed

end

definition base_named :: "alloc_view \<Rightarrow> bool" where
  "base_named v \<longleftrightarrow> (\<forall>t\<in>dom v. \<exists>n. base_net n \<and> t = ipnet_String n)"

text \<open>The API answers, with every interface once, by name, and shows each store as it is.\<close>

definition api_shows :: "'s Store \<Rightarrow> (lease list \<Rightarrow> lease list) \<Rightarrow> ('s \<Rightarrow> alloc_view) \<Rightarrow> ('s \<Rightarrow> u64 \<Rightarrow> lease option) \<Rightarrow>
    string list \<Rightarrow> 's HTTPHandler \<Rightarrow> bool" where
  "api_shows S f view leases_of ks h \<longleftrightarrow>
     (\<exists>js. ServeHTTP S f ks h ''/api/v0/interfaces'' = (Answer js, h) \<and> sorted_wrt (<) (map jif_Name js) \<and>
       set (map jif_Name js) = dom (http_stores h) \<and>
       (\<forall>j\<in>set js. \<exists>s. http_stores h (jif_Name j) = Some s \<and> shows_store (leases_of s) (view s) j))"

lemma api_route: "mux_Handler (http_mux (NewHTTPHandler prom pprof stores)) ''/api/v0/interfaces'' = Found InterfacesAPI"
proof -
  have c: "cleanPath ''/api/v0/interfaces'' = ''/api/v0/interfaces''" by code_simp
  show ?thesis by (simp add: mux_Handler_def c mux_match_def NewHTTPHandler_def)
qed

lemma NewHTTPHandler_stores [simp]: "http_stores (NewHTTPHandler prom pprof stores) = stores"
  "(NewHTTPHandler prom pprof stores)\<lparr>http_stores := stores\<rparr> = NewHTTPHandler prom pprof stores"
  by (simp_all add: NewHTTPHandler_def)

context store_contract
begin

lemma api_ok:
  assumes "sorts f" "range_order ks stores" "\<forall>s\<in>ran stores. inv s \<and> base_named (view s)"
  shows "api_shows S f view leases_of ks (NewHTTPHandler prom pprof stores)"
proof -
  obtain js where js: "interfaces S f ks stores = (Inr js, stores)" "sorted_wrt (<) (map jif_Name js)"
    "set (map jif_Name js) = dom stores"
    "\<forall>j\<in>set js. \<exists>s. stores (jif_Name j) = Some s \<and> shows_store (leases_of s) (view s) j"
    using interfaces_ok [OF assms(1,2)] assms(3) unfolding base_named_def ran_def by blast
  have "ServeHTTP S f ks (NewHTTPHandler prom pprof stores) ''/api/v0/interfaces'' = (Answer js, NewHTTPHandler prom pprof stores)"
    by (simp add: ServeHTTP_def api_route js(1))
  then show ?thesis using js(2-4) unfolding api_shows_def NewHTTPHandler_stores by blast
qed

end

section \<open>Properties\<close>

text \<open>C39: \<open>/api/v0/interfaces\<close> answers with every interface once, in the order of their names, and for each its
  subnets in order and all its leases by the time they start, whichever storage it has and whatever order the
  maps are ranged over.  The length of a lease of whole seconds is shown exactly.\<close>

theorem interfaces_answer:
  assumes "sorts f" "orders lk" "orders bk" "orders sk" "json_codec c"
  shows "(\<forall>ks stores. range_order ks stores \<longrightarrow> (\<forall>s\<in>ran stores. mem_full s \<and> base_named (subnets s)) \<longrightarrow>
      api_shows (memory_Store lk sk) f subnets leases ks (NewHTTPHandler prom pprof stores)) \<and>
    (\<forall>ks stores. range_order ks stores \<longrightarrow> (\<forall>s\<in>ran stores. bolt_full c s \<and> base_named (bolt_view s)) \<longrightarrow>
      api_shows (bolt_Store c Commits bk sk) f bolt_view (bolt_leases_of c) ks (NewHTTPHandler prom pprof stores)) \<and>
    (\<forall>l k. 0 \<le> k \<longrightarrow> k < 2 ^ 53 \<longrightarrow> Lease_Length l = k * Second \<longrightarrow> jl_Length (json_of l) = k)"
proof (intro conjI allI impI)
  note memory = memory_Store_contract [OF assms(2,4)] and bolt = bolt_Store_contract [OF assms(5,3,4)]
  fix ks stores
  show "api_shows (memory_Store lk sk) f subnets leases ks (NewHTTPHandler prom pprof stores)"
    if "range_order ks stores" "\<forall>s\<in>ran stores. mem_full s \<and> base_named (subnets s)"
    by (rule store_contract.api_ok [OF memory assms(1) that])
  fix stores'
  show "api_shows (bolt_Store c Commits bk sk) f bolt_view (bolt_leases_of c) ks (NewHTTPHandler prom pprof stores')"
    if "range_order ks stores'" "\<forall>s\<in>ran stores'. bolt_full c s \<and> base_named (bolt_view s)"
    by (rule store_contract.api_ok [OF bolt assms(1) that])
qed (simp add: json_of_def int_Seconds_whole)

text \<open>Where a pattern comes from.\<close>

lemma mux_match_in:
  assumes "mux_match es path = Some e"
  shows "\<exists>p. (p, e) \<in> set es \<and> (p = path \<or> last p = CHR ''/'' \<and> is_prefix p path)"
proof (cases "map_of es path")
  case None
  let ?es = "rev (sort_key (\<lambda>(p, e). length p) (filter (\<lambda>(p, e). p \<noteq> '''' \<and> last p = CHR ''/'' \<and> is_prefix p path) es))"
  obtain p r where "?es = (p, e) # r"
    using assms None by (auto simp: mux_match_def split: list.splits)
  then have "(p, e) \<in> set ?es" by (metis list.set_intros(1))
  then show ?thesis by auto
next
  case (Some e')
  then show ?thesis using assms map_of_SomeD [OF Some] by (auto simp: mux_match_def)
qed

text \<open>C40: The profiler and the metrics are served only when they are enabled, and under their own paths; the API
  answers under its path alone, and the root says what the service is.\<close>

theorem debug_routes:
  assumes "fst (ServeHTTP S f ks (NewHTTPHandler prom pprof stores) url) = r"
  shows "(url = ''/'' \<longrightarrow> r = Banner (''wgipamd'' @ [CHR 0x0A])) \<and>
    (r = Served PromHTTP \<longrightarrow> prom \<and> url = ''/metrics'') \<and>
    (\<forall>e. r = Served e \<longrightarrow> e = PromHTTP \<or> pprof \<and> is_prefix ''/debug/pprof/'' url) \<and>
    ((\<exists>js. r = Answer js) \<or> (\<exists>e. r = InternalServerError e) \<longrightarrow> url = ''/api/v0/interfaces'')"
proof (cases "mux_Handler (http_mux (NewHTTPHandler prom pprof stores)) url")
  case (Found e)
  then have m: "mux_match (http_mux (NewHTTPHandler prom pprof stores)) url = Some e"
    by (auto simp: mux_Handler_def Let_def split: if_splits option.splits)
  from mux_match_in [OF m] have e: "(e = InterfacesAPI \<longrightarrow> url = ''/api/v0/interfaces'') \<and>
      (e = PromHTTP \<longrightarrow> prom \<and> url = ''/metrics'') \<and>
      (e \<noteq> InterfacesAPI \<longrightarrow> e \<noteq> PromHTTP \<longrightarrow> pprof \<and> is_prefix ''/debug/pprof/'' url)"
    by (auto simp: NewHTTPHandler_def is_prefix_def split: if_splits)
  show ?thesis
    using assms e Found by (auto simp: ServeHTTP_def split: if_splits prod.splits sum.splits)
qed (use assms in \<open>auto simp: ServeHTTP_def split: if_splits\<close>)

text \<open>A daemon with one interface and two leases, its profiler off.\<close>

lemma sorts_by_start: "sorts (sort_key Lease_Start)"
  by (simp add: sorts_def)

lemma gauged_base: "base_named (subnets gauged_store)"
proof -
  have "base_net (NewPrefix demo_net)" unfolding base_net_def by code_simp
  then show ?thesis by (auto simp: base_named_def gauged_store_ok(8))
qed

theorem interfaces_answer_witness:
  "\<exists>j. ServeHTTP (memory_Store sorted_list_of_set sorted_list_of_set) (sort_key Lease_Start) [''wg0'']
      (NewHTTPHandler False False [''wg0'' \<mapsto> gauged_store]) ''/api/v0/interfaces'' =
      (Answer [j], NewHTTPHandler False False [''wg0'' \<mapsto> gauged_store]) \<and> jif_Name j = ''wg0'' \<and>
    shows_store (leases gauged_store) (subnets gauged_store) j"
proof -
  let ?stores = "[''wg0'' \<mapsto> gauged_store]" and ?S = "memory_Store sorted_list_of_set sorted_list_of_set"
  have o: "range_order [''wg0''] ?stores" by (simp add: range_order_def)
  have s: "\<forall>s\<in>ran ?stores. mem_full s \<and> base_named (subnets s)"
    using gauged_store_ok(3-5) gauged_base by (simp add: mem_full_def finite_maps_def)
  have "api_shows ?S (sort_key Lease_Start) subnets leases [''wg0''] (NewHTTPHandler False False ?stores)"
    using interfaces_answer [OF sorts_by_start orders_sorted orders_sorted orders_sorted text_codec_json] o s by blast
  then obtain js where js: "ServeHTTP ?S (sort_key Lease_Start) [''wg0''] (NewHTTPHandler False False ?stores) ''/api/v0/interfaces'' =
      (Answer js, NewHTTPHandler False False ?stores)" "sorted_wrt (<) (map jif_Name js)" "set (map jif_Name js) = {''wg0''}"
    "\<forall>j\<in>set js. \<exists>s. ?stores (jif_Name j) = Some s \<and> shows_store (leases s) (subnets s) j"
    unfolding api_shows_def by auto
  have "distinct (map jif_Name js)" using js(2) by (simp add: strict_sorted_iff)
  then have "map jif_Name js = [''wg0'']" using js(3) by (rule distinct_singleton)
  then obtain j where "js = [j]" "jif_Name j = ''wg0''" by auto
  then show ?thesis using js(1,4) by auto
qed

theorem debug_routes_witness:
  "fst (ServeHTTP (memory_Store sorted_list_of_set sorted_list_of_set) id [] (NewHTTPHandler True False Map.empty)
      ''/debug/pprof/trace'') \<noteq> Served PProf_Trace"
  using debug_routes [OF refl, where prom = True and pprof = False and url = "''/debug/pprof/trace''"] by blast

end
