(* ===== verification/Interleaving.thy ===== *)
theory Interleaving
  imports Memory_Server
begin

text \<open>
  A request is several operations on the stores, no lock spans them, and requests and the purge run in
  goroutines of their own (server.go of wgdynamic and of wgipamd).  Here \<open>requestIP\<close> is cut after the lease is
  looked up: other steps can come between that and \<open>newLease\<close> or \<open>renewLease\<close>.  The theorems show what can
  happen then, with the memory store; that it cannot without such interleavings is shown for the server of
  \<open>Memory_Server\<close>.
\<close>

section \<open>A request in two steps\<close>

datatype pending = NewLease | RenewLease lease

definition look_up :: "('a, 's) Handler \<Rightarrow> (string \<Rightarrow> u64) \<Rightarrow> time \<Rightarrow> string \<Rightarrow> 's \<Rightarrow> (pending \<times> 's) option" where
  "look_up h strKey now src s =
     (case ls_Lease (h_Leases h) (strKey src) s of
        (Inl e, s') \<Rightarrow> None
      | (Inr None, s') \<Rightarrow> Some (NewLease, s')
      | (Inr (Some l), s') \<Rightarrow>
          if time_Since now (Lease_Start l + Lease_Length l) < 0 then Some (RenewLease l, s') else None)"

fun carry_on :: "('a, 's) Handler \<Rightarrow> (string \<Rightarrow> u64) \<Rightarrow> time \<Rightarrow> string \<Rightarrow> RequestIP \<Rightarrow> pending \<Rightarrow> 'a \<Rightarrow> 's \<Rightarrow> ('a, 's) response" where
  "carry_on h strKey now' src req NewLease a s = newLease h strKey now' src req a s"
| "carry_on h strKey now' src req (RenewLease l) a s = renewLease h strKey now' src req l a s"

text \<open>Without anything between them the two steps are the request.\<close>

lemma requestIP_cut:
  "look_up h strKey now src s = Some (p, s') \<Longrightarrow>
    requestIP h strKey now now' src req a s = carry_on h strKey now' src req p a s'"
  by (auto simp: look_up_def requestIP_def split: prod.splits sum.splits option.splits if_splits)

text \<open>Threads that have looked up a lease and not gone on, and the steps of the server.\<close>

type_synonym threads = "nat \<Rightarrow> (string \<times> RequestIP \<times> pending) option"

inductive thread_step :: "(string \<Rightarrow> u64) \<Rightarrow> duration \<Rightarrow> threads \<times> multiIPAllocator \<times> memoryStore \<Rightarrow>
    threads \<times> multiIPAllocator \<times> memoryStore \<Rightarrow> bool"
  for strKey :: "string \<Rightarrow> u64" and d :: duration where
  looks: "T i = None \<Longrightarrow> look_up (mem_handler d) strKey now src s = Some (p, s') \<Longrightarrow>
    thread_step strKey d (T, a, s) (T(i \<mapsto> (src, req, p)), a, s')"
| goes_on: "T i = Some (src, req, p) \<Longrightarrow> carry_on (mem_handler d) strKey now' src req p a s = Some (Inr res, a', s') \<Longrightarrow>
    thread_step strKey d (T, a, s) (T(i := None), a', s')"
| whole: "server_step strKey d (a, s) (a', s') \<Longrightarrow> thread_step strKey d (T, a, s) (T, a', s')"

inductive thread_reach :: "Subnet list \<Rightarrow> (string \<Rightarrow> u64) \<Rightarrow> duration \<Rightarrow> threads \<times> multiIPAllocator \<times> memoryStore \<Rightarrow> bool"
  for subs :: "Subnet list" and strKey :: "string \<Rightarrow> u64" and d :: duration where
  start: "boot subs = Some (a, s) \<Longrightarrow> thread_reach subs strKey d (\<lambda>_. None, a, s)"
| step: "thread_reach subs strKey d x \<Longrightarrow> thread_step strKey d x y \<Longrightarrow> thread_reach subs strKey d y"

lemma serve_step: "serve strKey d now src req (a, s) = Some (a', s') \<Longrightarrow> server_step strKey d (a, s) (a', s')"
  by (auto simp: serve_def split: option.splits sum.splits intro: server_step.request)

section \<open>A purge during a renewal\<close>

text \<open>Clients A and B have leases; A's request finds its lease a moment before it ends; the purge deletes both
  and frees the addresses; A's request saves the lease again; B asks and is given the address of A.\<close>

definition renewal_run :: "(multiIPAllocator \<times> memoryStore) option" where
  "renewal_run =
     (case boot small_subnets of
        None \<Rightarrow> None
      | Some x0 \<Rightarrow>
     (case serve demo_key (60 * Second) 5 ''fe80::a'' any_request x0 of
        None \<Rightarrow> None
      | Some x1 \<Rightarrow>
     (case serve demo_key (60 * Second) 6 ''fe80::b'' any_request x1 of
        None \<Rightarrow> None
      | Some (a, s) \<Rightarrow>
     (case look_up (mem_handler (60 * Second)) demo_key (60 * Second - 1) ''fe80::a'' s of
        None \<Rightarrow> None
      | Some (p, s1) \<Rightarrow>
     (case memoryStore_Purge [1, 2] [''10.0.0.0/30''] (60 * Second) s1 of
        (_, s2) \<Rightarrow>
     (case carry_on (mem_handler (60 * Second)) demo_key (60 * Second) ''fe80::a'' any_request p a s2 of
        Some (Inr _, x3) \<Rightarrow> serve demo_key (60 * Second) (60 * Second) ''fe80::b'' any_request x3
      | _ \<Rightarrow> None))))))"

definition holds :: "memoryStore \<Rightarrow> u64 \<Rightarrow> time \<Rightarrow> ipnet \<Rightarrow> bool" where
  "holds s k t ip \<longleftrightarrow> (case leases s k of None \<Rightarrow> False | Some l \<Rightarrow> \<not> Lease_Expired l t \<and> ip \<in> set (Lease_IPs l))"

lemma renewal_eval:
  "case renewal_run of
     None \<Rightarrow> False
   | Some (a, s) \<Rightarrow> holds s 1 (100 * Second) (small_address 1) \<and> holds s 2 (100 * Second) (small_address 1)"
  by code_simp

section \<open>Two requests of one client\<close>

text \<open>Both find no lease, and each makes one; the second is saved over the first, whose addresses stay allocated
  when every lease is gone.\<close>

definition double_run :: "(multiIPAllocator \<times> memoryStore) option" where
  "double_run =
     (case boot small_subnets of
        None \<Rightarrow> None
      | Some (a, s) \<Rightarrow>
     (case look_up (mem_handler (60 * Second)) demo_key 5 ''fe80::a'' s of
        None \<Rightarrow> None
      | Some (p1, s1) \<Rightarrow>
     (case look_up (mem_handler (60 * Second)) demo_key 5 ''fe80::a'' s1 of
        None \<Rightarrow> None
      | Some (p2, s2) \<Rightarrow>
     (case carry_on (mem_handler (60 * Second)) demo_key 6 ''fe80::a'' any_request p1 a s2 of
        Some (Inr _, a3, s3) \<Rightarrow>
     (case carry_on (mem_handler (60 * Second)) demo_key 6 ''fe80::a'' any_request p2 a3 s3 of
        Some (Inr _, a4, s4) \<Rightarrow> Some (a4, snd (memoryStore_Purge [1] [''10.0.0.0/30''] (60 * Second) s4))
      | _ \<Rightarrow> None)
      | _ \<Rightarrow> None))))"

lemma double_eval:
  "case double_run of
     None \<Rightarrow> False
   | Some (a, s) \<Rightarrow> leases s 1 = None \<and> subnets s ''10.0.0.0/30'' = Some {''10.0.0.1/32''}"
  by code_simp

section \<open>The runs are runs of the server\<close>

lemma new_allocators_mem_dom:
  "new_allocators mem_ips subs s = (Inr as, s') \<Longrightarrow>
    dom (subnets s') = dom (subnets s) \<union> (\<lambda>x. ipnet_String (Subnet_Subnet x)) ` set subs"
proof (induction subs arbitrary: s as)
  case (Cons x subs)
  then obtain b s1 as1 where h: "SimpleIPAllocator mem_ips x s = (Inr b, s1)" "new_allocators mem_ips subs s1 = (Inr as1, s')"
    by (auto split: prod.splits sum.splits)
  have "dom (subnets s1) = insert (ipnet_String (Subnet_Subnet x)) (dom (subnets s))"
    using h(1) by (auto simp: SimpleIPAllocator_def mem_ips_def memoryStore_SaveSubnet_def split: sum.splits)
  then show ?case using Cons.IH [OF h(2)] by auto
qed simp

lemma small_boot:
  assumes "boot small_subnets = Some (a, s)"
  shows "mem_inv a s" "leases s = Map.empty" "dom (subnets s) = {''10.0.0.0/30''}"
proof -
  have d: "DualStackIPAllocator mem_ips small_subnets MemoryStore = (Inr a, s)"
    using assms by (auto simp: boot_def split: prod.splits sum.splits)
  then show "mem_inv a s" "leases s = Map.empty" using new_server_inv [OF small_config_ok] by auto
  let ?P = "\<lambda>x. to4 (IP (Subnet_Subnet x)) \<noteq> None"
  obtain as4 s4 as6 where n: "new_allocators mem_ips (filter ?P small_subnets) MemoryStore = (Inr as4, s4)"
    "new_allocators mem_ips (filter (\<lambda>x. \<not> ?P x) small_subnets) s4 = (Inr as6, s)"
    using d by (auto simp: DualStackIPAllocator_def split: if_splits prod.splits sum.splits)
  have "dom (subnets s) = (\<lambda>x. ipnet_String (Subnet_Subnet x)) ` (set (filter ?P small_subnets) \<union> set (filter (\<lambda>x. \<not> ?P x) small_subnets))"
    using new_allocators_mem_dom [OF n(1)] new_allocators_mem_dom [OF n(2)] by (auto simp: MemoryStore_def)
  also have "set (filter ?P small_subnets) \<union> set (filter (\<lambda>x. \<not> ?P x) small_subnets) = set small_subnets" by auto
  also have "(\<lambda>x. ipnet_String (Subnet_Subnet x)) ` set small_subnets = set (map (\<lambda>x. ipnet_String (Subnet_Subnet x)) small_subnets)" by simp
  also have "map (\<lambda>x. ipnet_String (Subnet_Subnet x)) small_subnets = [''10.0.0.0/30'']" by code_simp
  finally show "dom (subnets s) = {''10.0.0.0/30''}" by simp
qed

lemma serve_effect:
  assumes "serve strKey d now src req (a, s) = Some (a', s')" "mem_inv a s"
  shows "mem_inv a' s'" "dom (leases s') = insert (strKey src) (dom (leases s))" "dom (subnets s') = dom (subnets s)"
proof -
  obtain res where r: "requestIP (mem_handler d) strKey now now src req a s = Some (Inr res, a', s')"
    using assms(1) by (auto simp: serve_def split: prod.splits option.splits sum.splits)
  have no: "\<not> (\<exists>e. Inr res = Inl (Panic e))" by simp
  note q = request_step [OF assms(2) r no]
  show "mem_inv a' s'" "dom (subnets s') = dom (subnets s)" by (fact q)+
  show "dom (leases s') = insert (strKey src) (dom (leases s))" using q(2) by (auto simp: request_effect_def)
qed

lemma look_up_mem: "look_up (mem_handler d) strKey now src s = Some (p, s') \<Longrightarrow> s' = s"
  by (auto simp: look_up_def mem_handler_def multi_handler_def mem_leases_def memoryStore_Lease_def split: prod.splits sum.splits
      option.splits if_splits)

lemma renewal_reached:
  "\<exists>a s. thread_reach small_subnets demo_key (60 * Second) (\<lambda>_. None, a, s) \<and>
    holds s 1 (100 * Second) (small_address 1) \<and> holds s 2 (100 * Second) (small_address 1)"
proof -
  let ?d = "60 * Second" and ?R = "thread_reach small_subnets demo_key (60 * Second)" and ?none = "\<lambda>_. None"
  obtain a0 s0 a1 s1 a s p s' r s2 res a3 s3 a4 s4 where b: "boot small_subnets = Some (a0, s0)"
    and v: "serve demo_key ?d 5 ''fe80::a'' any_request (a0, s0) = Some (a1, s1)"
      "serve demo_key ?d 6 ''fe80::b'' any_request (a1, s1) = Some (a, s)"
    and l: "look_up (mem_handler ?d) demo_key (60 * Second - 1) ''fe80::a'' s = Some (p, s')"
    and g: "memoryStore_Purge [1, 2] [''10.0.0.0/30''] (60 * Second) s' = (r, s2)"
    and c: "carry_on (mem_handler ?d) demo_key (60 * Second) ''fe80::a'' any_request p a s2 = Some (Inr res, a3, s3)"
    and w: "serve demo_key ?d (60 * Second) ''fe80::b'' any_request (a3, s3) = Some (a4, s4)"
    and h: "holds s4 1 (100 * Second) (small_address 1)" "holds s4 2 (100 * Second) (small_address 1)"
    using renewal_eval unfolding renewal_run_def by (auto split: option.splits prod.splits sum.splits)
  have s': "s' = s" using look_up_mem [OF l] .
  note d0 = small_boot [OF b]
  note d1 = serve_effect [OF v(1) d0(1)]
  note d2 = serve_effect [OF v(2) d1(1)]
  have "dom (leases s) = {1, 2}" "dom (subnets s) = {''10.0.0.0/30''}"
    using d0 d1 d2 by (auto simp: demo_key_def)
  then have o: "range_order [1, 2] (leases s)" "range_order [''10.0.0.0/30''] (subnets s)"
    by (auto simp: range_order_def)
  have "?R (?none, a, s)"
    by (rule thread_reach.step [OF thread_reach.step [OF thread_reach.start [OF b] thread_step.whole [OF serve_step [OF v(1)]]]
        thread_step.whole [OF serve_step [OF v(2)]]])
  from thread_reach.step [OF this thread_step.looks [where i = 0 and req = any_request, OF refl l [unfolded s']]]
  have "?R (?none(0 \<mapsto> (''fe80::a'', any_request, p)), a, s)" .
  from thread_reach.step [OF this thread_step.whole [OF server_step.purge [OF o g [unfolded s']]]]
  have "?R (?none(0 \<mapsto> (''fe80::a'', any_request, p)), a, s2)" .
  from thread_reach.step [OF this thread_step.goes_on [where i = 0, OF _ c]]
  have "?R (?none, a3, s3)" by simp
  from thread_reach.step [OF this thread_step.whole [OF serve_step [OF w]]]
  have "?R (?none, a4, s4)" .
  then show ?thesis using h by blast
qed

text \<open>A lease that is made, whether or not the client has one.\<close>

lemma new_lease_effect:
  assumes "newLease (mem_handler d) strKey now' src req a s = Some (Inr res, a', s')" "multi_ok a" "nets_apart a" "mem_ok s"
  shows "multi_ok a'" "nets_apart a'" "mem_ok s'" "dom (leases s') = insert (strKey src) (dom (leases s))"
    "dom (subnets s') = dom (subnets s)"
proof -
  let ?fam = "if req_IPs req = [] then Inr DualStack else request_families (req_IPs req) 0"
  have "(\<exists>e. ?fam = Inl (Err e)) \<or> (\<exists>f fs. ?fam = Inr f \<and> allocate_families f = Inr fs \<and> distinct fs)"
    using families_of_cases [of "req_IPs req"]
    by (auto simp: request_families_eq allocate_families_def DualStack_def IPv4_def IPv6_def)
  moreover have "\<not> (\<exists>e. ?fam = Inl e)" using assms(1) unfolding newLease_def by (auto split: sum.splits)
  ultimately obtain f fs where f: "?fam = Inr f" "allocate_families f = Inr fs" "distinct fs" by blast
  obtain r b t where l: "multi_Allocate mem_ips f a s = Some (r, b, t)" "mem_ok t" "leases t = leases s"
    "same_nets a b" "multi_ok b" "multi_outcome (served a fs) (subnets s) (subnets t) r"
    using mem.multi_Allocate_safe [OF assms(2-4) f(2,3)] by blast
  have al: "al_Allocate (h_IPs (mem_handler d)) = multi_Allocate mem_ips" "h_Leases (mem_handler d) = mem_leases"
    by (simp_all add: mem_handler_def multi_handler_def multi_IPs_def)
  obtain ips where ips: "r = Inr (Some ips)"
    and q: "a' = b" "\<exists>lease. s' = snd (memoryStore_SaveLease (strKey src) lease t)"
    using assms(1) f(1) l(1) unfolding newLease_def al
    by (auto simp: mem_leases_def Let_def split: sum.splits option.splits fault.splits prod.splits) (metis snd_conv)
  have v: "subnets t = view_add (tickets (served a fs) ips) (subnets s)" using l(6) ips by (simp add: multi_outcome_def)
  show "multi_ok a'" "nets_apart a'" using l(5) nets_apart_same [OF l(4) assms(3)] q(1) by simp_all
  obtain lease where s': "s' = t\<lparr>leases := (leases t)(strKey src \<mapsto> lease)\<rparr>"
    using q(2) by (auto simp: memoryStore_SaveLease_def)
  show "mem_ok s'" using l(2) unfolding s' mem_ok_def by simp
  show "dom (leases s') = insert (strKey src) (dom (leases s))" by (simp add: s' l(3))
  have "subnets s' = subnets t" by (simp add: s')
  then show "dom (subnets s') = dom (subnets s)" by (simp add: v)
qed

lemma double_reached:
  "\<exists>a s. thread_reach small_subnets demo_key (60 * Second) (\<lambda>_. None, a, s) \<and> leases s = Map.empty \<and>
    subnets s ''10.0.0.0/30'' = Some {''10.0.0.1/32''}"
proof -
  let ?d = "60 * Second" and ?R = "thread_reach small_subnets demo_key (60 * Second)" and ?none = "\<lambda>_. None"
  obtain a s p1 s1 p2 s2 r3 a3 s3 r4 a4 s4 where b: "boot small_subnets = Some (a, s)"
    and l: "look_up (mem_handler ?d) demo_key 5 ''fe80::a'' s = Some (p1, s1)"
      "look_up (mem_handler ?d) demo_key 5 ''fe80::a'' s1 = Some (p2, s2)"
    and c: "carry_on (mem_handler ?d) demo_key 6 ''fe80::a'' any_request p1 a s2 = Some (Inr r3, a3, s3)"
      "carry_on (mem_handler ?d) demo_key 6 ''fe80::a'' any_request p2 a3 s3 = Some (Inr r4, a4, s4)"
    and e: "leases (snd (memoryStore_Purge [1] [''10.0.0.0/30''] (60 * Second) s4)) 1 = None"
      "subnets (snd (memoryStore_Purge [1] [''10.0.0.0/30''] (60 * Second) s4)) ''10.0.0.0/30'' = Some {''10.0.0.1/32''}"
    using double_eval unfolding double_run_def by (auto split: option.splits prod.splits sum.splits)
  note d0 = small_boot [OF b]
  have s: "s1 = s" "s2 = s" using look_up_mem [OF l(1)] look_up_mem [OF l(2)] by simp_all
  have p: "p1 = NewLease" "p2 = NewLease"
    using l d0(2) unfolding s by (auto simp: look_up_def mem_handler_def multi_handler_def mem_leases_def memoryStore_Lease_def)
  have i: "multi_ok a" "nets_apart a" "mem_ok s" using d0(1) by (auto simp: handler_inv_def)
  note e1 = new_lease_effect [OF c(1) [unfolded p s carry_on.simps] i]
  note e2 = new_lease_effect [OF c(2) [unfolded p carry_on.simps] e1(1-3)]
  have dom: "dom (leases s4) = {1}" "dom (subnets s4) = {''10.0.0.0/30''}"
    using d0(2,3) e1(4,5) e2(4,5) by (auto simp: demo_key_def)
  then have o: "range_order [1] (leases s4)" "range_order [''10.0.0.0/30''] (subnets s4)"
    by (auto simp: range_order_def)
  obtain r s5 where g: "memoryStore_Purge [1] [''10.0.0.0/30''] (60 * Second) s4 = (r, s5)" by fastforce
  have s5: "leases s5 1 = None" "subnets s5 ''10.0.0.0/30'' = Some {''10.0.0.1/32''}" using e g by simp_all
  have "(r, s5) = purge_result (60 * Second) s4" using Purge_eq [OF e2(3) o] g by simp
  then have "leases s5 = live_leases (60 * Second) (leases s4)" by (simp add: purge_result_def)
  then have "dom (leases s5) \<subseteq> {1}" using dom(1) by (auto simp: live_leases_def split: option.splits if_splits)
  then have empty: "leases s5 = Map.empty" using s5(1) by (auto simp: fun_eq_iff subset_iff domIff)
  have "?R (?none, a, s)" by (rule thread_reach.start [OF b])
  from thread_reach.step [OF this thread_step.looks [where i = 0 and req = any_request, OF refl l(1) [unfolded s]]]
  have "?R (?none(0 \<mapsto> (''fe80::a'', any_request, p1)), a, s)" .
  from thread_reach.step [OF this thread_step.looks [where i = 1 and req = any_request, OF _ l(2) [unfolded s]]]
  have "?R (?none(0 \<mapsto> (''fe80::a'', any_request, p1), 1 \<mapsto> (''fe80::a'', any_request, p2)), a, s)" by simp
  from thread_reach.step [OF this thread_step.goes_on [where i = 0, OF _ c(1) [unfolded s]]]
  have "?R (?none(1 \<mapsto> (''fe80::a'', any_request, p2)), a3, s3)" by (simp add: fun_upd_twist)
  from thread_reach.step [OF this thread_step.goes_on [where i = 1, OF _ c(2)]]
  have "?R (?none, a4, s4)" by simp
  from thread_reach.step [OF this thread_step.whole [OF server_step.purge [OF o g]]]
  have "?R (?none, a4, s5)" .
  then show ?thesis using empty s5(2) by blast
qed

section \<open>Properties\<close>

text \<open>C13: A purge between the look-up and the save of a renewal breaks the safety of leases: a state can be reached,
  with no request under way, in which two clients have leases that have not expired with the same address.\<close>

theorem renewal_races_with_purge:
  "\<exists>a s l l' ip. thread_reach small_subnets demo_key (60 * Second) (\<lambda>_. None, a, s) \<and>
    leases s (demo_key ''fe80::a'') = Some l \<and> leases s (demo_key ''fe80::b'') = Some l' \<and>
    \<not> Lease_Expired l (100 * Second) \<and> \<not> Lease_Expired l' (100 * Second) \<and>
    ip \<in> set (Lease_IPs l) \<and> ip \<in> set (Lease_IPs l')"
proof -
  have k: "demo_key ''fe80::a'' = 1" "demo_key ''fe80::b'' = 2" by (simp_all add: demo_key_def)
  have h: "holds s key t ip \<longleftrightarrow> (\<exists>l. leases s key = Some l \<and> \<not> Lease_Expired l t \<and> ip \<in> set (Lease_IPs l))" for s key t ip
    by (simp add: holds_def split: option.splits)
  show ?thesis unfolding k using renewal_reached [unfolded h] by blast
qed

text \<open>C14: Two requests of one client at the same time lose an address: a state can be reached, with no request
  under way, in which no client has a lease and an address is still allocated, which nothing frees then.\<close>

theorem double_request_leaks:
  "\<exists>a s A. thread_reach small_subnets demo_key (60 * Second) (\<lambda>_. None, a, s) \<and> leases s = Map.empty \<and>
    subnets s ''10.0.0.0/30'' = Some A \<and> A \<noteq> {}"
  using double_reached by auto

end
