(* ===== verification/Command.thy ===== *)
theory Command
  imports Daemon_Run
begin

text \<open>
  The command (cmd/wgipamd/main.go): \<open>main\<close> from its flags to the daemon that is ready.  Files are what the
  operating system answers; a configuration file is taken as what the TOML decoder makes of it.
\<close>

definition cfgFile :: string where
  "cfgFile = ''wgipamd.toml''"

record flags =
  flag_c :: string
  flag_init :: bool

definition no_flags :: flags where
  "no_flags = \<lparr>flag_c = cfgFile, flag_init = False\<rparr>"

record 'v os =
  os_WriteFile :: "string \<Rightarrow> goerr option"
  os_Open :: "string \<Rightarrow> goerr + (goerr + raw_file \<times> string list)"
  os_env :: "'v environment"

datatype fatal =
    WriteDefaultFailed goerr
  | OpenConfigFailed goerr
  | ParseConfigFailed config_error
  | RunFailed server_fault

datatype 'v outcome = DefaultWritten | Fatal fatal | Serving "'v running list"

definition main :: "'v lease_codec \<Rightarrow> orders3 \<Rightarrow> (string \<Rightarrow> goerr + unit) \<Rightarrow> (string \<Rightarrow> goerr + duration) \<Rightarrow> registry \<Rightarrow>
    flags \<Rightarrow> 'v os \<Rightarrow> 'v outcome" where
  "main c ord resolve parse_duration go_metrics fl os =
     (if flag_init fl then
        (case os_WriteFile os cfgFile of Some e \<Rightarrow> Fatal (WriteDefaultFailed e) | None \<Rightarrow> DefaultWritten)
      else
        (case os_Open os (flag_c fl) of
           Inl e \<Rightarrow> Fatal (OpenConfigFailed e)
         | Inr decoded \<Rightarrow>
             (case Parse resolve parse_duration decoded of
                Inl e \<Rightarrow> Fatal (ParseConfigFailed e)
              | Inr cfg \<Rightarrow>
                  (case Run c ord (os_env os) (NewServer go_metrics cfg) of
                     Inl e \<Rightarrow> Fatal (RunFailed e)
                   | Inr rs \<Rightarrow> Serving rs))))"

lemma Parse_storage:
  assumes "Parse resolve pd decoded = Inr cfg"
  shows "Storage_Memory (cfg_Storage cfg) \<or> Storage_File (cfg_Storage cfg) \<noteq> ''''"
  using assms by (auto simp: Parse_def parseStorage_def split: sum.splits if_splits prod.splits)

text \<open>A file with one interface is all a daemon needs.\<close>

lemma parsed_one_interface:
  assumes "Parse resolve pd decoded = Inr cfg" "cfg_Interfaces cfg = [ifi]"
    "\<forall>x\<in>set (if_Subnets ifi). plain_mask (Subnet_Subnet x) \<and> family_ok (NewPrefix (Subnet_Subnet x))"
    "(set store_metrics \<union> set server_metrics) \<inter> go_metrics = {}"
  shows "one_interface (NewServer go_metrics cfg) ifi"
  using parsed_config_ok [OF assms(1) _ assms(3)] Parse_storage [OF assms(1)] assms(2,4)
  by (simp add: one_interface_def NewServer_def)

text \<open>C36: From a file with one interface that \<open>Parse\<close> accepts, whose masks are contiguous and whose networks are
  of one family, the command comes to serve that interface with no lease yet, unless the operating system
  refuses something; what it serves is a state of the daemon.\<close>

theorem main_serves:
  assumes "codec_ok c" "orders3 ord" "\<not> flag_init fl" "os_Open os (flag_c fl) = Inr decoded"
    "Parse resolve pd decoded = Inr cfg" "cfg_Interfaces cfg = [ifi]"
    "\<forall>x\<in>set (if_Subnets ifi). plain_mask (Subnet_Subnet x) \<and> family_ok (NewPrefix (Subnet_Subnet x))"
    "(set store_metrics \<union> set server_metrics) \<inter> go_metrics = {}"
    "listens (os_env os) (NewServer go_metrics cfg) ifi" "opens (os_env os) new_file"
  shows "\<exists>r. main c ord resolve pd go_metrics fl os = Serving [r] \<and> run_Interface r = ifi \<and>
    daemon_reach c strKey (NewServer go_metrics cfg) r \<and> any_leases c (fst (run_store r)) = Map.empty"
proof -
  have one: "one_interface (NewServer go_metrics cfg) ifi" by (rule parsed_one_interface [OF assms(5-8)])
  then have cfg: "config_ok (if_Subnets ifi)" by (simp add: one_interface_def)
  obtain r s where r: "Run c ord (os_env os) (NewServer go_metrics cfg) = Inr [r]"
    "newStore (os_env os) (if_Name ifi) (cfg_Storage (srv_cfg (NewServer go_metrics cfg))) = Inr s"
    "any_leases c (fst (run_store r)) = any_leases c s"
    using Run_ok [OF assms(1) one assms(2,10,9) good_new_file [OF cfg]] by blast
  have "any_leases c s = Map.empty"
    using r(2) assms(10) by (auto simp: newStore_def opens_def any_leases_def MemoryStore_def FileStore_def new_file_def
      bucket_or_new_def bolt_leases_of_def fun_eq_iff split: if_splits)
  moreover have reach: "daemon_reach c strKey (NewServer go_metrics cfg) r"
    by (rule daemon_reach.start [OF assms(2,10) r(1)])
  moreover have "run_Interface r = ifi" using reach_one(1) [OF reach assms(1) one] .
  ultimately show ?thesis
    using assms(3-5) r(1,3) by (auto simp: main_def)
qed

text \<open>The default configuration, as \<open>-init\<close> writes it, is one it serves.\<close>

definition default_os :: "lease os" where
  "default_os = \<lparr>os_WriteFile = (\<lambda>_. None), os_Open = (\<lambda>_. Inr (Inr (default_file, []))),
     os_env = demo_environment new_file\<rparr>"

theorem main_serves_witness:
  "\<exists>r. main plain_codec key_orders (\<lambda>_. Inr ()) (\<lambda>_. Inr Hour) {''go_goroutines''} no_flags default_os = Serving [r] \<and>
    if_Subnets (run_Interface r) = default_subnets"
proof -
  let ?cfg = "projr default_Config"
  have p: "Parse (\<lambda>_. Inr ()) (\<lambda>_. Inr Hour) (Inr (default_file, [])) = Inr ?cfg"
    using default_accepted(1) by (metis default_Config_def)
  have plain: "\<forall>x\<in>set (if_Subnets (hd (cfg_Interfaces ?cfg))). plain_mask (Subnet_Subnet x) \<and> family_ok (NewPrefix (Subnet_Subnet x))"
    using default_accepted(5) unfolding default_accepted(3) list_all_iff .
  have os: "\<not> flag_init no_flags" "os_Open default_os (flag_c no_flags) = Inr (Inr (default_file, []))"
    by (simp_all add: no_flags_def default_os_def)
  have free: "(set store_metrics \<union> set server_metrics) \<inter> {''go_goroutines''} = {}"
    by (simp add: store_metrics_def server_metrics_def)
  have env: "listens (os_env default_os) (NewServer {''go_goroutines''} ?cfg) i" "opens (os_env default_os) new_file" for i
    by (simp_all add: default_os_def demo_environment_def listens_def NewServer_def runDebug_def opens_def)
  show ?thesis
    using main_serves [OF plain_codec_ok key_orders_ok os p default_accepted(2) plain free env] default_accepted(3) by metis
qed

end
