(* ===== verification/Spec2Isabelle.thy ===== *)
theory Spec2Isabelle
  imports Allocator_Limits Config HTTP Interleaving Command
begin

text \<open>
  \<^bold>\<open>wgipam, an address management daemon for the wg-dynamic protocol.\<close>

  The program (Go, package \<open>wgipam\<close> under src/) gives the peers of a WireGuard interface addresses from
  configured subnets.  A client asks through wg-dynamic; the handler looks up the client's lease, renews
  a live one, or allocates an address of each family and saves a new lease; a purge, every ten seconds,
  deletes the expired leases and frees their addresses.  Leases and allocations are kept in a store, in
  memory or in a bolt file.

  \<^bold>\<open>Theories and what they model.\<close>

  \<^item> \<open>Prelude\<close>: byte strings, the error and fault values, generic lemmas.
  \<^item> \<open>Net_IP\<close>, \<open>Net_Text\<close>: the part of Go's package \<open>net\<close> the code uses: \<open>IP\<close>, \<open>IPMask\<close>, \<open>IPNet\<close>,
    \<open>Contains\<close>, their texts and the parsers \<open>ParseIP\<close> and \<open>ParseCIDR\<close>, with the round trips by which the
    text of an address serves as its key.
  \<^item> \<open>Lease\<close> (lease.go): the lease and its expiry; times are nanoseconds since 1970.
  \<^item> \<open>Store_Interface\<close> (store.go): \<open>LeaseStore\<close> and \<open>IPStore\<close> as records of operations, and their contracts as
    the locales \<open>ip_store\<close>, \<open>reliable_ip_store\<close>, \<open>lease_store\<close>.
  \<^item> \<open>Memory_Store\<close> (store.go): \<open>memoryStore\<close>; the interpretations \<open>mem\<close> and \<open>mem_lease\<close>.
  \<^item> \<open>Bolt_Store\<close> (store.go): \<open>boltStore\<close> over a database of two buckets; the interpretations \<open>bolt_tx\<close> (whatever
    becomes of a transaction) and \<open>bolt\<close> (when all commit); its refinement of the memory store.
  \<^item> \<open>Ipaddr\<close>, \<open>Ipaddr_Overlap\<close> (vendor/github.com/mikioh/ipaddr): the cursor over the addresses of a prefix and
    the overlap of prefixes, on 32- and 64-bit words as the library has them.
  \<^item> \<open>Allocator\<close> (ipallocator.go): \<open>Subnet\<close>, \<open>Validate\<close>, \<open>simpleIPAllocator\<close>; proved inside \<open>ip_store\<close> for any
    store.  \<open>Allocator_Limits\<close>: what it does with the configurations its loop is not made for.
  \<^item> \<open>Multi_Allocator\<close> (ipallocator.go): \<open>multiIPAllocator\<close>, with the roll back of a failed allocation.
  \<^item> \<open>Handler\<close> (handler.go): \<open>RequestIP\<close> with its counters, \<open>requestIP\<close>, \<open>newLease\<close>, \<open>renewLease\<close>.
  \<^item> \<open>Handler_Safety\<close>: the locale \<open>handler_store\<close>, for any pair of stores with the contracts: the invariant
    that ties leases to allocations, kept by every request and every purge.
  \<^item> \<open>Memory_Server\<close>, \<open>Bolt_Server\<close> (internal/wgipamd/server.go): the requests, purges and (with a file) restarts
    of one interface as a step relation, and its reachable states.
  \<^item> \<open>Config\<close> (internal/config/config.go): \<open>Parse\<close> and its checks.
  \<^item> \<open>Ipaddr_Summary\<close> (vendor/github.com/mikioh/ipaddr): \<open>Summarize\<close>, the prefixes that make up a range.
  \<^item> \<open>Store_Full\<close> (store.go): the whole interface \<open>Store\<close>, and the two stores as values of it.
  \<^item> \<open>Metrics\<close> (metrics.go): \<open>metricsIPStore\<close>, a store with gauges around it, and \<open>allocatableSize\<close>, in float64
    arithmetic.
  \<^item> \<open>Any_Store\<close>: a store that is one of two, as \<open>newStore\<close> gives; it keeps the contracts when the two do, and
    so does a store with gauges.
  \<^item> \<open>Store_Contract\<close>: the locale \<open>store_contract\<close>, everything the interface \<open>Store\<close> promises, with an
    interpretation on the memory store and a proof for the file store.
  \<^item> \<open>Store_Tests\<close>, \<open>Purge_Test\<close> (wgipamtest/store.go): the conformance tests as functions of a store, and the
    theorems that both stores pass them.
  \<^item> \<open>Daemon\<close>, \<open>Daemon_Safety\<close>, \<open>Daemon_Run\<close> (internal/wgipamd/server.go, metrics.go): \<open>Run\<close>, \<open>runServer\<close>,
    \<open>newStore\<close>, the registration of the metrics; the daemon with either store, gauges, allocator and handler
    together, as a step relation with restarts, its invariant and the properties from end to end.
  \<^item> \<open>HTTP\<close> (http.go): the routes of the debug server and the list of interfaces.
  \<^item> \<open>Command\<close> (cmd/wgipamd/main.go): \<open>main\<close>, from the flags and the configuration file to the daemon.
  \<^item> \<open>Interleaving\<close> (handler.go): a request in two steps, between which other goroutines run.

  \<^bold>\<open>How the model corresponds to the code.\<close>  A definition has the name of the Go function or type it
  models, prefixed with the type where a name is used twice (\<open>memoryStore_Purge\<close>).  State is passed
  explicitly; a Go result with an error is a sum, \<open>Inl\<close> the error, and where a panic can happen the left
  side is a \<open>fault\<close>: \<open>Err\<close> an error or \<open>Panic\<close>.  A Go map is a partial function; where the code ranges
  over it, the order is an argument and the theorems hold for every order.  Loops over slices are
  structural recursions; the loop of \<open>Allocate\<close>, which may not end for some states of a cursor, is a
  \<open>partial_function (option)\<close>, and the theorems on it prove that it returns.  There is no fuel.

  \<^bold>\<open>What the theorems show.\<close>  For the daemon with one interface, whose requests and purges are served one
  after the other and whose file transactions commit: no two clients ever hold the same address, the allocation
  tables and the leases agree and are well formed in every reachable state, with either store and through
  restarts; it starts from a configuration file with one interface, and again on the database it left with
  the leases it had; with memory, every request is answered, with success, with the one error \<open>ErrIPUnavailable\<close> or
  with a panic.  For the allocator: which addresses it hands out and in which order, that it ends, that it never
  repeats itself, that a failed allocation is rolled back.  For the stores: round trips, purges independent
  of the order of a map, the refinement of the memory store by the file store, the errors of the file store, when each occurs
  and that it leaves the database alone, and that both pass the conformance tests of the repository.  For the configuration: what is accepted
  is what the allocator and the server need, when the networks are IPv4 ones or IPv6 ones above the IPv4-mapped
  addresses.  For the metrics: the gauges count what is allocated, the size of
  a subnet is what its allocator hands out, when its reserved addresses are in order.  For the debug server: what it shows and under which paths.
  Several theorems pin down flaws of the code: \<open>Allocator_Limits\<close> (for every subnet of the shape in question: reserved
  addresses out of order, ranges with an end, a reserved last address), \<open>SaveSubnet_again\<close>, \<open>Purge_misses_unsaved_subnet\<close>,
  \<open>Run_second_interface_fails\<close> (two interfaces register the same metrics), \<open>renewal_races_with_purge\<close> and
  \<open>double_request_leaks\<close> (no lock spans a request).

  The safety of the daemon is shown for requests and purges that are one step each, and for requests that do
  not panic; \<open>Interleaving\<close> shows that it fails when a purge comes between two operations of a renewal.

  The daemon of these theorems keeps its file store with \<open>daemon_Store\<close>, whose transactions, once the file is open,
  all commit: there the error returns of \<open>Update\<close> and \<open>View\<close> in store.go, and so the one of \<open>SaveLease\<close> in
  \<open>newLease\<close>, are not reached.  They are branches of the operations of the store and of the handler; the errors of the
  file store are characterised in \<open>Bolt_Store\<close> for any outcome of a transaction, and the interpretation \<open>bolt_tx\<close> gives
  the allocators the contract \<open>ip_store\<close> for any outcome.

  \<^bold>\<open>Not modelled.\<close>  A daemon whose file transactions fail (previous paragraph).  The locks: every operation of a store is one step, and outside \<open>Interleaving\<close> so is a
  request; finer interleavings than the one there are left out.  The JSON form of a lease
  (\<open>encoding/json\<close>) and the hash of a client's name (\<open>xxh3\<close>) are parameters, as are the bolt database
  (its documented buckets and transactions), the TOML decoder, \<open>net.ResolveTCPAddr\<close> and
  \<open>time.ParseDuration\<close>.  Of the registry of prometheus only the names are kept; what its handler and
  those of pprof answer is third-party code.  Logging, signals, and what is
  written to a connection are input and output; whether a listener or a file can be opened is an argument.
  The parts of the vendored ipaddr library the program does not call are left out.  Times are unbounded integers: Go's saturate after some 292 years.
\<close>

end
